(* ===== verification/Prelude.thy ===== *)
theory Prelude
  imports "HOL-Library.Word"
begin

text \<open>
  What every component of the development shares: the C integer types of the kernel
  (x86-64) as machine words, the error numbers, the outcome of a call that may
  dereference a NULL pointer, and the lemmas on words, page arithmetic and association
  lists that the component proofs use.
\<close>

unbundle bit_operations_syntax

section \<open>C types\<close>

type_synonym u64 = "64 word" \<comment> \<open>unsigned long, size_t, pgoff_t, vm_flags_t, u64\<close>
type_synonym u32 = "32 word" \<comment> \<open>unsigned int, and int read with \<open>sint\<close>\<close>
type_synonym pid_t = "32 word" \<comment> \<open>a signed int, read with \<open>sint\<close>\<close>
type_synonym uptr = u64 \<comment> \<open>a user-space pointer; 0 is NULL\<close>

abbreviation ULONG_MAX :: u64 where "ULONG_MAX \<equiv> - 1"

section \<open>Error numbers\<close>

text \<open>
  A C function that returns 0 or \<open>-EXXX\<close> as an \<open>int\<close> or a \<open>long\<close> is modelled with the
  result type \<open>errno + 'a\<close>.  \<open>Ecode n\<close> is a literal \<open>-n\<close> in the source.
\<close>

datatype errno =
    EPERM | ESRCH | EINTR | EBADF | EAGAIN | ENOMEM | EACCES | EFAULT | EEXIST | ENODEV
  | EINVAL | ETXTBSY | ENOSYS | EOVERFLOW | EOPNOTSUPP
  | Ecode nat

text \<open>The numbers of the C library's \<open>errno.h\<close> on Linux.\<close>

fun errno_no :: "errno \<Rightarrow> nat" where
  "errno_no EPERM = 1"
| "errno_no ESRCH = 3"
| "errno_no EINTR = 4"
| "errno_no EBADF = 9"
| "errno_no EAGAIN = 11"
| "errno_no ENOMEM = 12"
| "errno_no EACCES = 13"
| "errno_no EFAULT = 14"
| "errno_no EEXIST = 17"
| "errno_no ENODEV = 19"
| "errno_no EINVAL = 22"
| "errno_no ETXTBSY = 26"
| "errno_no ENOSYS = 38"
| "errno_no EOVERFLOW = 75"
| "errno_no EOPNOTSUPP = 95"
| "errno_no (Ecode n) = n"

text \<open>\<open>-EXXX\<close> converted to \<open>unsigned long\<close>, as the address-returning functions do.\<close>

definition err :: "errno \<Rightarrow> u64" where
  "err e = - of_nat (errno_no e)"

text \<open>A call that returns, or one that dereferences a NULL pointer (a kernel oops).\<close>

datatype 'a outcome = Oops | Done 'a

section \<open>Integer helpers\<close>

abbreviation sneg :: "'a::len word \<Rightarrow> bool" where
  "sneg w \<equiv> sint w < 0" \<comment> \<open>\<open>(long) w < 0\<close> or \<open>w < 0\<close> on a signed type\<close>

text \<open>Addition that does not wrap reads as addition on \<open>nat\<close>.\<close>

lemma unat_add_nowrap:
  fixes a b :: u64
  assumes "unat a + unat b < 2 ^ 64"
  shows "unat (a + b) = unat a + unat b"
  using assms by (simp add: unat_word_ariths)

lemma word64_le_max [simp]: "(x :: u64) \<le> - 1"
  by simp

lemma unat_bound64 [simp]: "unat (x :: u64) < 2 ^ 64"
  using unsigned_less [of x] by simp

lemma unat_bound64_num [simp]: "unat (x :: u64) < 18446744073709551616"
  using unsigned_less [of x] by simp

lemma unat_add_le:
  fixes a b :: u64
  assumes "a \<le> a + b"
  shows "unat (a + b) = unat a + unat b"
proof (cases "unat a + unat b < 2 ^ 64")
  case True
  then show ?thesis by (rule unat_add_nowrap)
next
  case False
  then have "unat (a + b) = unat a + unat b - 2 ^ 64" by (simp add: unat_plus_if')
  then have "unat (a + b) < unat a" using False unat_bound64 [of b] by linarith
  with assms show ?thesis by (simp add: word_le_nat_alt)
qed

lemma unat_minus_one64: "unat (- 1 :: u64) = 2 ^ 64 - 1"
  by (simp add: unsigned_minus_1_eq_mask mask_eq_exp_minus_1)

lemma unat_Suc64:
  fixes e :: u64
  assumes "e \<noteq> - 1"
  shows "unat (e + 1) = unat e + 1"
proof -
  have "unat e \<noteq> 2 ^ 64 - 1" using assms unat_minus_one64 by (metis word_unat_eq_iff)
  then have "unat e + 1 < 2 ^ 64" using unat_bound64 [of e] by linarith
  then show ?thesis using unat_add_nowrap [of e 1] by simp
qed

section \<open>Page arithmetic\<close>

text \<open>Masking with \<open>2 ^ 12 - 1\<close> and its complement, as division and remainder.\<close>

lemma and_4095: "(x :: u64) AND 4095 = x mod 4096"
proof -
  have "(4095 :: u64) = mask 12" by (simp add: mask_eq_exp_minus_1)
  then have "x AND 4095 = take_bit 12 x" by (simp only: take_bit_eq_mask)
  also have "\<dots> = x mod 2 ^ 12" by (rule take_bit_eq_mod)
  finally show ?thesis by simp
qed

lemma and_split_mask: "(x AND m) + (x AND NOT m) = (x :: 'a::len word)"
proof -
  have "(x AND m) AND (x AND NOT m) = 0"
    by (rule bit_word_eqI) (auto simp: bit_simps)
  then have "(x AND m) + (x AND NOT m) = (x AND m) OR (x AND NOT m)"
    by (rule disjunctive_add_eq_or)
  also have "\<dots> = x"
    by (rule bit_word_eqI) (auto simp: bit_simps)
  finally show ?thesis .
qed

lemma and_not_4095: "(x :: u64) AND - 4096 = x - x mod 4096"
  using and_split_mask [of x 4095] by (simp add: and_4095 eq_diff_eq add.commute)

lemma unat_and_4095: "unat ((x :: u64) AND 4095) = unat x mod 4096"
  by (simp add: and_4095 unat_mod)

lemma unat_and_not_4095: "unat ((x :: u64) AND - 4096) = unat x - unat x mod 4096"
proof -
  have "x mod 4096 \<le> x" by (simp add: word_le_nat_alt unat_mod)
  then show ?thesis by (simp add: and_not_4095 unat_sub unat_mod)
qed

lemma unat_shift_right_12: "unat (drop_bit 12 (x :: u64)) = unat x div 4096"
  by (simp add: drop_bit_eq_div unat_div)

lemma unat_shift_left_12:
  "unat (push_bit 12 (x :: u64)) = unat x * 4096 mod 2 ^ 64"
  by (simp add: push_bit_eq_mult unat_word_ariths)

section \<open>Lists with one element per key\<close>

text \<open>A list with at most one element per key, read as a map: the first element counts.\<close>

fun assoc_by :: "('e \<Rightarrow> 'k) \<Rightarrow> ('e \<Rightarrow> 'v) \<Rightarrow> 'e list \<Rightarrow> 'k \<Rightarrow> 'v option" where
  "assoc_by key val [] k = None"
| "assoc_by key val (e # es) k = (if key e = k then Some (val e) else assoc_by key val es k)"

lemma assoc_by_None: "assoc_by key val es k = None \<longleftrightarrow> k \<notin> key ` set es"
  by (induction es) auto

lemma assoc_by_Some_in: "assoc_by key val es k = Some v \<Longrightarrow> \<exists>e \<in> set es. key e = k \<and> val e = v"
  by (induction es) (auto split: if_splits)

end
