(* ===== verification/Kernel_Types.thy ===== *)
theory Kernel_Types
  imports Prelude
begin

text \<open>
  The kernel's data that several components touch.  The headers of the kernel are not part
  of the repository: their constants and macros are the record \<open>hdr\<close>, an argument of every
  definition that uses them, \<open>hdr_ok\<close> states their documented x86-64 values, and
  \<open>x86_hdr\<close> is one instance.  A call whose effect lies outside the modelled state (a lock,
  the allocator, a file reference, the reverse-mapping trees, the commit accounting) is an
  \<open>event\<close> in the state's \<open>trace\<close>, in program order; \<open>lock_run\<close> is the discipline the
  locks of a trace must follow.
\<close>

section \<open>Header constants\<close>

datatype kconst =
    PAGE_SIZE | PAGE_MASK | TASK_SIZE | FIRST_USER_ADDRESS | TASK_UNMAPPED_BASE
  | USER_PGTABLES_CEILING
  | VM_READ | VM_WRITE | VM_EXEC | VM_SHARED | VM_MAYREAD | VM_MAYWRITE | VM_MAYEXEC
  | VM_MAYSHARE | VM_GROWSDOWN | VM_GROWSUP | VM_PFNMAP | VM_LOCKED | VM_DONTEXPAND
  | VM_ACCOUNT | VM_NORESERVE | VM_SOFTDIRTY | VM_STARTGAP_FLAGS | VM_SPECIAL
  | VM_LOCKED_MASK | VM_ACCESS_FLAGS | VM_DATA_DEFAULT_FLAGS
  | PROT_READ | PROT_WRITE | PROT_EXEC
  | MAP_SHARED | MAP_PRIVATE | MAP_SHARED_VALIDATE | MAP_TYPE | MAP_FIXED
  | MAP_FIXED_NOREPLACE | MAP_ANONYMOUS | MAP_HUGETLB | MAP_LOCKED | MAP_NORESERVE
  | MAP_POPULATE | MAP_NONBLOCK | LEGACY_MAP_MASK | MAP_HUGE_MASK
  | FMODE_READ | FMODE_WRITE | FMODE_UNSIGNED_OFFSET
  | READ_IMPLIES_EXEC | MAX_LFS_FILESIZE | VM_UNMAPPED_AREA_TOPDOWN | OVERCOMMIT_NEVER

record hdr =
  cst :: "kconst \<Rightarrow> u64"
  PAGE_SHIFT :: nat
  MAP_HUGE_SHIFT :: nat
  PAGE_ALIGN :: "u64 \<Rightarrow> u64"
  offset_in_page :: "u64 \<Rightarrow> u64"
  IS_ERR_VALUE :: "u64 \<Rightarrow> bool"

text \<open>
  What the code relies on: 4 KiB pages, the usual reading of the page macros, and error
  values as the last 4095 values of \<open>unsigned long\<close>.
\<close>

definition hdr_ok :: "'a hdr_scheme \<Rightarrow> bool" where
  "hdr_ok H \<longleftrightarrow>
     PAGE_SHIFT H = 12 \<and> cst H PAGE_SIZE = 4096 \<and> cst H PAGE_MASK = - 4096 \<and>
     (\<forall>x. PAGE_ALIGN H x = (x + 4095) AND - 4096) \<and>
     (\<forall>x. offset_in_page H x = x AND 4095) \<and>
     (\<forall>x. IS_ERR_VALUE H x = (- 4095 \<le> x))"

text \<open>The values of an x86-64 kernel, for concrete runs.\<close>

fun x86_cst :: "kconst \<Rightarrow> u64" where
  "x86_cst PAGE_SIZE = 4096"
| "x86_cst PAGE_MASK = - 4096"
| "x86_cst TASK_SIZE = 0x7ffffffff000"
| "x86_cst FIRST_USER_ADDRESS = 0"
| "x86_cst TASK_UNMAPPED_BASE = 0x2aaaaaaaa000"
| "x86_cst USER_PGTABLES_CEILING = 0"
| "x86_cst VM_READ = 0x1"
| "x86_cst VM_WRITE = 0x2"
| "x86_cst VM_EXEC = 0x4"
| "x86_cst VM_SHARED = 0x8"
| "x86_cst VM_MAYREAD = 0x10"
| "x86_cst VM_MAYWRITE = 0x20"
| "x86_cst VM_MAYEXEC = 0x40"
| "x86_cst VM_MAYSHARE = 0x80"
| "x86_cst VM_GROWSDOWN = 0x100"
| "x86_cst VM_GROWSUP = 0"
| "x86_cst VM_PFNMAP = 0x400"
| "x86_cst VM_LOCKED = 0x2000"
| "x86_cst VM_DONTEXPAND = 0x40000"
| "x86_cst VM_ACCOUNT = 0x100000"
| "x86_cst VM_NORESERVE = 0x200000"
| "x86_cst VM_SOFTDIRTY = 0x8000000"
| "x86_cst VM_STARTGAP_FLAGS = 0x100"
| "x86_cst VM_SPECIAL = 0x10044400"
| "x86_cst VM_LOCKED_MASK = 0x82000"
| "x86_cst VM_ACCESS_FLAGS = 0x7"
| "x86_cst VM_DATA_DEFAULT_FLAGS = 0x73"
| "x86_cst PROT_READ = 0x1"
| "x86_cst PROT_WRITE = 0x2"
| "x86_cst PROT_EXEC = 0x4"
| "x86_cst MAP_SHARED = 0x1"
| "x86_cst MAP_PRIVATE = 0x2"
| "x86_cst MAP_SHARED_VALIDATE = 0x3"
| "x86_cst MAP_TYPE = 0xf"
| "x86_cst MAP_FIXED = 0x10"
| "x86_cst MAP_FIXED_NOREPLACE = 0x100000"
| "x86_cst MAP_ANONYMOUS = 0x20"
| "x86_cst MAP_HUGETLB = 0x40000"
| "x86_cst MAP_LOCKED = 0x2000"
| "x86_cst MAP_NORESERVE = 0x4000"
| "x86_cst MAP_POPULATE = 0x8000"
| "x86_cst MAP_NONBLOCK = 0x10000"
| "x86_cst LEGACY_MAP_MASK = 0x417f33"
| "x86_cst MAP_HUGE_MASK = 0x3f"
| "x86_cst FMODE_READ = 0x1"
| "x86_cst FMODE_WRITE = 0x2"
| "x86_cst FMODE_UNSIGNED_OFFSET = 0x2000"
| "x86_cst READ_IMPLIES_EXEC = 0x400000"
| "x86_cst MAX_LFS_FILESIZE = 0x7fffffffffffffff"
| "x86_cst VM_UNMAPPED_AREA_TOPDOWN = 0x1"
| "x86_cst OVERCOMMIT_NEVER = 2"

definition x86_hdr :: hdr where
  "x86_hdr = \<lparr>cst = x86_cst, PAGE_SHIFT = 12, MAP_HUGE_SHIFT = 26,
     PAGE_ALIGN = (\<lambda>x. (x + 4095) AND - 4096), offset_in_page = (\<lambda>x. x AND 4095),
     IS_ERR_VALUE = (\<lambda>x. - 4095 \<le> x)\<rparr>"

lemma x86_hdr_ok [simp]: "hdr_ok x86_hdr"
  by (simp add: hdr_ok_def x86_hdr_def)

text \<open>The same facts as conditional rewrite rules, for \<open>simp add: hdr_simps\<close>.\<close>

lemma hdr_simps:
  assumes "hdr_ok H"
  shows "PAGE_SHIFT H = 12" "cst H PAGE_SIZE = 4096" "cst H PAGE_MASK = - 4096"
    "PAGE_ALIGN H x = (x + 4095) AND - 4096" "offset_in_page H x = x AND 4095"
    "IS_ERR_VALUE H x = (- 4095 \<le> x)"
  using assms by (simp_all add: hdr_ok_def)

text \<open>The page macros on \<open>nat\<close>.\<close>

lemma PAGE_ALIGN_mod:
  assumes "hdr_ok H"
  shows "unat (PAGE_ALIGN H x) = unat (x + 4095) - unat (x + 4095) mod 4096"
  by (subst hdr_simps(4) [OF assms]) (rule unat_and_not_4095)

lemma PAGE_ALIGN_unat:
  assumes "hdr_ok H" and "unat x + 4095 < 2 ^ 64"
  shows "unat (PAGE_ALIGN H x) = (unat x + 4095) div 4096 * 4096"
proof -
  have "unat (x + 4095) = unat x + 4095"
    using unat_add_nowrap [of x 4095] assms(2) by simp
  with PAGE_ALIGN_mod [OF assms(1), of x] show ?thesis
    by (metis minus_mod_eq_div_mult)
qed

lemma PAGE_ALIGN_wraps:
  assumes "hdr_ok H" and "2 ^ 64 \<le> unat x + 4095"
  shows "PAGE_ALIGN H x = 0"
proof -
  have "unat (x + 4095) = (unat x + 4095) mod 2 ^ 64"
    by (simp add: unat_word_ariths)
  also have "\<dots> = (unat x + 4095 - 2 ^ 64) mod 2 ^ 64"
    by (rule le_mod_geq [OF assms(2)])
  also have "\<dots> \<le> unat x + 4095 - 2 ^ 64"
    by (rule mod_less_eq_dividend)
  also have "\<dots> < 4096"
    using unat_bound64 [of x] by linarith
  finally have "unat (PAGE_ALIGN H x) = 0"
    using PAGE_ALIGN_mod [OF assms(1), of x] by (metis diff_self_eq_0 mod_less)
  then show ?thesis by (rule unat_eq_zero [THEN iffD1])
qed

lemma PAGE_ALIGN_aligned:
  assumes "hdr_ok H"
  shows "4096 dvd unat (PAGE_ALIGN H x)"
proof -
  have "4096 dvd unat (x + 4095) - unat (x + 4095) mod 4096"
    by (rule dvd_minus_mod)
  then show ?thesis by (subst PAGE_ALIGN_mod [OF assms])
qed

section \<open>Events\<close>

datatype lock =
    Memory_list_mutex
  | Mmap_write_lock
  | Mmap_read_lock
  | Mm_all_locks_mutex
  | I_mmap_rwsem nat \<comment> \<open>of one address space (mapping)\<close>
  | Anon_vma_lock nat \<comment> \<open>of one anon_vma\<close>
  | Flush_dcache nat \<comment> \<open>\<open>flush_dcache_mmap_lock\<close> of one mapping\<close>
  | Page_table_lock
  | Task_lock

datatype kobj =
    Limit_entry \<comment> \<open>a \<open>struct memory_limit_entry\<close>\<close>
  | Limit_buffer \<comment> \<open>the kernel copy of the list\<close>
  | Vma_obj nat \<comment> \<open>a \<open>struct vm_area_struct\<close>\<close>

datatype event =
    Lock lock
  | Unlock lock
  | Alloc kobj
  | Free kobj
  | I_mmap_insert nat nat \<comment> \<open>a mapping enters the interval tree of an address space\<close>
  | I_mmap_remove nat nat
  | Anon_insert nat nat \<comment> \<open>a mapping enters the interval tree of an anon_vma\<close>
  | Anon_remove nat nat
  | Allow_writable nat \<comment> \<open>\<open>mapping_allow_writable\<close>\<close>
  | Unmap_writable nat \<comment> \<open>\<open>mapping_unmap_writable\<close>\<close>
  | Uprobe_mmap nat
  | Uprobe_munmap nat u64 u64
  | Get_file nat
  | Put_file nat \<comment> \<open>\<open>fput\<close>\<close>
  | Put_policy "nat option" \<comment> \<open>\<open>mpol_put\<close>\<close>
  | Vma_open nat \<comment> \<open>the driver's \<open>->open\<close>\<close>
  | Vma_close nat
  | Vma_write nat \<comment> \<open>\<open>vma_start_write\<close>\<close>
  | Vma_detached nat bool
  | Anon_prepare nat
  | Anon_clone nat nat
  | Anon_merge nat nat
  | Anon_unlink nat
  | Trans_huge nat u64 u64 u64 \<comment> \<open>\<open>vma_adjust_trans_huge\<close>\<close>
  | Perf_mmap nat
  | Khugepaged nat
  | Charge u64 \<comment> \<open>a granted \<open>security_vm_enough_memory_mm\<close>\<close>
  | Unacct u64 \<comment> \<open>\<open>vm_unacct_memory\<close>\<close>
  | Populate u64 u64
  | Mmap_downgrade \<comment> \<open>\<open>mmap_write_downgrade\<close>\<close>
  | Unmap_vmas u64 u64 bool \<comment> \<open>\<open>unmap_vmas\<close> of a range, with the map write-locked or not\<close>
  | Free_pgtables u64 u64 \<comment> \<open>between a floor and a ceiling\<close>
  | Uffd_unmap_complete
  | Ksm_add nat
  | Call_mmap nat nat \<comment> \<open>a file's \<open>->mmap\<close> on a mapping\<close>
  | Map_writable nat \<comment> \<open>\<open>mapping_map_writable\<close>\<close>
  | Shmem_setup nat
  | Mm_release \<comment> \<open>\<open>mmu_notifier_release\<close>, \<open>arch_exit_mmap\<close>\<close>
  | Set_oom_skip
  | Destroy_tree
  | Get_page nat

record kstate =
  trace :: "event list"

definition emit :: "event \<Rightarrow> 'a kstate_scheme \<Rightarrow> 'a kstate_scheme" where
  "emit e s = s\<lparr>trace := trace s @ [e]\<rparr>"

lemma trace_emit [simp]: "trace (emit e s) = trace s @ [e]"
  by (simp add: emit_def)

lemma emit_more [simp]: "kstate.more (emit e s) = kstate.more s"
  by (simp add: emit_def)

section \<open>Lock discipline\<close>

text \<open>
  \<open>lock_run held evs\<close> follows the locks of a trace from the set \<open>held\<close> (a list): taking a
  held lock is a self-deadlock, dropping one that is not held a fault; both are \<open>None\<close>.
  A downgrade turns the write lock of the memory map into the read lock.
\<close>

fun lock_run :: "lock list \<Rightarrow> event list \<Rightarrow> lock list option" where
  "lock_run held [] = Some held"
| "lock_run held (Lock l # es) = (if l \<in> set held then None else lock_run (l # held) es)"
| "lock_run held (Unlock l # es) = (if l \<in> set held then lock_run (remove1 l held) es else None)"
| "lock_run held (Mmap_downgrade # es) =
     (if Mmap_write_lock \<in> set held \<and> Mmap_read_lock \<notin> set held
      then lock_run (Mmap_read_lock # remove1 Mmap_write_lock held) es else None)"
| "lock_run held (_ # es) = lock_run held es"

lemma lock_run_append:
  "lock_run held (xs @ ys) = (case lock_run held xs of None \<Rightarrow> None | Some h \<Rightarrow> lock_run h ys)"
  by (induction held xs rule: lock_run.induct) auto

text \<open>How many objects of a kind a trace allocates and frees.\<close>

definition allocs :: "kobj \<Rightarrow> event list \<Rightarrow> nat" where
  "allocs k es = count_list es (Alloc k)"

definition frees :: "kobj \<Rightarrow> event list \<Rightarrow> nat" where
  "frees k es = count_list es (Free k)"

lemma allocs_frees_simps [simp]:
  "allocs k [] = 0" "frees k [] = 0"
  "allocs k (e # es) = (if e = Alloc k then 1 else 0) + allocs k es"
  "frees k (e # es) = (if e = Free k then 1 else 0) + frees k es"
  "allocs k (xs @ ys) = allocs k xs + allocs k ys"
  "frees k (xs @ ys) = frees k xs + frees k ys"
  by (simp_all add: allocs_def frees_def)

section \<open>Processes and address spaces\<close>

text \<open>
  The fields of \<open>struct mm_struct\<close> the sources read or write; \<open>'t\<close> is the type of the tree
  of mappings.
\<close>

record 't mm_struct =
  mm_mt :: 't
  map_count :: int
  total_vm :: u64
  locked_vm :: u64
  data_vm :: u64
  exec_vm :: u64
  stack_vm :: u64
  start_brk :: u64
  brk :: u64
  start_data :: u64
  end_data :: u64
  def_flags :: u64
  mmap_base :: u64

record 't task_struct =
  task_mm :: "'t mm_struct option" \<comment> \<open>\<open>task->mm\<close>; NULL for a kernel thread\<close>

end
