(* ===== verification/Mem_Limits.thy ===== *)
theory Mem_Limits
  imports Kernel_Types
begin

text \<open>
  \<open>kernel/usac/project3/main.c\<close>: the list of per-process memory limits, the admission
  test that \<open>brk\<close> and \<open>mmap\<close> call, and the four system calls that manage the list.
  The linked list \<open>memory_list\<close> is a list, head first.  What the code asks of the rest of
  the kernel is the record \<open>limit_env\<close>, whose functions read the state at the call.
  The model keeps the order of the checks, the mutex calls on each path and the
  allocations; messages to the log are left out.
\<close>

section \<open>Data\<close>

record memory_limitation =
  lim_pid :: pid_t
  memory_limit :: u64

record limit_state = kstate +
  memory_list :: "memory_limitation list"

record ('s, 't) limit_env =
  find_task_by_vpid :: "'s \<Rightarrow> pid_t \<Rightarrow> 't task_struct option"
  capable_sys_admin :: "'s \<Rightarrow> bool" \<comment> \<open>\<open>capable(CAP_SYS_ADMIN)\<close>\<close>
  kmalloc_entry :: "'s \<Rightarrow> bool" \<comment> \<open>the allocation of an entry succeeds\<close>
  kmalloc_array_limits :: "'s \<Rightarrow> u64 \<Rightarrow> bool" \<comment> \<open>the allocation of \<open>n\<close> elements succeeds\<close>
  copy_limits_to_user :: "'s \<Rightarrow> uptr \<Rightarrow> memory_limitation list \<Rightarrow> u64"
    \<comment> \<open>the number of bytes \<open>copy_to_user\<close> could not copy\<close>
  put_user_count :: "'s \<Rightarrow> uptr \<Rightarrow> u32 \<Rightarrow> bool" \<comment> \<open>\<open>put_user\<close> fails\<close>
  lim_page_shift :: nat \<comment> \<open>\<open>PAGE_SHIFT\<close>\<close>

abbreviation lock_list :: "'a limit_state_scheme \<Rightarrow> 'a limit_state_scheme" where
  "lock_list \<equiv> emit (Lock Memory_list_mutex)"

abbreviation unlock_list :: "'a limit_state_scheme \<Rightarrow> 'a limit_state_scheme" where
  "unlock_list \<equiv> emit (Unlock Memory_list_mutex)"

lemma memory_list_emit [simp]: "memory_list (emit e s) = memory_list s"
  by (simp add: emit_def)

lemma trace_memory_list [simp]: "trace (s\<lparr>memory_list := l\<rparr>) = trace s"
  by simp

section \<open>The admission test\<close>

text \<open>The loop of \<open>is_request_accepted\<close>: the first entry of the process decides.\<close>

fun request_loop ::
  "pid_t \<Rightarrow> u64 \<Rightarrow> u64 \<Rightarrow> memory_limitation list \<Rightarrow> 'a limit_state_scheme \<Rightarrow>
   bool \<times> 'a limit_state_scheme" where
  "request_loop pid current_usage requested_memory [] s = (True, unlock_list s)"
| "request_loop pid current_usage requested_memory (entry # es) s =
     (if lim_pid entry = pid then
        (if current_usage + requested_memory > memory_limit entry
         then (False, unlock_list s)
         else (True, unlock_list s))
      else request_loop pid current_usage requested_memory es s)"

definition is_request_accepted ::
  "('a limit_state_scheme, 't) limit_env \<Rightarrow> pid_t \<Rightarrow> u64 \<Rightarrow> 'a limit_state_scheme \<Rightarrow>
   bool \<times> 'a limit_state_scheme" where
  "is_request_accepted E pid requested_memory s =
     (case find_task_by_vpid E s pid of
        None \<Rightarrow> (False, s)
      | Some task \<Rightarrow>
          (case task_mm task of
             None \<Rightarrow> (False, s)
           | Some mm \<Rightarrow>
               (let current_usage = push_bit (lim_page_shift E) (total_vm mm);
                    s1 = lock_list s
                in request_loop pid current_usage requested_memory (memory_list s1) s1)))"

section \<open>The system calls\<close>

text \<open>The loop that looks for an existing entry in \<open>matus_add_memory_limit\<close>.\<close>

fun pid_listed :: "pid_t \<Rightarrow> memory_limitation list \<Rightarrow> bool" where
  "pid_listed pid [] = False"
| "pid_listed pid (tmp # es) = (if lim_pid tmp = pid then True else pid_listed pid es)"

text \<open>
  The part of \<open>matus_add_memory_limit\<close> under the mutex: the search for an entry, the
  allocation, the insertion at the head.
\<close>

definition add_locked ::
  "('a limit_state_scheme, 't) limit_env \<Rightarrow> pid_t \<Rightarrow> u64 \<Rightarrow> 'a limit_state_scheme \<Rightarrow>
   (errno + unit) \<times> 'a limit_state_scheme" where
  "add_locked E process_pid limit s =
     (let s1 = lock_list s in
      if pid_listed process_pid (memory_list s1) then (Inl (Ecode 101), unlock_list s1)
      else if \<not> kmalloc_entry E s1 then (Inl ENOMEM, unlock_list s1)
      else
        let s2 = emit (Alloc Limit_entry) s1;
            entry = \<lparr>lim_pid = process_pid, memory_limit = limit\<rparr>;
            s3 = s2\<lparr>memory_list := entry # memory_list s2\<rparr>
        in (Inr (), unlock_list s3))"

text \<open>
  \<open>matus_add_memory_limit\<close>.  \<open>task->mm\<close> is read without a test, so a task with no address
  space (a kernel thread) is \<open>Oops\<close>.
\<close>

definition matus_add_memory_limit ::
  "('a limit_state_scheme, 't) limit_env \<Rightarrow> pid_t \<Rightarrow> u64 \<Rightarrow> 'a limit_state_scheme \<Rightarrow>
   ((errno + unit) \<times> 'a limit_state_scheme) outcome" where
  "matus_add_memory_limit E process_pid limit s =
     (if sneg process_pid then Done (Inl EINVAL, s)
      else case find_task_by_vpid E s process_pid of
        None \<Rightarrow> Done (Inl ESRCH, s)
      | Some task \<Rightarrow>
          if \<not> capable_sys_admin E s then Done (Inl EPERM, s)
          else if sneg limit then Done (Inl EINVAL, s)
          else case task_mm task of
            None \<Rightarrow> Oops
          | Some mm \<Rightarrow>
              (let current_usage = push_bit (lim_page_shift E) (total_vm mm) in
               if limit < current_usage then Done (Inl (Ecode 100), s)
               else Done (add_locked E process_pid limit s)))"

text \<open>
  The copying loop of \<open>matus_get_memory_limits\<close>: \<open>count\<close> is an \<open>int\<close> compared with a
  \<open>size_t\<close>, so it is sign-extended to 64 bits; the filled prefix of the buffer is the
  list built so far.
\<close>

fun copy_loop ::
  "u64 \<Rightarrow> memory_limitation list \<Rightarrow> u32 \<Rightarrow> memory_limitation list \<Rightarrow>
   u32 \<times> memory_limitation list" where
  "copy_loop max_entries [] count buf = (count, buf)"
| "copy_loop max_entries (entry # es) count buf =
     (if max_entries \<le> (scast count :: u64) then (count, buf)
      else copy_loop max_entries es (count + 1) (buf @ [entry]))"

text \<open>
  What a call writes to user memory, the array and then the count.  A failed
  \<open>copy_to_user\<close> may have written part of the array; only a whole copy is recorded.
\<close>

record user_out =
  out_limits :: "memory_limitation list option"
  out_count :: "u32 option"

definition matus_get_memory_limits ::
  "('a limit_state_scheme, 't) limit_env \<Rightarrow> uptr \<Rightarrow> u64 \<Rightarrow> uptr \<Rightarrow> 'a limit_state_scheme \<Rightarrow>
   (errno + unit) \<times> user_out \<times> 'a limit_state_scheme" where
  "matus_get_memory_limits E u_processes_buffer max_entries processes_returned s =
     (let none = \<lparr>out_limits = None, out_count = None\<rparr> in
      if u_processes_buffer = 0 \<or> processes_returned = 0 then (Inl EINVAL, none, s)
      else if max_entries \<le> 0 then (Inl EINVAL, none, s)
      else if \<not> kmalloc_array_limits E s max_entries then (Inl ENOMEM, none, s)
      else
        let s1 = emit (Alloc Limit_buffer) s;
            s2 = lock_list s1;
            (count, k_buffer) = copy_loop max_entries (memory_list s2) 0 [];
            s3 = unlock_list s2
        in if copy_limits_to_user E s3 u_processes_buffer k_buffer \<noteq> 0
           then (Inl EFAULT, none, emit (Free Limit_buffer) s3)
           else
             let copied = none\<lparr>out_limits := Some k_buffer\<rparr> in
             if put_user_count E s3 processes_returned count
             then (Inl EFAULT, copied, emit (Free Limit_buffer) s3)
             else (Inr (), copied\<lparr>out_count := Some count\<rparr>, emit (Free Limit_buffer) s3))"

text \<open>The loop of \<open>matus_update_memory_limit\<close>: the first entry of the process is written.\<close>

fun update_loop ::
  "pid_t \<Rightarrow> u64 \<Rightarrow> memory_limitation list \<Rightarrow> memory_limitation list option" where
  "update_loop pid limit [] = None"
| "update_loop pid limit (entry # es) =
     (if lim_pid entry = pid then Some (entry\<lparr>memory_limit := limit\<rparr> # es)
      else map_option (Cons entry) (update_loop pid limit es))"

text \<open>
  \<open>matus_update_memory_limit\<close>.  The test \<open>memory_limit < 0\<close> compares an unsigned value
  and is written as the code has it.
\<close>

definition matus_update_memory_limit ::
  "('a limit_state_scheme, 't) limit_env \<Rightarrow> pid_t \<Rightarrow> u64 \<Rightarrow> 'a limit_state_scheme \<Rightarrow>
   (errno + unit) \<times> 'a limit_state_scheme" where
  "matus_update_memory_limit E process_pid limit s =
     (if \<not> capable_sys_admin E s then (Inl EPERM, s)
      else if sneg process_pid then (Inl EINVAL, s)
      else if limit < 0 then (Inl EINVAL, s)
      else
        let s1 = lock_list s in
        case update_loop process_pid limit (memory_list s1) of
          Some l \<Rightarrow> (Inr (), unlock_list (s1\<lparr>memory_list := l\<rparr>))
        | None \<Rightarrow> (Inl (Ecode 102), unlock_list s1))"

text \<open>The loop of \<open>matus_remove_memory_limit\<close>: the first entry of the process is unlinked.\<close>

fun remove_loop :: "pid_t \<Rightarrow> memory_limitation list \<Rightarrow> memory_limitation list option" where
  "remove_loop pid [] = None"
| "remove_loop pid (entry # es) =
     (if lim_pid entry = pid then Some es
      else map_option (Cons entry) (remove_loop pid es))"

definition matus_remove_memory_limit ::
  "('a limit_state_scheme, 't) limit_env \<Rightarrow> pid_t \<Rightarrow> 'a limit_state_scheme \<Rightarrow>
   (errno + unit) \<times> 'a limit_state_scheme" where
  "matus_remove_memory_limit E process_pid s =
     (if \<not> capable_sys_admin E s then (Inl EPERM, s)
      else if sneg process_pid then (Inl EINVAL, s)
      else
        let s1 = lock_list s in
        case remove_loop process_pid (memory_list s1) of
          Some l \<Rightarrow>
            (Inr (), unlock_list (emit (Free Limit_entry) (s1\<lparr>memory_list := l\<rparr>)))
        | None \<Rightarrow> (Inl (Ecode 102), unlock_list s1))"

section \<open>The list as a table\<close>

text \<open>
  The contract of a table of limits: what a lookup returns after an insertion, an update
  or a deletion.  The lemmas of the block are the client's view, and hold for any
  implementation that keeps the laws.
\<close>

locale limit_table =
  fixes look :: "'l \<Rightarrow> pid_t \<Rightarrow> u64 option"
    and ins :: "pid_t \<Rightarrow> u64 \<Rightarrow> 'l \<Rightarrow> 'l"
    and upd :: "pid_t \<Rightarrow> u64 \<Rightarrow> 'l \<Rightarrow> 'l option"
    and del :: "pid_t \<Rightarrow> 'l \<Rightarrow> 'l option"
    and inv :: "'l \<Rightarrow> bool"
  assumes look_ins: "look (ins p v l) = (look l)(p \<mapsto> v)"
    and inv_ins: "inv l \<Longrightarrow> look l p = None \<Longrightarrow> inv (ins p v l)"
    and upd_None: "upd p v l = None \<longleftrightarrow> look l p = None"
    and look_upd: "upd p v l = Some l' \<Longrightarrow> look l' = (look l)(p \<mapsto> v)"
    and inv_upd: "inv l \<Longrightarrow> upd p v l = Some l' \<Longrightarrow> inv l'"
    and del_None: "del p l = None \<longleftrightarrow> look l p = None"
    and look_del: "inv l \<Longrightarrow> del p l = Some l' \<Longrightarrow> look l' = (look l)(p := None)"
    and inv_del: "inv l \<Longrightarrow> del p l = Some l' \<Longrightarrow> inv l'"
begin

lemma ins_del: "inv l \<Longrightarrow> look l p = None \<Longrightarrow> \<exists>l'. del p (ins p v l) = Some l' \<and> look l' = look l"
proof -
  assume l: "inv l" "look l p = None"
  then have "inv (ins p v l)" by (rule inv_ins)
  moreover obtain l' where d: "del p (ins p v l) = Some l'"
    using del_None [of p "ins p v l"] by (auto simp: look_ins)
  ultimately have "look l' = (look (ins p v l))(p := None)" by (rule look_del)
  with l d show ?thesis by (auto simp: look_ins fun_upd_idem)
qed

lemma ins_upd: "\<exists>l'. upd p w (ins p v l) = Some l' \<and> look l' = (look l)(p \<mapsto> w)"
proof -
  obtain l' where d: "upd p w (ins p v l) = Some l'"
    using upd_None [of p w "ins p v l"] by (auto simp: look_ins)
  with look_upd [OF d] show ?thesis by (auto simp: look_ins)
qed

lemma del_gone: "inv l \<Longrightarrow> del p l = Some l' \<Longrightarrow> del p l' = None \<and> upd p v l' = None"
  by (simp add: del_None upd_None look_del)

end

abbreviation limit_look :: "memory_limitation list \<Rightarrow> pid_t \<Rightarrow> u64 option" where
  "limit_look \<equiv> assoc_by lim_pid memory_limit"

abbreviation limit_ins :: "pid_t \<Rightarrow> u64 \<Rightarrow> memory_limitation list \<Rightarrow> memory_limitation list" where
  "limit_ins p v l \<equiv> \<lparr>lim_pid = p, memory_limit = v\<rparr> # l"

abbreviation distinct_pids :: "memory_limitation list \<Rightarrow> bool" where
  "distinct_pids l \<equiv> distinct (map lim_pid l)"

lemma pid_listed_iff: "pid_listed p l \<longleftrightarrow> p \<in> lim_pid ` set l"
  by (induction l) auto

lemma pid_listed_look: "pid_listed p l \<longleftrightarrow> limit_look l p \<noteq> None"
  by (simp add: pid_listed_iff assoc_by_None)

lemma update_loop_None: "update_loop p v l = None \<longleftrightarrow> limit_look l p = None"
  by (induction l) auto

lemma update_loop_look: "update_loop p v l = Some l' \<Longrightarrow> limit_look l' = (limit_look l)(p \<mapsto> v)"
  by (induction l arbitrary: l') (fastforce simp: fun_eq_iff split: if_splits)+

lemma update_loop_pids: "update_loop p v l = Some l' \<Longrightarrow> map lim_pid l' = map lim_pid l"
  by (induction l arbitrary: l') (auto split: if_splits)

lemma remove_loop_None: "remove_loop p l = None \<longleftrightarrow> limit_look l p = None"
  by (induction l) auto

lemma remove_loop_pids:
  "remove_loop p l = Some l' \<Longrightarrow> map lim_pid l' = remove1 p (map lim_pid l)"
  by (induction l arbitrary: l') (auto split: if_splits)

lemma remove_loop_look:
  "distinct_pids l \<Longrightarrow> remove_loop p l = Some l' \<Longrightarrow> limit_look l' = (limit_look l)(p := None)"
proof (induction l arbitrary: l')
  case (Cons e l)
  show ?case
  proof (cases "lim_pid e = p")
    case True
    with Cons.prems have "limit_look l p = None"
      by (auto simp: assoc_by_None image_iff)
    with True Cons.prems show ?thesis by (auto simp: fun_eq_iff)
  next
    case False
    with Cons.prems obtain l2 where "remove_loop p l = Some l2" "l' = e # l2" by auto
    with Cons False show ?thesis by (auto simp: fun_eq_iff)
  qed
qed simp

interpretation lim: limit_table limit_look limit_ins update_loop remove_loop distinct_pids
proof unfold_locales
  fix p l l' assume "distinct_pids l" and "remove_loop p l = Some l'"
  then show "distinct_pids l'" by (simp add: remove_loop_pids distinct_remove1)
next
  fix p l l' assume "distinct_pids l" and "remove_loop p l = Some l'"
  then show "limit_look l' = (limit_look l)(p := None)" by (rule remove_loop_look)
qed (auto simp: fun_eq_iff assoc_by_None update_loop_None remove_loop_None
      dest: update_loop_pids update_loop_look)

end
