(* ===== verification/Limits_Spec.thy ===== *)
theory Limits_Spec
  imports Mem_Limits
begin

text \<open>
  What the memory-limit calls promise: the list refines a partial map from process ids to
  limits (\<open>limits_of\<close>, with the abstract calls of \<open>spec_call\<close>), every reachable state has
  one entry per process, a free mutex and one live allocation per entry, the admission
  test decides by the process's limit, and the listing call copies a bounded prefix.
\<close>

section \<open>Calls and reachable states\<close>

datatype limit_call =
    Add pid_t u64
  | Update pid_t u64
  | Remove pid_t
  | Get uptr u64 uptr
  | Request pid_t u64

text \<open>One call on the state; \<open>None\<close> is a kernel oops.\<close>

fun limit_run ::
  "('a limit_state_scheme, 't) limit_env \<Rightarrow> limit_call \<Rightarrow> 'a limit_state_scheme \<Rightarrow>
   'a limit_state_scheme option" where
  "limit_run E (Add p l) s =
     (case matus_add_memory_limit E p l s of Oops \<Rightarrow> None | Done r \<Rightarrow> Some (snd r))"
| "limit_run E (Update p l) s = Some (snd (matus_update_memory_limit E p l s))"
| "limit_run E (Remove p) s = Some (snd (matus_remove_memory_limit E p s))"
| "limit_run E (Get u n c) s = Some (snd (snd (matus_get_memory_limits E u n c s)))"
| "limit_run E (Request p r) s = Some (snd (is_request_accepted E p r s))"

text \<open>
  A step is one call in one of the environments \<open>Es\<close> (a different one at each step), or the
  locked part of an \<open>add\<close> whose checks were made earlier, in another state: the checks take
  no lock, so calls may run in between.
\<close>

inductive limit_step ::
  "(limit_state, 't) limit_env set \<Rightarrow> limit_state \<Rightarrow> limit_state \<Rightarrow> bool"
  for Es :: "(limit_state, 't) limit_env set" where
  call: "E \<in> Es \<Longrightarrow> limit_run E c s = Some s' \<Longrightarrow> limit_step Es s s'"
| late_add: "E \<in> Es \<Longrightarrow> \<not> sneg p \<Longrightarrow> limit_step Es s (snd (add_locked E p l s))"

definition limit_init :: limit_state where
  "limit_init = \<lparr>trace = [], memory_list = []\<rparr>"

inductive limit_reachable :: "(limit_state, 't) limit_env set \<Rightarrow> limit_state \<Rightarrow> bool"
  for Es :: "(limit_state, 't) limit_env set" where
  start: "limit_reachable Es limit_init"
| step: "limit_reachable Es s \<Longrightarrow> limit_step Es s s' \<Longrightarrow> limit_reachable Es s'"

definition limit_inv :: "'a limit_state_scheme \<Rightarrow> bool" where
  "limit_inv s \<longleftrightarrow>
     distinct_pids (memory_list s) \<and>
     (\<forall>e \<in> set (memory_list s). \<not> sneg (lim_pid e)) \<and>
     lock_run [] (trace s) = Some [] \<and>
     allocs Limit_entry (trace s) = frees Limit_entry (trace s) + length (memory_list s) \<and>
     allocs Limit_buffer (trace s) = frees Limit_buffer (trace s)"

section \<open>Every call keeps the invariant\<close>

lemma request_loop_state: "snd (request_loop p u r es s) = unlock_list s"
  by (induction es) auto

lemma request_state:
  "snd (is_request_accepted E p r s) = s \<or>
   snd (is_request_accepted E p r s) = unlock_list (lock_list s)"
  by (auto simp: is_request_accepted_def Let_def request_loop_state split: option.splits)

lemma remove_loop_length: "remove_loop p l = Some l' \<Longrightarrow> length l = Suc (length l')"
  by (induction l arbitrary: l') (auto split: if_splits)

lemma remove_loop_subset: "remove_loop p l = Some l' \<Longrightarrow> set l' \<subseteq> set l"
  by (induction l arbitrary: l') (auto split: if_splits)

lemma update_loop_inv:
  assumes "update_loop p v l = Some l'"
  shows "length l' = length l" "distinct_pids l' = distinct_pids l"
    "(\<forall>e \<in> set l'. \<not> sneg (lim_pid e)) = (\<forall>e \<in> set l. \<not> sneg (lim_pid e))"
proof -
  have m: "map lim_pid l' = map lim_pid l" using assms by (rule update_loop_pids)
  then show "length l' = length l" by (metis length_map)
  show "distinct_pids l' = distinct_pids l" using m by simp
  have "lim_pid ` set l' = lim_pid ` set l" using m by (metis list.set_map)
  then show "(\<forall>e \<in> set l'. \<not> sneg (lim_pid e)) = (\<forall>e \<in> set l. \<not> sneg (lim_pid e))"
    by (metis (mono_tags, lifting) image_iff)
qed

lemma limit_inv_lock_unlock [simp]: "limit_inv (unlock_list (lock_list s)) = limit_inv s"
  by (cases "lock_run [] (trace s)") (auto simp: limit_inv_def lock_run_append)

lemma add_locked_inv:
  assumes "limit_inv s" and "\<not> sneg p"
  shows "limit_inv (snd (add_locked E p l s))"
proof -
  consider "pid_listed p (memory_list s)"
    | "\<not> pid_listed p (memory_list s)" "\<not> kmalloc_entry E (lock_list s)"
    | "\<not> pid_listed p (memory_list s)" "kmalloc_entry E (lock_list s)" by blast
  then show ?thesis
  proof cases
    case 1 with assms show ?thesis by (simp add: add_locked_def Let_def)
  next
    case 2 with assms show ?thesis by (simp add: add_locked_def Let_def)
  next
    case 3
    with assms show ?thesis
      by (auto simp: add_locked_def Let_def limit_inv_def lock_run_append pid_listed_iff)
  qed
qed

lemma add_inv:
  assumes "limit_inv s" and "matus_add_memory_limit E p l s = Done (r, s')"
  shows "limit_inv s'"
proof -
  have "s' = s \<or> \<not> sneg p \<and> s' = snd (add_locked E p l s)"
    using assms(2)
    by (auto simp: matus_add_memory_limit_def Let_def split: if_splits option.splits)
  with assms(1) show ?thesis by (auto intro: add_locked_inv)
qed

lemma update_inv:
  assumes "limit_inv s"
  shows "limit_inv (snd (matus_update_memory_limit E p l s))"
  using assms
  by (auto simp: matus_update_memory_limit_def Let_def limit_inv_def lock_run_append
      update_loop_inv split: option.splits)

lemma remove_inv:
  assumes "limit_inv s"
  shows "limit_inv (snd (matus_remove_memory_limit E p s))"
proof (cases "remove_loop p (memory_list s)")
  case None
  with assms show ?thesis by (simp add: matus_remove_memory_limit_def Let_def)
next
  case (Some l)
  with assms remove_loop_subset [OF Some] remove_loop_length [OF Some] lim.inv_del [OF _ Some]
  show ?thesis
    by (auto simp: matus_remove_memory_limit_def Let_def limit_inv_def lock_run_append)
qed

lemma get_inv:
  assumes "limit_inv s"
  shows "limit_inv (snd (snd (matus_get_memory_limits E u n c s)))"
  using assms
  by (auto simp: matus_get_memory_limits_def Let_def limit_inv_def lock_run_append
      split: prod.splits)

lemma request_inv:
  assumes "limit_inv s"
  shows "limit_inv (snd (is_request_accepted E p r s))"
  using request_state [of E p r s] assms by auto

lemma limit_run_inv: "limit_inv s \<Longrightarrow> limit_run E c s = Some s' \<Longrightarrow> limit_inv s'"
  by (cases c)
    (auto simp: update_inv remove_inv get_inv request_inv split: outcome.splits intro: add_inv)

lemma limit_step_inv: "limit_step Es s s' \<Longrightarrow> limit_inv s \<Longrightarrow> limit_inv s'"
  by (induction rule: limit_step.induct) (auto intro: limit_run_inv add_locked_inv)

lemma limit_init_inv: "limit_inv limit_init"
  by (simp add: limit_inv_def limit_init_def)

text \<open>
  C1: In every state reachable by any sequence of the limit calls, with the rest of the
  kernel answering as it likes at each step and with the locked part of an \<open>add\<close> running
  late, the list has at most one entry per process and no negative process id, the mutex
  has been taken and dropped in pairs and is free, every list entry is one live allocation
  and every listing buffer has been freed.
\<close>

theorem limits_invariant:
  assumes "limit_reachable Es s"
  shows "limit_inv s"
  using assms by (induction rule: limit_reachable.induct) (auto intro: limit_init_inv limit_step_inv)

text \<open>An environment for concrete runs: one process, id 7, with two mapped pages.\<close>

definition demo_mm :: "unit mm_struct" where
  "demo_mm = \<lparr>mm_mt = (), map_count = 0, total_vm = 2, locked_vm = 0, data_vm = 0, exec_vm = 0,
     stack_vm = 0, start_brk = 0, brk = 0, start_data = 0, end_data = 0, def_flags = 0,
     mmap_base = 0\<rparr>"

definition demo_env :: "(limit_state, unit) limit_env" where
  "demo_env =
     \<lparr>find_task_by_vpid =
        (\<lambda>s p. if p = 7 then Some \<lparr>task_mm = Some demo_mm\<rparr>
              else if p = 2 then Some \<lparr>task_mm = None\<rparr> else None),
      capable_sys_admin = (\<lambda>s. True), kmalloc_entry = (\<lambda>s. True),
      kmalloc_array_limits = (\<lambda>s n. True), copy_limits_to_user = (\<lambda>s u l. 0),
      put_user_count = (\<lambda>s u c. False), lim_page_shift = 12\<rparr>"

definition demo_state :: limit_state where
  "demo_state = \<lparr>trace = [Lock Memory_list_mutex, Alloc Limit_entry, Unlock Memory_list_mutex],
     memory_list = [\<lparr>lim_pid = 7, memory_limit = 12288\<rparr>]\<rparr>"

lemmas demo_simps = demo_mm_def demo_env_def demo_state_def

lemma demo_add: "matus_add_memory_limit demo_env 7 12288 limit_init = Done (Inr (), demo_state)"
  by (simp add: demo_simps matus_add_memory_limit_def add_locked_def limit_init_def emit_def)

theorem limits_invariant_witness: "limit_inv demo_state"
proof -
  have "limit_run demo_env (Add 7 12288) limit_init = Some demo_state"
    by (simp add: demo_add)
  then have "limit_step {demo_env} limit_init demo_state"
    by (rule limit_step.call [OF singletonI])
  with limit_reachable.start have "limit_reachable {demo_env} demo_state"
    by (rule limit_reachable.step)
  then show ?thesis by (rule limits_invariant)
qed

section \<open>Refinement of a map from processes to limits\<close>

definition limits_of :: "'a limit_state_scheme \<Rightarrow> (pid_t \<rightharpoonup> u64)" where
  "limits_of s = limit_look (memory_list s)"

lemma limits_of_emit [simp]: "limits_of (emit e s) = limits_of s"
  by (simp add: limits_of_def)

text \<open>
  The abstract \<open>add\<close>: \<open>task\<close> is what the search for the process gives (nothing, a task with
  no address space, or a number of bytes in use), \<open>cap\<close> and \<open>mem\<close> the privilege and the
  allocator's answer.
\<close>

definition spec_add ::
  "u64 option option \<Rightarrow> bool \<Rightarrow> bool \<Rightarrow> pid_t \<Rightarrow> u64 \<Rightarrow> (pid_t \<rightharpoonup> u64) \<Rightarrow>
   ((errno + unit) \<times> (pid_t \<rightharpoonup> u64)) outcome" where
  "spec_add task cap mem p l m =
     (if sneg p then Done (Inl EINVAL, m)
      else case task of
        None \<Rightarrow> Done (Inl ESRCH, m)
      | Some used \<Rightarrow>
          if \<not> cap then Done (Inl EPERM, m)
          else if sneg l then Done (Inl EINVAL, m)
          else case used of
            None \<Rightarrow> Oops
          | Some u \<Rightarrow>
              if l < u then Done (Inl (Ecode 100), m)
              else if m p \<noteq> None then Done (Inl (Ecode 101), m)
              else if \<not> mem then Done (Inl ENOMEM, m)
              else Done (Inr (), m(p \<mapsto> l)))"

definition usage_of ::
  "('a limit_state_scheme, 't) limit_env \<Rightarrow> pid_t \<Rightarrow> 'a limit_state_scheme \<Rightarrow> u64 option option" where
  "usage_of E p s =
     map_option (\<lambda>t. map_option (\<lambda>m. push_bit (lim_page_shift E) (total_vm m)) (task_mm t))
       (find_task_by_vpid E s p)"

definition spec_update ::
  "bool \<Rightarrow> pid_t \<Rightarrow> u64 \<Rightarrow> (pid_t \<rightharpoonup> u64) \<Rightarrow> (errno + unit) \<times> (pid_t \<rightharpoonup> u64)" where
  "spec_update cap p l m =
     (if \<not> cap then (Inl EPERM, m) else if sneg p then (Inl EINVAL, m)
      else if m p = None then (Inl (Ecode 102), m) else (Inr (), m(p \<mapsto> l)))"

definition spec_remove ::
  "bool \<Rightarrow> pid_t \<Rightarrow> (pid_t \<rightharpoonup> u64) \<Rightarrow> (errno + unit) \<times> (pid_t \<rightharpoonup> u64)" where
  "spec_remove cap p m =
     (if \<not> cap then (Inl EPERM, m) else if sneg p then (Inl EINVAL, m)
      else if m p = None then (Inl (Ecode 102), m) else (Inr (), m(p := None)))"

lemma add_locked_refines:
  "apsnd limits_of (add_locked E p l s) =
     (if limits_of s p \<noteq> None then (Inl (Ecode 101), limits_of s)
      else if \<not> kmalloc_entry E (lock_list s) then (Inl ENOMEM, limits_of s)
      else (Inr (), (limits_of s)(p \<mapsto> l)))"
  by (auto simp: add_locked_def Let_def limits_of_def pid_listed_look fun_eq_iff)

text \<open>
  C2: \<open>matus_add_memory_limit\<close> refines the abstract \<open>add\<close> on every branch: the same return
  code in the same order of checks, the same resulting map, and an oops in the same case (a
  privileged call that names a task without an address space).
\<close>

theorem add_refines:
  "map_outcome (apsnd limits_of) (matus_add_memory_limit E p l s) =
     spec_add (usage_of E p s) (capable_sys_admin E s) (kmalloc_entry E (lock_list s)) p l
       (limits_of s)"
  by (auto simp: matus_add_memory_limit_def spec_add_def usage_of_def Let_def
      add_locked_refines split: option.splits)

lemma update_abs:
  "apsnd limits_of (matus_update_memory_limit E p l s) =
     spec_update (capable_sys_admin E s) p l (limits_of s)"
proof (cases "update_loop p l (memory_list s)")
  case None
  then have "limit_look (memory_list s) p = None" by (simp add: lim.upd_None)
  with None show ?thesis
    by (simp add: matus_update_memory_limit_def spec_update_def Let_def limits_of_def)
next
  case (Some l')
  then obtain v where "limit_look (memory_list s) p = Some v"
    using lim.upd_None [of p l "memory_list s"] by auto
  with Some lim.look_upd [OF Some] show ?thesis
    by (simp add: matus_update_memory_limit_def spec_update_def Let_def limits_of_def)
qed

text \<open>
  C3: \<open>matus_update_memory_limit\<close> refines the abstract update, which has no test on the new
  limit: the code's test \<open>memory_limit < 0\<close> is on an unsigned value and never holds, and the
  current usage is not looked at.
\<close>

theorem update_refines:
  "apsnd limits_of (matus_update_memory_limit E p l s) =
     spec_update (capable_sys_admin E s) p l (limits_of s)"
  by (rule update_abs)

text \<open>
  C4: On a list with one entry per process \<open>matus_remove_memory_limit\<close> refines deletion from
  the map, with its return codes.
\<close>

theorem remove_refines:
  assumes "limit_inv s"
  shows "apsnd limits_of (matus_remove_memory_limit E p s) =
     spec_remove (capable_sys_admin E s) p (limits_of s)"
proof (cases "remove_loop p (memory_list s)")
  case None
  then have "limit_look (memory_list s) p = None" by (simp add: lim.del_None)
  with None show ?thesis
    by (simp add: matus_remove_memory_limit_def spec_remove_def Let_def limits_of_def)
next
  case (Some l')
  then obtain v where "limit_look (memory_list s) p = Some v"
    using lim.del_None [of p "memory_list s"] by auto
  moreover have "limit_look l' = (limit_look (memory_list s))(p := None)"
    using assms Some by (auto simp: limit_inv_def intro: lim.look_del)
  ultimately show ?thesis using Some
    by (simp add: matus_remove_memory_limit_def spec_remove_def Let_def limits_of_def)
qed

theorem remove_refines_witness:
  "apsnd limits_of (matus_remove_memory_limit demo_env 7 demo_state) =
     (Inr (), (limits_of demo_state)(7 := None))"
proof -
  have "limit_inv demo_state" by (simp add: limit_inv_def demo_state_def)
  from remove_refines [OF this, of demo_env 7] show ?thesis
    by (simp add: spec_remove_def limits_of_def demo_simps)
qed

section \<open>The admission test\<close>

lemma request_loop_decision:
  "fst (request_loop p u r es s) = (case limit_look es p of None \<Rightarrow> True | Some L \<Rightarrow> u + r \<le> L)"
  by (induction es) auto

lemma request_eq:
  "is_request_accepted E p r s =
     (case usage_of E p s of
        Some (Some u) \<Rightarrow>
          (case limits_of s p of None \<Rightarrow> True | Some L \<Rightarrow> u + r \<le> L, unlock_list (lock_list s))
      | _ \<Rightarrow> (False, s))"
  by (auto simp: is_request_accepted_def usage_of_def limits_of_def Let_def
      request_loop_state request_loop_decision prod_eq_iff split: option.splits)

text \<open>
  C5: \<open>is_request_accepted\<close> decides by the map alone: a request of a process without a task
  or an address space is refused, one of an unlimited process accepted, and one of a
  limited process accepted exactly when usage plus request, as 64-bit arithmetic, is within
  the limit; the list is unchanged.
\<close>

theorem request_decision:
  "is_request_accepted E p r s =
     (case usage_of E p s of
        Some (Some u) \<Rightarrow>
          (case limits_of s p of None \<Rightarrow> True | Some L \<Rightarrow> u + r \<le> L, unlock_list (lock_list s))
      | _ \<Rightarrow> (False, s))"
  by (rule request_eq)

text \<open>
  C6: Where usage plus request does not exceed 64 bits, the test enforces the limit in
  plain arithmetic: a limited process is admitted if and only if the bytes it has mapped
  and the bytes it asks for are together at most its limit.
\<close>

theorem request_enforces_limit:
  assumes "usage_of E p s = Some (Some u)" and "limits_of s p = Some L"
    and "unat u + unat r < 2 ^ 64"
  shows "fst (is_request_accepted E p r s) \<longleftrightarrow> unat u + unat r \<le> unat L"
  using assms unat_add_nowrap [of u r]
  by (simp add: request_eq word_le_nat_alt)

theorem request_enforces_limit_witness:
  "fst (is_request_accepted demo_env 7 4096 demo_state) \<and>
   \<not> fst (is_request_accepted demo_env 7 8192 demo_state)"
proof -
  have h: "usage_of demo_env 7 demo_state = Some (Some 8192)"
      "limits_of demo_state 7 = Some 12288"
    by (simp_all add: usage_of_def limits_of_def demo_simps)
  from request_enforces_limit [OF h, of 4096] request_enforces_limit [OF h, of 8192]
  show ?thesis by simp
qed

text \<open>
  C7: The sum is not checked for overflow: a request of \<open>2 ^ 64 - usage\<close> bytes wraps the sum
  to 0 and is accepted whatever the process's limit is.
\<close>

theorem request_overflow_accepted:
  assumes "usage_of E p s = Some (Some u)"
  shows "fst (is_request_accepted E p (- u) s)"
  using assms by (simp add: request_eq split: option.splits)

theorem request_overflow_accepted_witness:
  "fst (is_request_accepted demo_env 7 (- 8192) demo_state) \<and> unat (- 8192 :: u64) > 12288"
proof -
  have "usage_of demo_env 7 demo_state = Some (Some 8192)"
    by (simp add: usage_of_def demo_simps)
  from request_overflow_accepted [OF this] show ?thesis by simp
qed

section \<open>Listing\<close>

lemma scast_count: "n < 2 ^ 31 \<Longrightarrow> (scast (of_nat n :: u32) :: u64) = of_nat n"
  by (simp add: scast_eq sint_uint unsigned_of_nat take_bit_nat_eq_self signed_take_bit_int_eq_self)

lemma copy_loop_spec:
  assumes "length buf + length es < 2 ^ 31" and "length buf \<le> unat m"
  shows "copy_loop m es (of_nat (length buf)) buf =
    (let b = buf @ take (unat m - length buf) es in (of_nat (length b), b))"
  using assms
proof (induction es arbitrary: buf)
  case (Cons e es)
  have len: "m \<le> scast (of_nat (length buf) :: u32) \<longleftrightarrow> unat m = length buf"
    using Cons.prems unat_bound64 [of m]
    by (simp add: scast_count word_le_nat_alt unat_of_nat)
  show ?case
  proof (cases "unat m = length buf")
    case True
    with len show ?thesis by simp
  next
    case False
    with Cons.prems have "copy_loop m es (of_nat (length (buf @ [e]))) (buf @ [e]) =
      (let b = (buf @ [e]) @ take (unat m - length (buf @ [e])) es in (of_nat (length b), b))"
      by (intro Cons.IH) auto
    moreover from False Cons.prems have "unat m - length buf = Suc (unat m - Suc (length buf))"
      by simp
    ultimately show ?thesis using False len by (simp add: add.commute)
  qed
qed (simp add: Let_def)

lemma get_prefix:
  assumes "matus_get_memory_limits E ubuf max_entries uret s = (Inr (), out, s')"
    and "length (memory_list s) < 2 ^ 31"
  shows "out_limits out = Some (take (unat max_entries) (memory_list s)) \<and>
    out_count out = Some (of_nat (min (length (memory_list s)) (unat max_entries))) \<and>
    memory_list s' = memory_list s"
  using assms copy_loop_spec [of "[]" "memory_list s" max_entries]
  by (auto simp: matus_get_memory_limits_def Let_def split: if_splits)

text \<open>
  C8: A successful \<open>matus_get_memory_limits\<close> copies the first \<open>max_entries\<close> entries of the
  list, in order and never more than \<open>max_entries\<close>, reports exactly how many it copied, and
  leaves the list as it was.
\<close>

theorem get_lists_prefix:
  assumes "matus_get_memory_limits E ubuf max_entries uret s = (Inr (), out, s')"
    and "length (memory_list s) < 2 ^ 31"
  shows "out_limits out = Some (take (unat max_entries) (memory_list s)) \<and>
    out_count out = Some (of_nat (min (length (memory_list s)) (unat max_entries))) \<and>
    memory_list s' = memory_list s"
  using assms by (rule get_prefix)

theorem get_lists_prefix_witness:
  "\<exists>out s'. matus_get_memory_limits demo_env 4096 10 8192 demo_state = (Inr (), out, s') \<and>
     out_limits out = Some (memory_list demo_state) \<and> out_count out = Some 1"
proof -
  obtain out s' where r:
      "matus_get_memory_limits demo_env 4096 10 8192 demo_state = (Inr (), out, s')"
    by (simp add: matus_get_memory_limits_def demo_simps Let_def)
  have "length (memory_list demo_state) < 2 ^ 31" by (simp add: demo_state_def)
  from get_lists_prefix [OF r this] r show ?thesis by (simp add: demo_state_def)
qed

text \<open>
  C9: After a successful \<open>add\<close>, a successful listing with room for an entry shows the new
  limit first, and the old list after it as far as it fits.
\<close>

theorem add_then_get:
  assumes "matus_add_memory_limit E p l s = Done (Inr (), s1)"
    and "matus_get_memory_limits E2 ubuf n uret s1 = (Inr (), out, s2)"
    and "length (memory_list s) + 1 < 2 ^ 31"
  shows "out_limits out =
    Some (\<lparr>lim_pid = p, memory_limit = l\<rparr> # take (unat n - 1) (memory_list s))"
proof -
  have "memory_list s1 = \<lparr>lim_pid = p, memory_limit = l\<rparr> # memory_list s"
    using assms(1)
    by (auto simp: matus_add_memory_limit_def add_locked_def Let_def
        split: if_splits option.splits)
  moreover have "0 < unat n"
    using assms(2)
    by (auto simp: matus_get_memory_limits_def Let_def word_neq_0_conv unat_gt_0 split: if_splits)
  then obtain k where "unat n = Suc k" by (cases "unat n") auto
  ultimately show ?thesis
    using get_prefix [OF assms(2)] assms(3) by simp
qed

theorem add_then_get_witness:
  "\<exists>out s2. matus_get_memory_limits demo_env 4096 3 8192 demo_state = (Inr (), out, s2) \<and>
     out_limits out = Some [\<lparr>lim_pid = 7, memory_limit = 12288\<rparr>]"
proof -
  obtain out s2 where r:
      "matus_get_memory_limits demo_env 4096 3 8192 demo_state = (Inr (), out, s2)"
    by (simp add: matus_get_memory_limits_def demo_simps Let_def)
  have "length (memory_list limit_init) + 1 < 2 ^ 31" by (simp add: limit_init_def)
  from add_then_get [OF demo_add r this] r show ?thesis by (simp add: limit_init_def)
qed

section \<open>Update against add\<close>

text \<open>
  C10: A limit with the top bit set, which \<open>matus_add_memory_limit\<close> refuses with
  \<open>-EINVAL\<close> for every privileged call on a live process, is stored by
  \<open>matus_update_memory_limit\<close> for every listed process.
\<close>

theorem update_accepts_what_add_refuses:
  assumes "sneg l" and "\<not> sneg p" and "capable_sys_admin E s"
    and "usage_of E p s = Some used" and "limits_of s p = Some old"
  shows "matus_add_memory_limit E p l s = Done (Inl EINVAL, s) \<and>
    fst (matus_update_memory_limit E p l s) = Inr () \<and>
    limits_of (snd (matus_update_memory_limit E p l s)) p = Some l"
proof -
  have "apsnd limits_of (matus_update_memory_limit E p l s) = (Inr (), (limits_of s)(p \<mapsto> l))"
    using assms by (simp add: update_abs spec_update_def)
  moreover have "matus_add_memory_limit E p l s = Done (Inl EINVAL, s)"
    using assms by (auto simp: matus_add_memory_limit_def usage_of_def split: option.splits)
  ultimately show ?thesis by (auto simp: prod_eq_iff)
qed

theorem update_accepts_what_add_refuses_witness:
  "matus_add_memory_limit demo_env 7 (- 1) demo_state = Done (Inl EINVAL, demo_state) \<and>
   limits_of (snd (matus_update_memory_limit demo_env 7 (- 1) demo_state)) 7 = Some (- 1)"
proof -
  have "usage_of demo_env 7 demo_state = Some (Some 8192)"
      "limits_of demo_state 7 = Some 12288" "capable_sys_admin demo_env demo_state"
    by (simp_all add: usage_of_def limits_of_def demo_simps)
  from update_accepts_what_add_refuses [OF _ _ this(3,1,2), of "- 1"] show ?thesis by simp
qed

end
