(* ===== verification/Usac_Syscalls.thy ===== *)
theory Usac_Syscalls
  imports Kernel_Types
begin

text \<open>
  The system calls of \<open>kernel/usac\<close> outside the memory-limit project:
  \<open>project1/syscall2.c\<close> (counters of selected system calls, fed by the system-call entry
  code), \<open>project1/syscall1.c\<close> (memory snapshot), \<open>project1/syscall3.c\<close> (I/O statistics of
  a process), \<open>examples/syscall1.c\<close> (real time) and \<open>project2/syscall_tamalloc.c\<close> (a lazily
  populated zeroed mapping).  Kernel services they read (clock, statistics, allocator,
  copies to user memory) are arguments.
\<close>

section \<open>Counting system calls\<close>

record timespec64 =
  tv_sec :: u64
  tv_nsec :: u64

record syscall_usage =
  count :: u64
  time_last_used :: timespec64

record track_state = kstate +
  syscall_counters :: "syscall_usage list option" \<comment> \<open>NULL until allocated\<close>

abbreviation SYS_CALL_ARRAY_SIZE :: nat where "SYS_CALL_ARRAY_SIZE \<equiv> 4"

definition syscall_whitelist :: "u32 list" where
  "syscall_whitelist = [0, 1, 2, 56]"

definition zero_usage :: syscall_usage where
  "zero_usage = \<lparr>count = 0, time_last_used = \<lparr>tv_sec = 0, tv_nsec = 0\<rparr>\<rparr>"

text \<open>\<open>kzalloc\<close> gives a zeroed array of four counters, or NULL.\<close>

definition init_syscall_counters ::
  "bool \<Rightarrow> 'a track_state_scheme \<Rightarrow> (errno + unit) \<times> 'a track_state_scheme" where
  "init_syscall_counters kzalloc_ok s =
     (if kzalloc_ok
      then (Inr (), s\<lparr>syscall_counters := Some (replicate SYS_CALL_ARRAY_SIZE zero_usage)\<rparr>)
      else (Inl ENOMEM, s\<lparr>syscall_counters := None\<rparr>))"

text \<open>The search loop from index \<open>i\<close>; \<open>None\<close> is the result \<open>-1\<close>.\<close>

function tracked_index_from :: "nat \<Rightarrow> u32 \<Rightarrow> nat option" where
  "tracked_index_from i syscall_id =
     (if i < SYS_CALL_ARRAY_SIZE then
        (if syscall_whitelist ! i = syscall_id then Some i
         else tracked_index_from (Suc i) syscall_id)
      else None)"
  by pat_completeness auto
termination
  by (relation "measure (\<lambda>(i, _). SYS_CALL_ARRAY_SIZE - i)") auto

declare tracked_index_from.simps [simp del]

definition syscall_tracked_index :: "u32 \<Rightarrow> nat option" where
  "syscall_tracked_index syscall_id = tracked_index_from 0 syscall_id"

text \<open>\<open>now\<close> is the wall-clock time of the call.\<close>

definition track_syscall ::
  "timespec64 \<Rightarrow> u32 \<Rightarrow> 'a track_state_scheme \<Rightarrow> 'a track_state_scheme" where
  "track_syscall now syscall_id s =
     (case syscall_counters s of
        None \<Rightarrow> s
      | Some cs \<Rightarrow>
          (case syscall_tracked_index syscall_id of
             None \<Rightarrow> s
           | Some i \<Rightarrow>
               let cs1 = cs[i := (cs ! i)\<lparr>count := count (cs ! i) + 1\<rparr>];
                   cs2 = cs1[i := (cs1 ! i)\<lparr>time_last_used := now\<rparr>]
               in s\<lparr>syscall_counters := Some cs2\<rparr>))"

text \<open>
  The reading call: the counters are allocated by the first call, then copied out.
  \<open>copy_left\<close> is the number of bytes that could not be copied; the second component is what
  reached user memory.
\<close>

definition matus_track_syscall_usage ::
  "bool \<Rightarrow> (uptr \<Rightarrow> syscall_usage list \<Rightarrow> u64) \<Rightarrow> uptr \<Rightarrow> 'a track_state_scheme \<Rightarrow>
   (errno + unit) \<times> syscall_usage list option \<times> 'a track_state_scheme" where
  "matus_track_syscall_usage kzalloc_ok copy_left statistics s =
     (let (r, s1) =
        (case syscall_counters s of
           None \<Rightarrow> init_syscall_counters kzalloc_ok s
         | Some _ \<Rightarrow> (Inr (), s))
      in case r of
           Inl _ \<Rightarrow> (Inl ENOMEM, None, s1)
         | Inr _ \<Rightarrow>
             (case syscall_counters s1 of
                None \<Rightarrow> (Inl ENOMEM, None, s1) \<comment> \<open>not reached: the array exists here\<close>
              | Some cs \<Rightarrow>
                  if copy_left statistics cs \<noteq> 0 then (Inl EFAULT, None, s1)
                  else (Inr (), Some cs, s1)))"

section \<open>Memory snapshot\<close>

record memory_snapshot =
  total_pages :: u64
  free_pages :: u64
  active_pages :: u64
  cache_pages :: u64
  swap_pages :: u64

record meminfo_env =
  totalram :: u64 \<comment> \<open>of \<open>si_meminfo\<close>\<close>
  freeram :: u64
  node_active_anon :: u64 \<comment> \<open>\<open>global_node_page_state(NR_ACTIVE_ANON)\<close>, and so on\<close>
  node_active_file :: u64
  node_file_pages :: u64
  node_swapcache :: u64

definition matus_capture_memory_snapshot ::
  "meminfo_env \<Rightarrow> (uptr \<Rightarrow> memory_snapshot \<Rightarrow> u64) \<Rightarrow> uptr \<Rightarrow>
   (errno + unit) \<times> memory_snapshot option" where
  "matus_capture_memory_snapshot I copy_left user_snapshot =
     (if user_snapshot = 0 then (Inl EINVAL, None)
      else
        let kernel_snapshot =
          \<lparr>total_pages = totalram I, free_pages = freeram I,
           active_pages = node_active_anon I + node_active_file I,
           cache_pages = node_file_pages I, swap_pages = node_swapcache I\<rparr>
        in if copy_left user_snapshot kernel_snapshot \<noteq> 0 then (Inl EFAULT, None)
           else (Inr (), Some kernel_snapshot))"

section \<open>I/O statistics of a process\<close>

record io_stats =
  bytes_read :: u64
  bytes_written :: u64
  bytes_read_disk :: u64
  bytes_written_disk :: u64
  io_wait_time :: u64

record io_task =
  rchar :: u64
  wchar :: u64
  read_bytes :: u64
  write_bytes :: u64
  delays :: "u64 option" \<comment> \<open>\<open>task->delays->blkio_delay\<close>; NULL when accounting is off\<close>

text \<open>
  \<open>kstats\<close> is a local variable without an initialiser: \<open>stack\<close> is what its bytes held
  before.  \<open>delayacct\<close> is the build option \<open>CONFIG_TASK_DELAY_ACCT\<close>.
\<close>

definition matus_get_io_throttle ::
  "bool \<Rightarrow> (pid_t \<Rightarrow> io_task option) \<Rightarrow> (uptr \<Rightarrow> io_stats \<Rightarrow> u64) \<Rightarrow> io_stats \<Rightarrow> pid_t \<Rightarrow> uptr \<Rightarrow>
   'a kstate_scheme \<Rightarrow> (errno + unit) \<times> io_stats option \<times> 'a kstate_scheme" where
  "matus_get_io_throttle delayacct find_task copy_left stack pid stats s =
     (case find_task pid of
        None \<Rightarrow> (Inl ESRCH, None, s)
      | Some task \<Rightarrow>
          let s1 = emit (Lock Task_lock) s;
              k1 = stack\<lparr>bytes_read := rchar task, bytes_written := wchar task\<rparr>;
              k2 = k1\<lparr>bytes_read_disk := read_bytes task, bytes_written_disk := write_bytes task\<rparr>;
              kstats = (if delayacct then
                          (case delays task of
                             Some d \<Rightarrow> k2\<lparr>io_wait_time := d\<rparr>
                           | None \<Rightarrow> k2)
                        else k2);
              s2 = emit (Unlock Task_lock) s1
          in if copy_left stats kstats \<noteq> 0 then (Inl EFAULT, None, s2)
             else (Inr (), Some kstats, s2))"

section \<open>Real time\<close>

definition matus_get_realtime :: "timespec64 \<Rightarrow> u64" where
  "matus_get_realtime ts = tv_sec ts"

section \<open>Lazily populated memory\<close>

text \<open>
  \<open>vm_mmap\<close> is a kernel service: it takes the file (none here), address, length, protection,
  flags and offset, and returns an address or a negative error number.
\<close>

definition matus_tamalloc ::
  "'a hdr_scheme \<Rightarrow> (u64 \<Rightarrow> u64 \<Rightarrow> u64 \<Rightarrow> u64 \<Rightarrow> u64 \<Rightarrow> u64) \<Rightarrow> u64 \<Rightarrow> u64" where
  "matus_tamalloc H vm_mmap sz =
     (if sz = 0 then err EINVAL
      else
        let aligned_size = PAGE_ALIGN H sz in
        if aligned_size = 0 then err ENOMEM
        else
          let addr = vm_mmap 0 aligned_size (cst H PROT_READ OR cst H PROT_WRITE)
                 (cst H MAP_PRIVATE OR cst H MAP_ANONYMOUS OR cst H MAP_NORESERVE) 0
          in if IS_ERR_VALUE H addr then addr else addr)"

section \<open>What the counters count\<close>

lemma tracked_index_eq:
  "syscall_tracked_index n =
     (if n = 0 then Some 0 else if n = 1 then Some 1 else if n = 2 then Some 2
      else if n = 56 then Some 3 else None)"
  by (auto simp: syscall_tracked_index_def tracked_index_from.simps syscall_whitelist_def
      numeral_3_eq_3 numeral_2_eq_2)

definition counters_ok :: "'a track_state_scheme \<Rightarrow> bool" where
  "counters_ok s \<longleftrightarrow>
     (case syscall_counters s of None \<Rightarrow> True | Some cs \<Rightarrow> length cs = SYS_CALL_ARRAY_SIZE)"

lemma track_syscall_ok: "counters_ok s \<Longrightarrow> counters_ok (track_syscall now n s)"
  by (auto simp: counters_ok_def track_syscall_def Let_def split: option.splits)

text \<open>A run of system calls, each with the time it was counted at.\<close>

fun track_all :: "(timespec64 \<times> u32) list \<Rightarrow> 'a track_state_scheme \<Rightarrow> 'a track_state_scheme" where
  "track_all [] s = s"
| "track_all ((now, n) # es) s = track_all es (track_syscall now n s)"

text \<open>The counter of a system call: 0 where it is not tracked or nothing is allocated.\<close>

definition usage_count :: "'a track_state_scheme \<Rightarrow> u32 \<Rightarrow> u64" where
  "usage_count s n =
     (case (syscall_counters s, syscall_tracked_index n) of
        (Some cs, Some i) \<Rightarrow> count (cs ! i)
      | _ \<Rightarrow> 0)"

lemma tracked_index_bound: "syscall_tracked_index n = Some i \<Longrightarrow> i < SYS_CALL_ARRAY_SIZE"
  by (auto simp: tracked_index_eq split: if_splits)

lemma tracked_index_inj:
  "syscall_tracked_index n = Some i \<Longrightarrow> syscall_tracked_index m = Some j \<Longrightarrow> i = j \<longleftrightarrow> n = m"
  by (auto simp: tracked_index_eq split: if_splits)

lemma track_syscall_some:
  "syscall_counters (track_syscall now n s) = None \<longleftrightarrow> syscall_counters s = None"
  by (auto simp: track_syscall_def Let_def split: option.splits)

lemma usage_count_track:
  assumes "counters_ok s" and "syscall_counters s \<noteq> None"
  shows "usage_count (track_syscall now n s) m =
    usage_count s m + (if m = n \<and> syscall_tracked_index m \<noteq> None then 1 else 0)"
proof -
  obtain cs where cs: "syscall_counters s = Some cs" "length cs = SYS_CALL_ARRAY_SIZE"
    using assms by (auto simp: counters_ok_def)
  show ?thesis
  proof (cases "syscall_tracked_index n")
    case None
    then show ?thesis by (auto simp: usage_count_def track_syscall_def cs)
  next
    case (Some i)
    then have i: "i < length cs" using cs tracked_index_bound by simp
    show ?thesis
    proof (cases "syscall_tracked_index m")
      case None
      then show ?thesis using Some by (simp add: usage_count_def track_syscall_def cs)
    next
      case j: (Some j)
      then show ?thesis using Some i tracked_index_inj [OF Some j]
        by (auto simp: usage_count_def track_syscall_def cs Let_def)
    qed
  qed
qed

text \<open>
  C11: Once the counters are allocated, after any run of system calls each tracked call's
  counter has grown by the number of its occurrences in the run (modulo 64 bits), and
  nothing else is counted; before that, nothing is counted.
\<close>

theorem track_all_counts:
  assumes "counters_ok s"
  shows "usage_count (track_all es s) m =
    usage_count s m +
      (if syscall_counters s = None \<or> syscall_tracked_index m = None then 0
       else of_nat (length (filter (\<lambda>e. snd e = m) es)))"
  using assms
proof (induction es arbitrary: s)
  case (Cons e es)
  obtain now n where e: "e = (now, n)" by (cases e)
  show ?case
  proof (cases "syscall_counters s")
    case None
    then have "track_syscall now n s = s" by (simp add: track_syscall_def)
    with Cons e None show ?thesis by simp
  next
    case (Some cs)
    with Cons.prems e show ?thesis
      using Cons.IH [OF track_syscall_ok [OF Cons.prems], of now n]
      by (auto simp: usage_count_track track_syscall_some)
  qed
qed simp

definition demo_track :: track_state where
  "demo_track = \<lparr>trace = [], syscall_counters = Some (replicate 4 zero_usage)\<rparr>"

definition demo_time :: timespec64 where
  "demo_time = \<lparr>tv_sec = 5, tv_nsec = 0\<rparr>"

theorem track_all_counts_witness:
  "usage_count (track_all [(demo_time, 0), (demo_time, 57), (demo_time, 0), (demo_time, 56)]
     demo_track) 0 = 2"
proof -
  have "counters_ok demo_track" by (simp add: counters_ok_def demo_track_def)
  from track_all_counts [OF this,
      of "[(demo_time, 0), (demo_time, 57), (demo_time, 0), (demo_time, 56)]" 0]
  show ?thesis
    by (simp add: tracked_index_eq usage_count_def demo_track_def zero_usage_def
        del: track_all.simps)
qed

text \<open>
  The first successful reading call allocates four zeroed counters and returns them;
  later ones return the current counters; every failing call returns no counters, and a
  failed allocation leaves the counters unallocated.
\<close>

lemma track_usage_returns_counters:
  "matus_track_syscall_usage kz left u s =
     (case syscall_counters s of
        Some cs \<Rightarrow> if left u cs = 0 then (Inr (), Some cs, s) else (Inl EFAULT, None, s)
      | None \<Rightarrow>
          if \<not> kz then (Inl ENOMEM, None, s\<lparr>syscall_counters := None\<rparr>)
          else let cs = replicate 4 zero_usage; s1 = s\<lparr>syscall_counters := Some cs\<rparr>
               in if left u cs = 0 then (Inr (), Some cs, s1) else (Inl EFAULT, None, s1))"
  by (simp add: matus_track_syscall_usage_def init_syscall_counters_def Let_def
      split: option.splits)

text \<open>
  C12: When delay accounting is off, or the task has no delay record, a successful call hands
  the caller the bytes its kernel stack held before as the I/O wait time: the field is
  copied without having been written.
\<close>

theorem io_wait_time_uninitialised:
  assumes "find_task pid = Some task" and "\<not> delayacct \<or> delays task = None"
    and "\<forall>k. copy_left ptr k = 0"
  shows "\<exists>out s'. matus_get_io_throttle delayacct find_task copy_left stack pid ptr s =
      (Inr (), Some out, s') \<and> io_wait_time out = io_wait_time stack \<and>
      bytes_read out = rchar task \<and> bytes_written out = wchar task"
  using assms by (auto simp: matus_get_io_throttle_def Let_def split: option.splits)

definition demo_io_task :: io_task where
  "demo_io_task = \<lparr>rchar = 1, wchar = 2, read_bytes = 3, write_bytes = 4, delays = None\<rparr>"

theorem io_wait_time_uninitialised_witness:
  "\<exists>out s'. matus_get_io_throttle True (\<lambda>p. Some demo_io_task) (\<lambda>u k. 0)
      \<lparr>bytes_read = 0, bytes_written = 0, bytes_read_disk = 0, bytes_written_disk = 0,
       io_wait_time = 0xdeadbeef\<rparr> 7 4096 \<lparr>trace = []\<rparr> = (Inr (), Some out, s') \<and>
      io_wait_time out = 0xdeadbeef"
  using io_wait_time_uninitialised
    [of "\<lambda>p. Some demo_io_task" 7 demo_io_task True "\<lambda>u k. 0" 4096
      "\<lparr>bytes_read = 0, bytes_written = 0, bytes_read_disk = 0, bytes_written_disk = 0,
       io_wait_time = 0xdeadbeef\<rparr>" "\<lparr>trace = []\<rparr>"]
  by (auto simp: demo_io_task_def)

text \<open>
  \<open>matus_tamalloc\<close> refuses 0 bytes, refuses a size that cannot be rounded up to pages,
  and otherwise makes exactly the mapping call whose length is the least page multiple that
  holds the size.
\<close>

lemma tamalloc_maps_rounded_size:
  assumes "hdr_ok H"
  shows "matus_tamalloc H vm_mmap sz =
     (if sz = 0 then err EINVAL
      else if 2 ^ 64 \<le> unat sz + 4095 then err ENOMEM
      else vm_mmap 0 (of_nat ((unat sz + 4095) div 4096 * 4096))
             (cst H PROT_READ OR cst H PROT_WRITE)
             (cst H MAP_PRIVATE OR cst H MAP_ANONYMOUS OR cst H MAP_NORESERVE) 0)"
proof -
  consider "sz = 0" | "2 ^ 64 \<le> unat sz + 4095" "sz \<noteq> 0" | "unat sz + 4095 < 2 ^ 64" "sz \<noteq> 0"
    by linarith
  then show ?thesis
  proof cases
    case 1 then show ?thesis by (simp add: matus_tamalloc_def)
  next
    case 2 then show ?thesis
      using PAGE_ALIGN_wraps [OF assms 2(1)] by (simp add: matus_tamalloc_def)
  next
    case 3
    have u: "unat (PAGE_ALIGN H sz) = (unat sz + 4095) div 4096 * 4096"
      using assms 3(1) by (rule PAGE_ALIGN_unat)
    have "of_nat (unat (PAGE_ALIGN H sz)) = PAGE_ALIGN H sz" by simp
    with u have w: "PAGE_ALIGN H sz = of_nat ((unat sz + 4095) div 4096 * 4096)" by metis
    have "0 < unat sz" using 3(2) by (simp add: unat_gt_0)
    then have "0 < (unat sz + 4095) div 4096" by (simp add: div_greater_zero_iff)
    with u have "PAGE_ALIGN H sz \<noteq> 0" by (metis mult_is_0 neq0_conv unat_0 zero_neq_numeral)
    with 3 w show ?thesis by (simp add: matus_tamalloc_def not_le)
  qed
qed

lemma tamalloc_maps_rounded_size_witness:
  "matus_tamalloc x86_hdr (\<lambda>a len prot flags off. len) 5000 = 8192"
  by (subst tamalloc_maps_rounded_size [OF x86_hdr_ok]) simp

text \<open>
  C13: Exactly the numbers 0, 1, 2 and 56 are tracked, in this order: \<open>read\<close>, \<open>write\<close>, \<open>open\<close>
  and \<open>clone\<close> in \<open>syscall_64.tbl\<close>.  A call of one of them, once the counters are allocated,
  adds one to its own counter, stamps it with the time, and leaves the others; a call of any
  other number changes nothing.  So \<open>fork\<close>, number 57 in the table, is never counted, although
  the comment on the white list (\<open>syscall2.c:23\<close>) and the fourth name that \<open>test2.c\<close> prints
  say that it is.
\<close>

theorem tracked_syscalls:
  "syscall_tracked_index n =
     (if n = 0 then Some 0 else if n = 1 then Some 1 else if n = 2 then Some 2
      else if n = 56 then Some 3 else None) \<and>
   track_syscall now n s =
     (case (syscall_counters s,
            if n = 0 then Some 0 else if n = 1 then Some 1 else if n = 2 then Some 2
            else if n = 56 then Some 3 else None) of
        (Some cs, Some i) \<Rightarrow>
          s\<lparr>syscall_counters := Some (cs[i := \<lparr>count = count (cs ! i) + 1, time_last_used = now\<rparr>])\<rparr>
      | _ \<Rightarrow> s) \<and>
   track_syscall now 57 s = s"
proof -
  have rec: "c\<lparr>count := k, time_last_used := now\<rparr> = \<lparr>count = k, time_last_used = now\<rparr>"
    for c :: syscall_usage and k by (cases c) simp
  have step: "cs[i := (cs[i := (cs ! i)\<lparr>count := k\<rparr>] ! i)\<lparr>time_last_used := now\<rparr>] =
      cs[i := \<lparr>count = k, time_last_used = now\<rparr>]" for cs :: "syscall_usage list" and i k
    by (cases "i < length cs") (simp_all add: rec list_update_beyond)
  show ?thesis
    by (simp add: tracked_index_eq track_syscall_def step Let_def split: option.splits)
qed

end
