(* ===== verification/Sys_Entry.thy ===== *)
theory Sys_Entry
  imports Usac_Syscalls
begin

text \<open>
  \<open>arch/x86/entry/common.c\<close>: the C part of system-call entry and exit on x86.  The saved
  registers are a record passed through the calls that may write them (tracers, handlers,
  the exit work).  The dispatch tables, each function of the generic entry code and the
  build options are the record \<open>entry_env\<close>.  \<open>do_syscall_64\<close> carries the repository's addition, the
  call of \<open>track_syscall\<close> after the handler.
\<close>

section \<open>Registers and environment\<close>

record pt_regs =
  r_ax :: u64
  r_ip :: u64
  r_cx :: u64
  r_r11 :: u64
  r_flags :: u64
  r_cs :: u64
  r_ss :: u64
  r_orig_ax :: u64
  r_sp :: u64
  r_bp :: u64

record entry_state = track_state +
  ts_compat :: bool \<comment> \<open>\<open>TS_COMPAT\<close> in the thread's status\<close>

record 's entry_env =
  NR_syscalls :: u32
  sys_call_table :: "u32 \<Rightarrow> pt_regs \<Rightarrow> 's \<Rightarrow> u64 \<times> pt_regs \<times> 's"
  CONFIG_X86_X32_ABI :: bool
  X32_SYSCALL_BIT :: u32
  X32_NR_syscalls :: u32
  x32_sys_call_table :: "u32 \<Rightarrow> pt_regs \<Rightarrow> 's \<Rightarrow> u64 \<times> pt_regs \<times> 's"
  CONFIG_IA32_EMULATION :: bool
  IA32_NR_syscalls :: u32
  ia32_sys_call_table :: "u32 \<Rightarrow> pt_regs \<Rightarrow> 's \<Rightarrow> u64 \<times> pt_regs \<times> 's"
  array_index_nospec :: "u32 \<Rightarrow> u32 \<Rightarrow> u32"
  enter_work :: "pt_regs \<Rightarrow> u32 \<Rightarrow> 's \<Rightarrow> u32 \<times> pt_regs \<times> 's"
    \<comment> \<open>\<open>syscall_enter_from_user_mode\<close>: the number, or \<open>-1\<close>\<close>
  enter_from_user_mode :: "pt_regs \<Rightarrow> 's \<Rightarrow> pt_regs \<times> 's"
  syscall_enter_from_user_mode_prepare :: "pt_regs \<Rightarrow> 's \<Rightarrow> pt_regs \<times> 's"
  syscall_enter_from_user_mode_work :: "pt_regs \<Rightarrow> u32 \<Rightarrow> 's \<Rightarrow> u32 \<times> pt_regs \<times> 's"
    \<comment> \<open>tracing, seccomp and audit at entry: the number, or \<open>-1\<close>\<close>
  local_irq_enable :: "'s \<Rightarrow> 's"
  local_irq_disable :: "'s \<Rightarrow> 's"
  exit_work :: "pt_regs \<Rightarrow> 's \<Rightarrow> pt_regs \<times> 's" \<comment> \<open>\<open>syscall_exit_to_user_mode\<close>\<close>
  irq_exit_work :: "pt_regs \<Rightarrow> 's \<Rightarrow> pt_regs \<times> 's" \<comment> \<open>\<open>irqentry_exit_to_user_mode\<close>\<close>
  real_time :: "'s \<Rightarrow> timespec64"
  xenpv :: bool \<comment> \<open>\<open>cpu_feature_enabled(X86_FEATURE_XENPV)\<close>\<close>
  user_cs :: u64
  user32_cs :: u64
  user_ds :: u64
  TASK_SIZE_MAX :: u64
  EFLAGS_TF :: u64
  EFLAGS_IF :: u64
  EFLAGS_RF :: u64
  EFLAGS_VM :: u64
  user_mode :: "pt_regs \<Rightarrow> bool"
  APIC_ISR :: u32
  apic_read :: "u32 \<Rightarrow> u32"
  CONFIG_X86_64 :: bool
  get_user_unchecked :: "'s \<Rightarrow> u64 \<Rightarrow> u64 \<Rightarrow> bool \<times> u64"
    \<comment> \<open>\<open>__get_user\<close> of the stashed EBP from a 32-bit user address into the low half of \<open>bp\<close>:
        failed, and the new \<open>bp\<close>\<close>
  get_user_checked :: "'s \<Rightarrow> u64 \<Rightarrow> u64 \<Rightarrow> bool \<times> u64" \<comment> \<open>the same with \<open>get_user\<close>\<close>
  landing_pad :: u64 \<comment> \<open>the vDSO's int80 landing pad in the current process\<close>

section \<open>64-bit entry\<close>

definition ni_syscall :: u64 where
  "ni_syscall = err ENOSYS"

definition do_syscall_x64 ::
  "'s entry_env \<Rightarrow> pt_regs \<Rightarrow> u32 \<Rightarrow> 's \<Rightarrow> bool \<times> pt_regs \<times> 's" where
  "do_syscall_x64 E regs nr s =
     (let unr = nr in
      if unr < NR_syscalls E then
        let unr = array_index_nospec E unr (NR_syscalls E);
            (ret, regs, s) = sys_call_table E unr regs s
        in (True, regs\<lparr>r_ax := ret\<rparr>, s)
      else (False, regs, s))"

definition do_syscall_x32 ::
  "'s entry_env \<Rightarrow> pt_regs \<Rightarrow> u32 \<Rightarrow> 's \<Rightarrow> bool \<times> pt_regs \<times> 's" where
  "do_syscall_x32 E regs nr s =
     (let xnr = nr - X32_SYSCALL_BIT E in
      if CONFIG_X86_X32_ABI E \<and> xnr < X32_NR_syscalls E then
        let xnr = array_index_nospec E xnr (X32_NR_syscalls E);
            (ret, regs, s) = x32_sys_call_table E xnr regs s
        in (True, regs\<lparr>r_ax := ret\<rparr>, s)
      else (False, regs, s))"

text \<open>The condition of the first \<open>if\<close> of \<open>do_syscall_64\<close>, with its body.\<close>

definition dispatch_64 :: "'s entry_env \<Rightarrow> pt_regs \<Rightarrow> u32 \<Rightarrow> 's \<Rightarrow> pt_regs \<times> 's" where
  "dispatch_64 E regs nr s =
     (let (done64, regs, s) = do_syscall_x64 E regs nr s in
      if done64 then (regs, s)
      else
        let (done32, regs, s) = do_syscall_x32 E regs nr s in
        if done32 then (regs, s)
        else if nr \<noteq> - 1 then (regs\<lparr>r_ax := ni_syscall\<rparr>, s)
        else (regs, s))"

text \<open>The tests after the exit work: may the CPU return with SYSRET?\<close>

definition sysret_ok :: "'s entry_env \<Rightarrow> pt_regs \<Rightarrow> bool" where
  "sysret_ok E regs =
     (if xenpv E then False
      else if r_cx regs \<noteq> r_ip regs \<or> r_r11 regs \<noteq> r_flags regs then False
      else if r_cs regs \<noteq> user_cs E \<or> r_ss regs \<noteq> user_ds E then False
      else if TASK_SIZE_MAX E \<le> r_ip regs then False
      else if r_flags regs AND (EFLAGS_RF E OR EFLAGS_TF E) \<noteq> 0 then False
      else True)"

definition do_syscall_64 ::
  "('a track_state_scheme) entry_env \<Rightarrow> pt_regs \<Rightarrow> u32 \<Rightarrow> 'a track_state_scheme \<Rightarrow>
   bool \<times> pt_regs \<times> 'a track_state_scheme" where
  "do_syscall_64 E regs nr s =
     (let (nr, regs, s) = enter_work E regs nr s;
          (regs, s) = dispatch_64 E regs nr s;
          s = (if 0 \<le> sint nr then track_syscall (real_time E s) nr s else s);
          (regs, s) = exit_work E regs s
      in (sysret_ok E regs, regs, s))"

section \<open>32-bit entry\<close>

definition syscall_32_enter ::
  "('a entry_state_scheme) entry_env \<Rightarrow> pt_regs \<Rightarrow> 'a entry_state_scheme \<Rightarrow>
   u32 \<times> 'a entry_state_scheme" where
  "syscall_32_enter E regs s =
     (let s = (if CONFIG_IA32_EMULATION E then s\<lparr>ts_compat := True\<rparr> else s)
      in (ucast (r_orig_ax regs), s))"

definition do_syscall_32_irqs_on ::
  "'s entry_env \<Rightarrow> pt_regs \<Rightarrow> u32 \<Rightarrow> 's \<Rightarrow> pt_regs \<times> 's" where
  "do_syscall_32_irqs_on E regs nr s =
     (let unr = nr in
      if unr < IA32_NR_syscalls E then
        let unr = array_index_nospec E unr (IA32_NR_syscalls E);
            (ret, regs, s) = ia32_sys_call_table E unr regs s
        in (regs\<lparr>r_ax := ret\<rparr>, s)
      else if nr \<noteq> - 1 then (regs\<lparr>r_ax := ni_syscall\<rparr>, s)
      else (regs, s))"

definition int80_is_external :: "'s entry_env \<Rightarrow> bool" where
  "int80_is_external E =
     (let offs = (0x80 div 32) * 0x10; bit = push_bit (0x80 mod 32) 1 in
      if xenpv E then False
      else apic_read E (APIC_ISR E + offs) AND bit \<noteq> 0)"

text \<open>
  \<open>INT 0x80\<close> on a 64-bit kernel, compiled with \<open>CONFIG_IA32_EMULATION\<close>; \<open>Oops\<close> is the call of
  \<open>panic\<close>, and what ran before it is not observed.  The stack randomisation and the marks of
  instrumentation have no effect on the modelled state and are left out here and below.
\<close>

definition int80_emulation ::
  "('a entry_state_scheme) entry_env \<Rightarrow> pt_regs \<Rightarrow> 'a entry_state_scheme \<Rightarrow>
   (pt_regs \<times> 'a entry_state_scheme) outcome" where
  "int80_emulation E regs s =
     (if \<not> user_mode E regs then Oops
      else
        let (regs, s) = enter_from_user_mode E regs s in
        if int80_is_external E then Oops
        else
          let regs = regs\<lparr>r_orig_ax := r_ax regs AND 0xffffffff\<rparr>;
              regs = regs\<lparr>r_ax := err ENOSYS\<rparr>;
              (nr, s) = syscall_32_enter E regs s;
              s = local_irq_enable E s;
              (nr, regs, s) = syscall_enter_from_user_mode_work E regs nr s;
              (regs, s) = do_syscall_32_irqs_on E regs nr s
          in Done (exit_work E regs s))"

text \<open>
  \<open>INT 0x80\<close> on a 32-bit kernel: the other branch of the \<open>#ifdef\<close>, compiled only without
  \<open>CONFIG_IA32_EMULATION\<close>.
\<close>

definition do_int80_syscall_32 ::
  "('a entry_state_scheme) entry_env \<Rightarrow> pt_regs \<Rightarrow> 'a entry_state_scheme \<Rightarrow>
   pt_regs \<times> 'a entry_state_scheme" where
  "do_int80_syscall_32 E regs s =
     (let (nr, s) = syscall_32_enter E regs s;
          (nr, regs, s) = enter_work E regs nr s;
          (regs, s) = do_syscall_32_irqs_on E regs nr s
      in exit_work E regs s)"

definition do_fast_syscall_32_inner ::
  "('a entry_state_scheme) entry_env \<Rightarrow> pt_regs \<Rightarrow> 'a entry_state_scheme \<Rightarrow>
   bool \<times> pt_regs \<times> 'a entry_state_scheme" where
  "do_fast_syscall_32_inner E regs s =
     (let (nr, s) = syscall_32_enter E regs s;
          (regs, s) = syscall_enter_from_user_mode_prepare E regs s;
          addr = ucast (ucast (r_sp regs) :: u32);
          (res, bp) = (if CONFIG_X86_64 E then get_user_unchecked E s addr (r_bp regs)
                       else get_user_checked E s addr (r_bp regs));
          regs = regs\<lparr>r_bp := bp\<rparr>
      in if res then
           let regs = regs\<lparr>r_ax := err EFAULT\<rparr>;
               s = local_irq_disable E s;
               (regs, s) = irq_exit_work E regs s
           in (False, regs, s)
         else
           let (nr, regs, s) = syscall_enter_from_user_mode_work E regs nr s;
               (regs, s) = do_syscall_32_irqs_on E regs nr s;
               (regs, s) = exit_work E regs s
           in (True, regs, s))"

text \<open>The tests for a return with SYSEXIT or SYSRETL.\<close>

definition sysexit_ok :: "'s entry_env \<Rightarrow> u64 \<Rightarrow> pt_regs \<Rightarrow> bool" where
  "sysexit_ok E pad regs =
     (if xenpv E then False
      else if r_ip regs \<noteq> pad then False
      else if r_cs regs \<noteq> user32_cs E \<or> r_ss regs \<noteq> user_ds E then False
      else if r_flags regs AND (EFLAGS_RF E OR EFLAGS_TF E OR EFLAGS_VM E) \<noteq> 0 then False
      else True)"

definition do_fast_syscall_32 ::
  "('a entry_state_scheme) entry_env \<Rightarrow> pt_regs \<Rightarrow> 'a entry_state_scheme \<Rightarrow>
   bool \<times> pt_regs \<times> 'a entry_state_scheme" where
  "do_fast_syscall_32 E regs s =
     (let pad = landing_pad E;
          regs = regs\<lparr>r_ip := pad\<rparr>;
          (ok, regs, s) = do_fast_syscall_32_inner E regs s
      in if \<not> ok then (False, regs, s) else (sysexit_ok E pad regs, regs, s))"

definition do_SYSENTER_32 ::
  "('a entry_state_scheme) entry_env \<Rightarrow> pt_regs \<Rightarrow> 'a entry_state_scheme \<Rightarrow>
   bool \<times> pt_regs \<times> 'a entry_state_scheme" where
  "do_SYSENTER_32 E regs s =
     (let regs = regs\<lparr>r_sp := r_bp regs\<rparr>;
          regs = regs\<lparr>r_flags := r_flags regs OR EFLAGS_IF E\<rparr>
      in do_fast_syscall_32 E regs s)"

section \<open>What the entry code guarantees\<close>

lemma and_or_zero: "(w :: 'a::len word) AND (a OR b) = 0 \<Longrightarrow> w AND a = 0 \<and> w AND b = 0"
  by (metis bit.conj_disj_distrib or_eq_0_iff)

text \<open>An environment for concrete runs: one handler that returns its number.\<close>

definition demo_entry :: "('a entry_state_scheme) entry_env" where
  "demo_entry = \<lparr>NR_syscalls = 600, sys_call_table = (\<lambda>n r s. (ucast n, r, s)),
     CONFIG_X86_X32_ABI = False, X32_SYSCALL_BIT = 0x40000000, X32_NR_syscalls = 548,
     x32_sys_call_table = (\<lambda>n r s. (ucast n, r, s)),
     CONFIG_IA32_EMULATION = True, IA32_NR_syscalls = 450,
     ia32_sys_call_table = (\<lambda>n r s. (ucast n, r, s)),
     array_index_nospec = (\<lambda>i n. if i < n then i else 0),
     enter_work = (\<lambda>r n s. (n, r, s)), enter_from_user_mode = Pair,
     syscall_enter_from_user_mode_prepare = Pair,
     syscall_enter_from_user_mode_work = (\<lambda>r n s. (n, r, s)),
     local_irq_enable = (\<lambda>s. s), local_irq_disable = (\<lambda>s. s), exit_work = (\<lambda>r s. (r, s)),
     irq_exit_work = (\<lambda>r s. (r, s)), real_time = (\<lambda>s. \<lparr>tv_sec = 0, tv_nsec = 0\<rparr>),
     xenpv = False, user_cs = 0x33, user32_cs = 0x23, user_ds = 0x2b,
     TASK_SIZE_MAX = 0x7ffffffff000, EFLAGS_TF = 0x100, EFLAGS_IF = 0x200,
     EFLAGS_RF = 0x10000, EFLAGS_VM = 0x20000, user_mode = (\<lambda>r. True), APIC_ISR = 0x100,
     apic_read = (\<lambda>r. 0), CONFIG_X86_64 = True,
     get_user_unchecked = (\<lambda>s a b. (a = 0, b)), get_user_checked = (\<lambda>s a b. (a = 0, b)),
     landing_pad = 0xf7fc8549\<rparr>"

definition demo_regs :: pt_regs where
  "demo_regs = \<lparr>r_ax = 0, r_ip = 0x401000, r_cx = 0x401000, r_r11 = 0x246, r_flags = 0x246,
     r_cs = 0x33, r_ss = 0x2b, r_orig_ax = 0, r_sp = 0, r_bp = 0\<rparr>"

definition demo_entry_state :: entry_state where
  "demo_entry_state =
     \<lparr>trace = [], syscall_counters = Some (replicate 4 zero_usage), ts_compat = False\<rparr>"

lemmas demo_entry_simps = demo_entry_def demo_regs_def demo_entry_state_def

text \<open>
  C14: When \<open>do_syscall_64\<close> asks for a SYSRET, the registers that the exit work left are safe
  for it: the return address is below \<open>TASK_SIZE_MAX\<close> and equal to RCX, R11 equals the flags,
  the segments are the user ones, neither the resume nor the trap flag is set, and the CPU
  is no XEN PV guest.
\<close>

theorem sysret_only_when_safe:
  assumes "do_syscall_64 E regs nr s = (True, regs', s')"
  shows "\<not> xenpv E \<and> r_ip regs' < TASK_SIZE_MAX E \<and> r_cx regs' = r_ip regs' \<and>
    r_r11 regs' = r_flags regs' \<and> r_cs regs' = user_cs E \<and> r_ss regs' = user_ds E \<and>
    r_flags regs' AND EFLAGS_RF E = 0 \<and> r_flags regs' AND EFLAGS_TF E = 0"
proof -
  have ok: "sysret_ok E regs'"
    using assms by (auto simp: do_syscall_64_def Let_def split: prod.splits)
  then have "r_flags regs' AND (EFLAGS_RF E OR EFLAGS_TF E) = 0"
    by (auto simp: sysret_ok_def split: if_splits)
  from and_or_zero [OF this] ok show ?thesis
    by (auto simp: sysret_ok_def not_le split: if_splits)
qed

theorem sysret_only_when_safe_witness:
  "\<exists>r s. do_syscall_64 demo_entry demo_regs 39 demo_entry_state = (True, r, s) \<and>
     r_ip r < (0x7ffffffff000 :: u64)"
proof -
  obtain r s where "do_syscall_64 demo_entry demo_regs 39 demo_entry_state = (True, r, s)"
    by (simp add: do_syscall_64_def dispatch_64_def do_syscall_x64_def sysret_ok_def
        demo_entry_simps Let_def)
  from sysret_only_when_safe [OF this] this show ?thesis by (auto simp: demo_entry_def)
qed

text \<open>
  C15: No system-call number, whatever a tracer makes of it, reaches a table entry outside
  the tables: two kernels whose tables agree below their bounds behave the same.
\<close>

theorem dispatch_in_bounds:
  assumes "\<And>i n. i < n \<Longrightarrow> array_index_nospec E i n < n"
    and "\<And>i. i < NR_syscalls E \<Longrightarrow> tab i = sys_call_table E i"
    and "\<And>i. i < X32_NR_syscalls E \<Longrightarrow> tab32 i = x32_sys_call_table E i"
  shows "do_syscall_64 (E\<lparr>sys_call_table := tab, x32_sys_call_table := tab32\<rparr>) regs nr s =
    do_syscall_64 E regs nr s"
proof -
  let ?E = "E\<lparr>sys_call_table := tab, x32_sys_call_table := tab32\<rparr>"
  have x64: "do_syscall_x64 ?E r n t = do_syscall_x64 E r n t" for r n t
    using assms(1,2) by (simp add: do_syscall_x64_def Let_def)
  have x32: "do_syscall_x32 ?E r n t = do_syscall_x32 E r n t" for r n t
    using assms(1,3) by (simp add: do_syscall_x32_def Let_def)
  have "dispatch_64 ?E r n t = dispatch_64 E r n t" for r n t
    by (simp add: dispatch_64_def x64 x32 split: prod.splits)
  moreover have "sysret_ok ?E r = sysret_ok E r" for r
    by (simp add: sysret_ok_def)
  ultimately show ?thesis
    by (simp add: do_syscall_64_def Let_def split: prod.splits)
qed

theorem dispatch_in_bounds_witness:
  "do_syscall_64 (demo_entry\<lparr>sys_call_table := (\<lambda>n r s. if n < 600 then (ucast n, r, s) else (7, r, s)),
      x32_sys_call_table := (\<lambda>n r s. (ucast n, r, s))\<rparr>) demo_regs (- 5) demo_entry_state =
    do_syscall_64 demo_entry demo_regs (- 5) demo_entry_state"
  by (rule dispatch_in_bounds) (auto simp: demo_entry_def)

text \<open>
  C16: The handler's result is followed by exactly one count: after \<open>do_syscall_64\<close> the
  counter of the dispatched number, if it is non-negative and tracked, is one more than
  the handler left it, and every other counter is what the handler left.
\<close>

theorem syscall_counted_once:
  assumes "enter_work E regs nr s = (nr1, regs1, s1)"
    and "dispatch_64 E regs1 nr1 s1 = (regs2, s2)"
    and "\<And>r t. syscall_counters (snd (exit_work E r t)) = syscall_counters t"
    and "counters_ok s2" and "syscall_counters s2 \<noteq> None"
  shows "usage_count (snd (snd (do_syscall_64 E regs nr s))) m =
    usage_count s2 m + (if m = nr1 \<and> syscall_tracked_index m \<noteq> None then 1 else 0)"
proof -
  have cong: "usage_count t m = usage_count t' m" if "syscall_counters t = syscall_counters t'"
    for t t' :: "'a track_state_scheme"
    using that by (simp add: usage_count_def)
  let ?s3 = "if 0 \<le> sint nr1 then track_syscall (real_time E s2) nr1 s2 else s2"
  have "usage_count (snd (snd (do_syscall_64 E regs nr s))) m = usage_count ?s3 m"
    using assms(1,2) assms(3) [of regs2 ?s3]
    by (intro cong) (auto simp: do_syscall_64_def Let_def split: prod.splits)
  also have "\<dots> = usage_count s2 m +
      (if m = nr1 \<and> syscall_tracked_index m \<noteq> None then 1 else 0)"
  proof (cases "0 \<le> sint nr1")
    case True
    then show ?thesis using assms(4,5) by (simp add: usage_count_track)
  next
    case False
    then have "nr1 \<notin> {0, 1, 2, 56}" by auto
    with False show ?thesis by (auto simp: tracked_index_eq)
  qed
  finally show ?thesis .
qed

theorem syscall_counted_once_witness:
  "usage_count (snd (snd (do_syscall_64 demo_entry demo_regs 56 demo_entry_state))) 56 = 1"
proof -
  have "dispatch_64 demo_entry demo_regs 56 demo_entry_state =
      (demo_regs\<lparr>r_ax := 56\<rparr>, demo_entry_state)"
    by (simp add: dispatch_64_def do_syscall_x64_def demo_entry_simps Let_def)
  moreover have "enter_work demo_entry demo_regs 56 demo_entry_state =
      (56, demo_regs, demo_entry_state)" by (simp add: demo_entry_def)
  moreover have "syscall_counters (snd (exit_work demo_entry r t)) = syscall_counters t"
    for r and t :: entry_state by (simp add: demo_entry_def)
  moreover have "counters_ok demo_entry_state" "syscall_counters demo_entry_state \<noteq> None"
    by (simp_all add: counters_ok_def demo_entry_state_def)
  ultimately show ?thesis
    by (subst syscall_counted_once)
      (auto simp: tracked_index_eq usage_count_def demo_entry_state_def zero_usage_def)
qed

lemma mask_32_ucast: "(w :: u64) AND 0xffffffff = ucast (ucast w :: u32)"
proof -
  have m: "(0xffffffff :: u64) = mask 32" by (simp add: mask_eq_exp_minus_1)
  show ?thesis unfolding m by (rule bit_word_eqI) (auto simp: bit_simps)
qed

text \<open>
  C17: The emulated \<open>INT 0x80\<close> panics exactly when it did not come from user mode or is an
  external interrupt.  Otherwise the tracers see the convention of a 32-bit call whatever the
  process left in the upper half of RAX: their entry work runs only with TS_COMPAT set, with
  \<open>-ENOSYS\<close> in \<open>ax\<close>, and with the number they are given, zero-extended, in \<open>orig_ax\<close>.  (What
  the entry work would do on any other call makes no difference.)
\<close>

theorem int80_entry_convention:
  assumes "CONFIG_IA32_EMULATION E"
    and "\<And>t. ts_compat (local_irq_enable E t) = ts_compat t"
    and "\<And>r n t. \<lbrakk>ts_compat t; r_ax r = err ENOSYS; r_orig_ax r = ucast n\<rbrakk> \<Longrightarrow>
      work r n t = syscall_enter_from_user_mode_work E r n t"
  shows "(int80_emulation E regs s = Oops \<longleftrightarrow> \<not> user_mode E regs \<or> int80_is_external E) \<and>
    int80_emulation (E\<lparr>syscall_enter_from_user_mode_work := work\<rparr>) regs s =
      int80_emulation E regs s"
proof -
  let ?E = "E\<lparr>syscall_enter_from_user_mode_work := work\<rparr>"
  have "int80_is_external ?E = int80_is_external E" by (simp add: int80_is_external_def)
  moreover have "do_syscall_32_irqs_on ?E r n t = do_syscall_32_irqs_on E r n t" for r n t
    by (simp add: do_syscall_32_irqs_on_def)
  moreover have "work (r\<lparr>r_orig_ax := ucast n, r_ax := err ENOSYS\<rparr>) n
        (local_irq_enable E (t\<lparr>ts_compat := True\<rparr>)) =
      syscall_enter_from_user_mode_work E (r\<lparr>r_orig_ax := ucast n, r_ax := err ENOSYS\<rparr>) n
        (local_irq_enable E (t\<lparr>ts_compat := True\<rparr>))" for r n t
    using assms(2,3) by simp
  moreover have "ucast (ucast (ucast w :: u32) :: u64) = (ucast w :: u32)" for w :: u64
    by (rule bit_word_eqI) (simp add: bit_simps)
  ultimately have "int80_emulation ?E regs s = int80_emulation E regs s"
    using assms(1)
    by (simp add: int80_emulation_def syscall_32_enter_def mask_32_ucast Let_def
        del: unsigned_ucast_eq split: prod.split)
  then show ?thesis by (auto simp: int80_emulation_def Let_def split: prod.splits)
qed

theorem int80_entry_convention_witness:
  "int80_emulation (demo_entry\<lparr>syscall_enter_from_user_mode_work :=
       (\<lambda>r n t. if r_orig_ax r = ucast n then (n, r, t) else (0, r, t))\<rparr>)
     (demo_regs\<lparr>r_ax := 0x500000004\<rparr>) demo_entry_state =
   int80_emulation demo_entry (demo_regs\<lparr>r_ax := 0x500000004\<rparr>) demo_entry_state"
  by (rule int80_entry_convention [THEN conjunct2]) (simp_all add: demo_entry_def)

text \<open>
  C40: The table of the 32-bit calls is entered below its bound only, from each of the entries:
  two kernels whose tables agree there behave the same.
\<close>

theorem ia32_dispatch_in_bounds:
  assumes "\<And>i n. i < n \<Longrightarrow> array_index_nospec E i n < n"
    and "\<And>i. i < IA32_NR_syscalls E \<Longrightarrow> tab i = ia32_sys_call_table E i"
  shows "int80_emulation (E\<lparr>ia32_sys_call_table := tab\<rparr>) regs s = int80_emulation E regs s \<and>
    do_int80_syscall_32 (E\<lparr>ia32_sys_call_table := tab\<rparr>) regs s = do_int80_syscall_32 E regs s \<and>
    do_fast_syscall_32 (E\<lparr>ia32_sys_call_table := tab\<rparr>) regs s = do_fast_syscall_32 E regs s \<and>
    do_SYSENTER_32 (E\<lparr>ia32_sys_call_table := tab\<rparr>) regs s = do_SYSENTER_32 E regs s"
proof -
  let ?E = "E\<lparr>ia32_sys_call_table := tab\<rparr>"
  have irqs: "do_syscall_32_irqs_on ?E r n t = do_syscall_32_irqs_on E r n t" for r n t
    using assms by (simp add: do_syscall_32_irqs_on_def Let_def)
  have enter: "syscall_32_enter ?E r t = syscall_32_enter E r t" for r t
    by (simp add: syscall_32_enter_def)
  have ext: "int80_is_external ?E = int80_is_external E" by (simp add: int80_is_external_def)
  have ok: "sysexit_ok ?E p r = sysexit_ok E p r" for p r by (simp add: sysexit_ok_def)
  have inner: "do_fast_syscall_32_inner ?E r t = do_fast_syscall_32_inner E r t" for r t
    by (simp add: do_fast_syscall_32_inner_def irqs enter Let_def split: prod.splits)
  have fast: "do_fast_syscall_32 ?E r t = do_fast_syscall_32 E r t" for r t
    by (simp add: do_fast_syscall_32_def inner ok Let_def split: prod.split)
  show ?thesis
    by (simp add: int80_emulation_def do_int80_syscall_32_def do_SYSENTER_32_def irqs enter ext fast
        Let_def split: prod.split)
qed

theorem ia32_dispatch_in_bounds_witness:
  "int80_emulation (demo_entry\<lparr>ia32_sys_call_table :=
       (\<lambda>n r s. if n < 450 then (ucast n, r, s) else (7, r, s))\<rparr>)
     (demo_regs\<lparr>r_ax := 450\<rparr>) demo_entry_state =
   int80_emulation demo_entry (demo_regs\<lparr>r_ax := 450\<rparr>) demo_entry_state"
  by (rule ia32_dispatch_in_bounds [THEN conjunct1]) (auto simp: demo_entry_def)

text \<open>
  A fast 32-bit system call whose stashed EBP cannot be read runs no handler and no entry
  work: it returns with IRET and \<open>-EFAULT\<close> in \<open>ax\<close>, with interrupts disabled before the exit
  work.
\<close>

lemma fast_syscall_fault:
  assumes "syscall_enter_from_user_mode_prepare E (regs\<lparr>r_ip := landing_pad E\<rparr>)
      (snd (syscall_32_enter E (regs\<lparr>r_ip := landing_pad E\<rparr>) s)) = (regs1, s1)"
    and "(if CONFIG_X86_64 E then get_user_unchecked E else get_user_checked E) s1
      (ucast (ucast (r_sp regs1) :: u32)) (r_bp regs1) = (True, bp)"
  shows "do_fast_syscall_32 E regs s =
    (let (regs', s') = irq_exit_work E (regs1\<lparr>r_bp := bp, r_ax := err EFAULT\<rparr>)
       (local_irq_disable E s1)
     in (False, regs', s'))"
  using assms
  by (auto simp: do_fast_syscall_32_def do_fast_syscall_32_inner_def Let_def
      split: prod.splits if_splits)

lemma fast_syscall_fault_witness:
  "\<exists>r s. do_fast_syscall_32 demo_entry demo_regs demo_entry_state = (False, r, s) \<and>
     r_ax r = err EFAULT"
  by (subst fast_syscall_fault [where bp = 0])
    (auto simp: demo_entry_simps syscall_32_enter_def Let_def)

text \<open>
  C39: When \<open>do_SYSENTER_32\<close> asks for SYSEXIT or SYSRETL, the exit work left the process at the
  vDSO's landing pad with 32-bit user segments and none of the trap, resume and
  virtual-8086 flags.
\<close>

theorem sysexit_only_when_safe:
  assumes "do_SYSENTER_32 E regs s = (True, regs', s')"
  shows "\<not> xenpv E \<and> r_ip regs' = landing_pad E \<and> r_cs regs' = user32_cs E \<and>
    r_ss regs' = user_ds E \<and> r_flags regs' AND EFLAGS_RF E = 0 \<and>
    r_flags regs' AND EFLAGS_TF E = 0 \<and> r_flags regs' AND EFLAGS_VM E = 0"
proof -
  have ok: "sysexit_ok E (landing_pad E) regs'"
    using assms
    by (auto simp: do_SYSENTER_32_def do_fast_syscall_32_def Let_def split: prod.splits if_splits)
  then have "r_flags regs' AND ((EFLAGS_RF E OR EFLAGS_TF E) OR EFLAGS_VM E) = 0"
    by (auto simp: sysexit_ok_def or.assoc split: if_splits)
  from and_or_zero [OF this] and_or_zero [of "r_flags regs'" "EFLAGS_RF E" "EFLAGS_TF E"] ok
  show ?thesis by (auto simp: sysexit_ok_def split: if_splits)
qed

theorem sysexit_only_when_safe_witness:
  "\<exists>r s. do_SYSENTER_32 demo_entry (demo_regs\<lparr>r_bp := 4096, r_cs := 0x23\<rparr>) demo_entry_state =
     (True, r, s) \<and> r_ip r = 0xf7fc8549"
proof -
  obtain r s where
    "do_SYSENTER_32 demo_entry (demo_regs\<lparr>r_bp := 4096, r_cs := 0x23\<rparr>) demo_entry_state = (True, r, s)"
    by (simp add: do_SYSENTER_32_def do_fast_syscall_32_def do_fast_syscall_32_inner_def
        syscall_32_enter_def do_syscall_32_irqs_on_def sysexit_ok_def demo_entry_simps Let_def)
  from sysexit_only_when_safe [OF this] this show ?thesis by (auto simp: demo_entry_def)
qed

end
