(* ===== verification/Vma_Types.thy ===== *)
theory Vma_Types
  imports Mem_Limits
begin

text \<open>
  The data of \<open>mm/mmap.c\<close>: mappings (\<open>vm_area_struct\<close>), found through pointers, and the
  index of an address space.  The index is the kernel's maple tree, which is not part of
  the repository: it is a record of operations over an abstract tree, and \<open>maple_ok\<close> states
  its documented behaviour through the single observation \<open>mt_load\<close>, the entry at an
  address.  An iterator is its position, an address inside the entry or gap it stands on.
\<close>

section \<open>Mappings\<close>

type_synonym vptr = nat \<comment> \<open>\<open>struct vm_area_struct *\<close>, not NULL\<close>
type_synonym fptr = nat \<comment> \<open>\<open>struct file *\<close>, not NULL\<close>

text \<open>A driver's table of operations: its identity and which entries are set.\<close>

record vm_operations_struct =
  ops_id :: nat
  op_open :: bool
  op_close :: bool
  op_page_mkwrite :: bool
  op_pfn_mkwrite :: bool
  op_may_split :: bool

record vm_area_struct =
  vm_start :: u64
  vm_end :: u64
  vm_pgoff :: u64
  vm_flags :: u64
  vm_page_prot :: u64
  vm_file :: "fptr option"
  vm_ops :: "vm_operations_struct option"
  anon_vma :: "nat option"
  anon_vma_chain :: "nat list" \<comment> \<open>the anon_vma of each chain element\<close>
  vm_policy :: "nat option" \<comment> \<open>\<open>vma_policy(vma)\<close>\<close>
  vm_userfaultfd_ctx :: nat \<comment> \<open>0 is \<open>NULL_VM_UFFD_CTX\<close>\<close>
  anon_name :: "nat option" \<comment> \<open>\<open>anon_vma_name(vma)\<close>\<close>
  vm_private_data :: u64

section \<open>The index of an address space\<close>

record 't maple =
  mt_load :: "'t \<Rightarrow> u64 \<Rightarrow> vptr option"
    \<comment> \<open>the entry at an address (\<open>mtree_load\<close>, \<open>mas_walk\<close>, \<open>vma_lookup\<close>)\<close>
  mt_find :: "'t \<Rightarrow> u64 \<Rightarrow> u64 \<Rightarrow> vptr option"
    \<comment> \<open>the first entry in a closed range of addresses\<close>
  mas_next :: "'t \<Rightarrow> u64 \<Rightarrow> u64 \<Rightarrow> vptr option \<times> u64"
    \<comment> \<open>the entry after a position, up to a maximum, and the new position\<close>
  mas_prev :: "'t \<Rightarrow> u64 \<Rightarrow> u64 \<Rightarrow> vptr option \<times> u64"
    \<comment> \<open>the entry before a position, down to a minimum, and the new position\<close>
  mt_store :: "'t \<Rightarrow> u64 \<Rightarrow> u64 \<Rightarrow> vptr option \<Rightarrow> 't"
    \<comment> \<open>write an entry, or NULL, over a closed range\<close>
  mas_empty_area :: "'t \<Rightarrow> u64 \<Rightarrow> u64 \<Rightarrow> u64 \<Rightarrow> u64 option"
    \<comment> \<open>the start of the lowest free range of a size in a closed range\<close>
  mas_empty_area_rev :: "'t \<Rightarrow> u64 \<Rightarrow> u64 \<Rightarrow> u64 \<Rightarrow> u64 option"
    \<comment> \<open>the last address of the highest free range of a size in a closed range\<close>

text \<open>An address range \<open>[a, a + n - 1]\<close> that holds no entry and does not wrap.\<close>

definition free_at :: "(u64 \<Rightarrow> vptr option) \<Rightarrow> u64 \<Rightarrow> u64 \<Rightarrow> bool" where
  "free_at ld a n \<longleftrightarrow> a \<le> a + (n - 1) \<and> (\<forall>k. a \<le> k \<and> k \<le> a + (n - 1) \<longrightarrow> ld k = None)"

definition find_law :: "(u64 \<Rightarrow> vptr option) \<Rightarrow> u64 \<Rightarrow> u64 \<Rightarrow> vptr option \<Rightarrow> bool" where
  "find_law ld lo hi r \<longleftrightarrow>
     (case r of
        None \<Rightarrow> (\<forall>k. lo \<le> k \<and> k \<le> hi \<longrightarrow> ld k = None)
      | Some p \<Rightarrow> (\<exists>i. lo \<le> i \<and> i \<le> hi \<and> ld i = Some p \<and> (\<forall>k. lo \<le> k \<and> k < i \<longrightarrow> ld k = None)))"

definition next_law :: "(u64 \<Rightarrow> vptr option) \<Rightarrow> u64 \<Rightarrow> u64 \<Rightarrow> vptr option \<times> u64 \<Rightarrow> bool" where
  "next_law ld i mx r \<longleftrightarrow>
     (case r of
        (None, j) \<Rightarrow> i \<le> j \<and> (\<forall>k. i < k \<and> k \<le> mx \<longrightarrow> ld k = None \<or> ld k = ld i) \<and>
          (\<forall>k. i < k \<and> k \<le> j \<longrightarrow> ld k = None \<or> ld k = ld i)
      | (Some p, j) \<Rightarrow> i < j \<and> j \<le> mx \<and> ld j = Some p \<and> ld i \<noteq> Some p \<and>
          (\<forall>k. i < k \<and> k < j \<longrightarrow> ld k = None \<or> ld k = ld i))"

definition prev_law :: "(u64 \<Rightarrow> vptr option) \<Rightarrow> u64 \<Rightarrow> u64 \<Rightarrow> vptr option \<times> u64 \<Rightarrow> bool" where
  "prev_law ld i mn r \<longleftrightarrow>
     (case r of
        (None, j) \<Rightarrow> j \<le> i \<and> (\<forall>k. mn \<le> k \<and> k < i \<longrightarrow> ld k = None \<or> ld k = ld i) \<and>
          (\<forall>k. j \<le> k \<and> k < i \<longrightarrow> ld k = None \<or> ld k = ld i)
      | (Some p, j) \<Rightarrow> mn \<le> j \<and> j < i \<and> ld j = Some p \<and> ld i \<noteq> Some p \<and>
          (\<forall>k. j < k \<and> k < i \<longrightarrow> ld k = None \<or> ld k = ld i))"

definition fits :: "(u64 \<Rightarrow> vptr option) \<Rightarrow> u64 \<Rightarrow> u64 \<Rightarrow> u64 \<Rightarrow> u64 \<Rightarrow> bool" where
  "fits ld lo hi n a \<longleftrightarrow> lo \<le> a \<and> a + (n - 1) \<le> hi \<and> free_at ld a n"

definition gap_law :: "(u64 \<Rightarrow> vptr option) \<Rightarrow> u64 \<Rightarrow> u64 \<Rightarrow> u64 \<Rightarrow> u64 option \<Rightarrow> bool" where
  "gap_law ld lo hi n r \<longleftrightarrow>
     (case r of
        None \<Rightarrow> (\<forall>b. \<not> fits ld lo hi n b)
      | Some a \<Rightarrow> fits ld lo hi n a \<and> (\<forall>b. fits ld lo hi n b \<longrightarrow> a \<le> b))"

definition gap_rev_law :: "(u64 \<Rightarrow> vptr option) \<Rightarrow> u64 \<Rightarrow> u64 \<Rightarrow> u64 \<Rightarrow> u64 option \<Rightarrow> bool" where
  "gap_rev_law ld lo hi n r \<longleftrightarrow>
     (case r of
        None \<Rightarrow> (\<forall>b. \<not> fits ld lo hi n b)
      | Some l \<Rightarrow> fits ld lo hi n (l - (n - 1)) \<and> (\<forall>b. fits ld lo hi n b \<longrightarrow> b + (n - 1) \<le> l))"

definition maple_ok :: "'t maple \<Rightarrow> bool" where
  "maple_ok M \<longleftrightarrow>
     (\<forall>t lo hi. find_law (mt_load M t) lo hi (mt_find M t lo hi)) \<and>
     (\<forall>t i mx. next_law (mt_load M t) i mx (mas_next M t i mx)) \<and>
     (\<forall>t i mn. prev_law (mt_load M t) i mn (mas_prev M t i mn)) \<and>
     (\<forall>t lo hi v i. mt_load M (mt_store M t lo hi v) i =
        (if lo \<le> i \<and> i \<le> hi then v else mt_load M t i)) \<and>
     (\<forall>t lo hi n. n \<noteq> 0 \<longrightarrow> gap_law (mt_load M t) lo hi n (mas_empty_area M t lo hi n)) \<and>
     (\<forall>t lo hi n. n \<noteq> 0 \<longrightarrow> gap_rev_law (mt_load M t) lo hi n (mas_empty_area_rev M t lo hi n))"

lemma maple_okD:
  assumes "maple_ok M"
  shows maple_find: "find_law (mt_load M t) lo hi (mt_find M t lo hi)"
    and maple_next: "next_law (mt_load M t) i mx (mas_next M t i mx)"
    and maple_prev: "prev_law (mt_load M t) i mn (mas_prev M t i mn)"
    and maple_store: "mt_load M (mt_store M t lo hi v) i =
        (if lo \<le> i \<and> i \<le> hi then v else mt_load M t i)"
    and maple_gap: "n \<noteq> 0 \<Longrightarrow> gap_law (mt_load M t) lo hi n (mas_empty_area M t lo hi n)"
    and maple_gap_rev:
      "n \<noteq> 0 \<Longrightarrow> gap_rev_law (mt_load M t) lo hi n (mas_empty_area_rev M t lo hi n)"
  using assms by (auto simp: maple_ok_def)

section \<open>The state\<close>

record 't mm_state = limit_state +
  cur_mm :: "'t mm_struct" \<comment> \<open>\<open>current->mm\<close>\<close>
  vmas :: "vptr \<Rightarrow> vm_area_struct option" \<comment> \<open>the live \<open>vm_area_struct\<close>s\<close>

definition vma_at :: "('t, 'a) mm_state_scheme \<Rightarrow> vptr \<Rightarrow> vm_area_struct" where
  "vma_at s p = (case vmas s p of Some v \<Rightarrow> v | None \<Rightarrow> undefined)"

definition put_vma ::
  "vptr \<Rightarrow> vm_area_struct \<Rightarrow> ('t, 'a) mm_state_scheme \<Rightarrow> ('t, 'a) mm_state_scheme" where
  "put_vma p v s = s\<lparr>vmas := (vmas s)(p \<mapsto> v)\<rparr>"

definition upd_mm ::
  "('t mm_struct \<Rightarrow> 't mm_struct) \<Rightarrow> ('t, 'a) mm_state_scheme \<Rightarrow> ('t, 'a) mm_state_scheme" where
  "upd_mm f s = s\<lparr>cur_mm := f (cur_mm s)\<rparr>"

abbreviation tree :: "('t, 'a) mm_state_scheme \<Rightarrow> 't" where
  "tree s \<equiv> mm_mt (cur_mm s)"

text \<open>The entry of the current address space at an address.\<close>

abbreviation entry_at :: "'t maple \<Rightarrow> ('t, 'a) mm_state_scheme \<Rightarrow> u64 \<Rightarrow> vptr option" where
  "entry_at M s \<equiv> mt_load M (tree s)"

text \<open>
  The invariant that ties the index to the mappings: an indexed mapping is live, not
  empty, and indexed at exactly its own addresses.
\<close>

definition mm_wf :: "'t maple \<Rightarrow> ('t, 'a) mm_state_scheme \<Rightarrow> bool" where
  "mm_wf M s \<longleftrightarrow>
     (\<forall>i p. entry_at M s i = Some p \<longrightarrow>
        (\<exists>v. vmas s p = Some v \<and> vm_start v < vm_end v \<and>
             (\<forall>k. entry_at M s k = Some p \<longleftrightarrow> vm_start v \<le> k \<and> k < vm_end v)))"

text \<open>The indexed mappings, and the invariant that \<open>map_count\<close> counts them.\<close>

definition mapped :: "'t maple \<Rightarrow> ('t, 'a) mm_state_scheme \<Rightarrow> vptr set" where
  "mapped M s = {p. \<exists>i. entry_at M s i = Some p}"

definition count_ok :: "'t maple \<Rightarrow> ('t, 'a) mm_state_scheme \<Rightarrow> bool" where
  "count_ok M s \<longleftrightarrow> map_count (cur_mm s) = int (card (mapped M s))"

lemma finite_mapped: "finite (mapped M s)"
proof -
  have "mapped M s \<subseteq> (\<lambda>i. the (entry_at M s i)) ` (UNIV :: u64 set)"
    by (auto simp: mapped_def) (metis option.sel rangeI)
  then show ?thesis by (rule finite_subset) simp
qed

lemma state_simps [simp]:
  "vmas (emit e s) = vmas s" "cur_mm (emit e s) = cur_mm s"
  "vmas (put_vma p v s) = (vmas s)(p \<mapsto> v)" "cur_mm (put_vma p v s) = cur_mm s"
  "vmas (upd_mm f s) = vmas s" "cur_mm (upd_mm f s) = f (cur_mm s)"
  "trace (put_vma p v s) = trace s" "trace (upd_mm f s) = trace s"
  "memory_list (put_vma p v s) = memory_list s" "memory_list (upd_mm f s) = memory_list s"
  by (simp_all add: emit_def put_vma_def upd_mm_def)

lemma vma_at_simps [simp]:
  "vma_at (emit e s) = vma_at s" "vma_at (upd_mm f s) = vma_at s"
  "vma_at (put_vma p v s) p = v" "q \<noteq> p \<Longrightarrow> vma_at (put_vma p v s) q = vma_at s q"
  by (auto simp: vma_at_def fun_eq_iff)

lemma mm_wfD:
  assumes "mm_wf M s" and "entry_at M s i = Some p"
  shows "vmas s p = Some (vma_at s p)" "vm_start (vma_at s p) < vm_end (vma_at s p)"
    "entry_at M s k = Some p \<longleftrightarrow> vm_start (vma_at s p) \<le> k \<and> k < vm_end (vma_at s p)"
  using assms by (fastforce simp: mm_wf_def vma_at_def)+

end
