(* ===== verification/Maple_Log.thy ===== *)
theory Maple_Log
  imports Vma_Types
begin

text \<open>
  A concrete index for the runs of the witnesses: the list of the writes made to the tree,
  newest first.  \<open>log_maple_ok\<close> shows that it has the behaviour \<open>maple_ok\<close> asks for.  The
  searches look only where the entry can change, at the ends of the written ranges.
\<close>

type_synonym wlog = "(u64 \<times> u64 \<times> vptr option) list"

fun log_load :: "wlog \<Rightarrow> u64 \<Rightarrow> vptr option" where
  "log_load [] i = None"
| "log_load ((lo, hi, v) # l) i = (if lo \<le> i \<and> i \<le> hi then v else log_load l i)"

text \<open>The addresses after which the entry may change.\<close>

fun log_ends :: "wlog \<Rightarrow> u64 list" where
  "log_ends [] = []"
| "log_ends ((lo, hi, v) # l) = (lo - 1) # hi # log_ends l"

definition log_starts :: "wlog \<Rightarrow> u64 list" where
  "log_starts l = map (\<lambda>e. e + 1) (log_ends l)"

fun least_of :: "u64 list \<Rightarrow> u64 option" where
  "least_of [] = None"
| "least_of (x # xs) = (case least_of xs of None \<Rightarrow> Some x | Some y \<Rightarrow> Some (min x y))"

fun greatest_of :: "u64 list \<Rightarrow> u64 option" where
  "greatest_of [] = None"
| "greatest_of (x # xs) = (case greatest_of xs of None \<Rightarrow> Some x | Some y \<Rightarrow> Some (max x y))"

definition log_find :: "wlog \<Rightarrow> u64 \<Rightarrow> u64 \<Rightarrow> vptr option" where
  "log_find l lo hi =
     (case least_of (filter (\<lambda>c. lo \<le> c \<and> c \<le> hi \<and> log_load l c \<noteq> None) (lo # log_starts l)) of
        None \<Rightarrow> None
      | Some c \<Rightarrow> log_load l c)"

definition log_next :: "wlog \<Rightarrow> u64 \<Rightarrow> u64 \<Rightarrow> vptr option \<times> u64" where
  "log_next l i mx =
     (case least_of (filter (\<lambda>c. i < c \<and> c \<le> mx \<and> log_load l c \<noteq> None \<and>
          log_load l c \<noteq> log_load l i) (log_starts l)) of
        None \<Rightarrow> (None, i)
      | Some c \<Rightarrow> (log_load l c, c))"

definition log_prev :: "wlog \<Rightarrow> u64 \<Rightarrow> u64 \<Rightarrow> vptr option \<times> u64" where
  "log_prev l i mn =
     (case greatest_of (filter (\<lambda>c. mn \<le> c \<and> c < i \<and> log_load l c \<noteq> None \<and>
          log_load l c \<noteq> log_load l i) (log_ends l)) of
        None \<Rightarrow> (None, i)
      | Some c \<Rightarrow> (log_load l c, c))"

definition log_fits :: "wlog \<Rightarrow> u64 \<Rightarrow> u64 \<Rightarrow> u64 \<Rightarrow> u64 \<Rightarrow> bool" where
  "log_fits l lo hi n a \<longleftrightarrow>
     lo \<le> a \<and> a + (n - 1) \<le> hi \<and> a \<le> a + (n - 1) \<and> log_find l a (a + (n - 1)) = None"

definition log_gap :: "wlog \<Rightarrow> u64 \<Rightarrow> u64 \<Rightarrow> u64 \<Rightarrow> u64 option" where
  "log_gap l lo hi n = least_of (filter (log_fits l lo hi n) (lo # log_starts l))"

definition log_gap_rev :: "wlog \<Rightarrow> u64 \<Rightarrow> u64 \<Rightarrow> u64 \<Rightarrow> u64 option" where
  "log_gap_rev l lo hi n =
     greatest_of (filter (\<lambda>e. log_fits l lo hi n (e - (n - 1))) (hi # log_ends l))"

definition log_maple :: "wlog maple" where
  "log_maple = \<lparr>mt_load = log_load, mt_find = log_find, mas_next = log_next,
     mas_prev = log_prev, mt_store = (\<lambda>l lo hi v. (lo, hi, v) # l),
     mas_empty_area = log_gap, mas_empty_area_rev = log_gap_rev\<rparr>"

section \<open>The searches are right\<close>

lemma least_of_None: "least_of xs = None \<longleftrightarrow> xs = []"
  by (cases xs) (auto split: option.splits)

lemma least_of_Some: "least_of xs = Some m \<Longrightarrow> m \<in> set xs \<and> (\<forall>x \<in> set xs. m \<le> x)"
proof (induction xs arbitrary: m)
  case (Cons x xs)
  then show ?case
    by (cases "least_of xs") (auto simp: least_of_None min_def split: if_splits)
qed simp

lemma greatest_of_None: "greatest_of xs = None \<longleftrightarrow> xs = []"
  by (cases xs) (auto split: option.splits)

lemma greatest_of_Some: "greatest_of xs = Some m \<Longrightarrow> m \<in> set xs \<and> (\<forall>x \<in> set xs. x \<le> m)"
proof (induction xs arbitrary: m)
  case (Cons x xs)
  then show ?case
    by (cases "greatest_of xs") (auto simp: greatest_of_None max_def split: if_splits)
qed simp

lemma word_between_succ:
  fixes e x :: u64
  assumes "e \<noteq> - 1"
  shows "x \<le> e + 1 \<longleftrightarrow> x \<le> e \<or> x = e + 1" and "e + 1 \<le> x \<longleftrightarrow> e \<le> x \<and> x \<noteq> e"
proof -
  have u: "unat (e + 1) = unat e + 1" using assms by (rule unat_Suc64)
  show "x \<le> e + 1 \<longleftrightarrow> x \<le> e \<or> x = e + 1"
    by (auto simp: word_le_nat_alt u word_unat_eq_iff)
  show "e + 1 \<le> x \<longleftrightarrow> e \<le> x \<and> x \<noteq> e"
    by (auto simp: word_le_nat_alt u word_unat_eq_iff)
qed

lemma log_change:
  "e \<noteq> - 1 \<Longrightarrow> log_load l e \<noteq> log_load l (e + 1) \<Longrightarrow> e \<in> set (log_ends l)"
proof (induction l rule: log_ends.induct)
  case (2 lo hi v l)
  then show ?case
    by (auto simp: word_between_succ split: if_splits)
qed simp

text \<open>Every address lies in a run of equal entries that starts, and ends, at a candidate.\<close>

lemma run_start:
  assumes "lo \<le> k"
  shows "\<exists>c \<in> set (lo # log_starts l). lo \<le> c \<and> c \<le> k \<and>
    (\<forall>x. c \<le> x \<and> x \<le> k \<longrightarrow> log_load l x = log_load l k)"
  using assms
proof (induction "unat k" arbitrary: k)
  case 0
  then have "k = 0" by (simp add: unat_eq_zero)
  with 0 show ?case by auto
next
  case (Suc n)
  show ?case
  proof (cases "k = lo")
    case True
    then show ?thesis by auto
  next
    case False
    define e where "e = k - 1"
    have k: "k = e + 1" and e1: "e \<noteq> - 1"
      using Suc.hyps(2) by (auto simp: e_def eq_diff_eq)
    have loe: "lo \<le> e" using Suc.prems False word_between_succ(1) [OF e1] k by auto
    show ?thesis
    proof (cases "log_load l e = log_load l k")
      case True
      have "unat e + 1 = unat k" using k unat_Suc64 [OF e1] by simp
      then have "unat e = n" using Suc.hyps(2) by simp
      then obtain c where c: "c \<in> set (lo # log_starts l)" "lo \<le> c" "c \<le> e"
          "\<forall>x. c \<le> x \<and> x \<le> e \<longrightarrow> log_load l x = log_load l e"
        using Suc.hyps(1) [of e] loe by auto
      have "c \<le> k" using c(3) k word_between_succ(1) [OF e1] by auto
      moreover have "\<forall>x. c \<le> x \<and> x \<le> k \<longrightarrow> log_load l x = log_load l k"
        using c(4) True k word_between_succ(1) [OF e1] by auto
      ultimately show ?thesis using c by blast
    next
      case False
      with k have "e \<in> set (log_ends l)" using log_change [OF e1, of l] by auto
      then have "k \<in> set (log_starts l)" by (auto simp: log_starts_def k)
      with Suc.prems show ?thesis by (intro bexI [of _ k]) auto
    qed
  qed
qed

lemma run_end:
  assumes "k \<le> hi"
  shows "\<exists>c \<in> set (hi # log_ends l). k \<le> c \<and> c \<le> hi \<and>
    (\<forall>x. k \<le> x \<and> x \<le> c \<longrightarrow> log_load l x = log_load l k)"
  using assms
proof (induction "unat hi - unat k" arbitrary: k)
  case 0
  then have "k = hi" by (simp add: word_le_nat_alt word_unat_eq_iff)
  then show ?case by auto
next
  case (Suc n)
  have e1: "k \<noteq> - 1"
  proof
    assume "k = - 1"
    then have "unat hi \<le> unat k" by (simp add: word_le_nat_alt [symmetric])
    with Suc.hyps(2) show False by simp
  qed
  have u: "unat (k + 1) = unat k + 1" using e1 by (rule unat_Suc64)
  have k1: "k + 1 \<le> hi" using Suc.hyps(2) by (simp add: word_le_nat_alt u)
  show ?case
  proof (cases "log_load l (k + 1) = log_load l k")
    case True
    have "n = unat hi - unat (k + 1)" using Suc.hyps(2) u by simp
    then obtain c where c: "c \<in> set (hi # log_ends l)" "k + 1 \<le> c" "c \<le> hi"
        "\<forall>x. k + 1 \<le> x \<and> x \<le> c \<longrightarrow> log_load l x = log_load l (k + 1)"
      using Suc.hyps(1) [of "k + 1"] k1 by auto
    have "k \<le> c" using c(2) word_between_succ(2) [OF e1] by auto
    moreover have "\<forall>x. k \<le> x \<and> x \<le> c \<longrightarrow> log_load l x = log_load l k"
      using c(4) True word_between_succ(2) [OF e1] by metis
    ultimately show ?thesis using c by blast
  next
    case False
    then have "k \<in> set (log_ends l)" using log_change [OF e1, of l] by auto
    with Suc.prems show ?thesis by (intro bexI [of _ k]) auto
  qed
qed

lemma run_start_load:
  assumes "lo \<le> k"
  obtains c where "c \<in> set (lo # log_starts l)" "lo \<le> c" "c \<le> k" "log_load l c = log_load l k"
  using run_start [OF assms, of l] by blast

lemma run_end_load:
  assumes "k \<le> hi"
  obtains c where "c \<in> set (hi # log_ends l)" "k \<le> c" "c \<le> hi" "log_load l c = log_load l k"
  using run_end [OF assms, of l] by blast

text \<open>Where every address with a property has a candidate with it on its side, the search is right.\<close>

lemma least_filter:
  assumes "\<And>k. P k \<Longrightarrow> \<exists>c \<in> set xs. P c \<and> c \<le> k"
  shows "case least_of (filter P xs) of None \<Rightarrow> \<forall>k. \<not> P k | Some m \<Rightarrow> P m \<and> (\<forall>k. P k \<longrightarrow> m \<le> k)"
proof (cases "least_of (filter P xs)")
  case None
  then have "filter P xs = []" by (simp only: least_of_None)
  then have "\<not> P x" if "x \<in> set xs" for x using that by (simp add: filter_empty_conv)
  with None assms show ?thesis by fastforce
next
  case (Some m)
  from least_of_Some [OF this] have m: "P m" "\<And>x. x \<in> set xs \<Longrightarrow> P x \<Longrightarrow> m \<le> x"
    by auto
  have "m \<le> k" if "P k" for k
    using assms [OF that] m(2) by (meson order_trans)
  with Some m show ?thesis by simp
qed

lemma greatest_filter:
  assumes "\<And>k. P k \<Longrightarrow> \<exists>c \<in> set xs. P c \<and> k \<le> c"
  shows "case greatest_of (filter P xs) of None \<Rightarrow> \<forall>k. \<not> P k | Some m \<Rightarrow> P m \<and> (\<forall>k. P k \<longrightarrow> k \<le> m)"
proof (cases "greatest_of (filter P xs)")
  case None
  then have "filter P xs = []" by (simp only: greatest_of_None)
  then have "\<not> P x" if "x \<in> set xs" for x using that by (simp add: filter_empty_conv)
  with None assms show ?thesis by fastforce
next
  case (Some m)
  from greatest_of_Some [OF this] have m: "P m" "\<And>x. x \<in> set xs \<Longrightarrow> P x \<Longrightarrow> x \<le> m"
    by auto
  have "k \<le> m" if "P k" for k
    using assms [OF that] m(2) by (meson order_trans)
  with Some m show ?thesis by simp
qed

lemma log_find_law: "find_law (log_load l) lo hi (log_find l lo hi)"
proof -
  let ?P = "\<lambda>c. lo \<le> c \<and> c \<le> hi \<and> log_load l c \<noteq> None"
  have cand: "\<exists>c \<in> set (lo # log_starts l). ?P c \<and> c \<le> k" if k: "?P k" for k
  proof -
    obtain c where c: "c \<in> set (lo # log_starts l)" "lo \<le> c" "c \<le> k" "log_load l c = log_load l k"
      using run_start_load [of lo k l] k by blast
    moreover have "c \<le> hi" using c(3) k by (meson order_trans)
    ultimately show ?thesis using k by (intro bexI [of _ c]) auto
  qed
  have r: "case least_of (filter ?P (lo # log_starts l)) of None \<Rightarrow> \<forall>k. \<not> ?P k
      | Some m \<Rightarrow> ?P m \<and> (\<forall>k. ?P k \<longrightarrow> m \<le> k)"
    by (rule least_filter) (rule cand)
  show ?thesis
  proof (cases "least_of (filter ?P (lo # log_starts l))")
    case None
    have "\<forall>k. \<not> ?P k" using r unfolding None option.case .
    moreover have "log_find l lo hi = None" by (simp only: log_find_def None option.case)
    ultimately show ?thesis by (auto simp: find_law_def)
  next
    case (Some m)
    have m: "?P m" "\<And>k. ?P k \<Longrightarrow> m \<le> k"
      using r unfolding Some option.case by blast+
    have f: "log_find l lo hi = log_load l m" by (simp only: log_find_def Some option.case)
    obtain p where p: "log_load l m = Some p" using m(1) by auto
    have "log_load l k = None" if "lo \<le> k" "k < m" for k
      using m(1) m(2) [of k] that by (meson leD less_imp_le order_trans)
    with m(1) f p show ?thesis by (auto simp: find_law_def)
  qed
qed

lemma log_next_law: "next_law (log_load l) i mx (log_next l i mx)"
proof -
  let ?P = "\<lambda>c. i < c \<and> c \<le> mx \<and> log_load l c \<noteq> None \<and> log_load l c \<noteq> log_load l i"
  have "\<exists>c \<in> set (log_starts l). ?P c \<and> c \<le> k" if k: "?P k" for k
  proof -
    obtain c where c: "c \<in> set (i # log_starts l)" "i \<le> c" "c \<le> k" "log_load l c = log_load l k"
      using run_start_load [of i k l] k less_imp_le by blast
    then have "c \<noteq> i" using k by auto
    moreover have "c \<le> mx" using c(3) k by (meson order_trans)
    ultimately show ?thesis using c k by (intro bexI [of _ c]) auto
  qed
  note r = least_filter [of ?P, OF this]
  show ?thesis
  proof (cases "least_of (filter ?P (log_starts l))")
    case None
    with r show ?thesis by (auto simp: log_next_def next_law_def)
  next
    case (Some m)
    with r have m: "?P m" "\<And>k. ?P k \<Longrightarrow> m \<le> k" by auto
    have "log_load l k = None \<or> log_load l k = log_load l i" if "i < k" "k < m" for k
      using m(1) m(2) [of k] that by (meson leD less_imp_le order_trans)
    with m(1) Some show ?thesis by (auto simp: log_next_def next_law_def)
  qed
qed

lemma log_prev_law: "prev_law (log_load l) i mn (log_prev l i mn)"
proof -
  let ?P = "\<lambda>c. mn \<le> c \<and> c < i \<and> log_load l c \<noteq> None \<and> log_load l c \<noteq> log_load l i"
  have "\<exists>c \<in> set (log_ends l). ?P c \<and> k \<le> c" if k: "?P k" for k
  proof -
    obtain c where c: "c \<in> set (i # log_ends l)" "k \<le> c" "c \<le> i" "log_load l c = log_load l k"
      using run_end_load [of k i l] k less_imp_le by blast
    then have "c \<noteq> i" using k by auto
    moreover have "mn \<le> c" using c(2) k by (meson order_trans)
    ultimately show ?thesis using c k by (intro bexI [of _ c]) auto
  qed
  note r = greatest_filter [of ?P, OF this]
  show ?thesis
  proof (cases "greatest_of (filter ?P (log_ends l))")
    case None
    with r show ?thesis by (auto simp: log_prev_def prev_law_def)
  next
    case (Some m)
    with r have m: "?P m" "\<And>k. ?P k \<Longrightarrow> k \<le> m" by auto
    have "log_load l k = None \<or> log_load l k = log_load l i" if "m < k" "k < i" for k
      using m(1) m(2) [of k] that by (meson leD less_imp_le order_trans)
    with m(1) Some show ?thesis by (auto simp: log_prev_def prev_law_def)
  qed
qed

lemma log_fits_eq: "log_fits l lo hi n = fits (log_load l) lo hi n"
proof -
  have "log_find l a b = None \<longleftrightarrow> (\<forall>k. a \<le> k \<and> k \<le> b \<longrightarrow> log_load l k = None)" for a b
    using log_find_law [of l a b] by (auto simp: find_law_def split: option.splits)
  then show ?thesis by (auto simp: fun_eq_iff log_fits_def fits_def free_at_def)
qed

text \<open>A free range can be moved down, or up, to a candidate inside the bounds.\<close>

lemma fits_down:
  assumes b: "fits (log_load l) lo hi n b"
  shows "\<exists>c \<in> set (lo # log_starts l). fits (log_load l) lo hi n c \<and> c \<le> b"
proof -
  obtain c where c: "c \<in> set (lo # log_starts l)" "lo \<le> c" "c \<le> b"
      "\<forall>x. c \<le> x \<and> x \<le> b \<longrightarrow> log_load l x = log_load l b"
    using run_start [of lo b l] b unfolding fits_def by blast
  have nb: "unat (b + (n - 1)) = unat b + unat (n - 1)"
    using b by (intro unat_add_le) (simp add: fits_def free_at_def)
  have nc: "unat (c + (n - 1)) = unat c + unat (n - 1)"
    using c(3) nb unat_bound64 [of "b + (n - 1)"]
    by (intro unat_add_nowrap) (simp add: word_le_nat_alt)
  have cb: "c + (n - 1) \<le> b + (n - 1)" using c(3) by (simp add: word_le_nat_alt nb nc)
  have "log_load l x = None" if "c \<le> x" "x \<le> c + (n - 1)" for x
  proof (cases "x \<le> b")
    case True
    with c(4) that b show ?thesis by (auto simp: fits_def free_at_def)
  next
    case False
    then have "b \<le> x" by simp
    moreover have "x \<le> b + (n - 1)" using that(2) cb by (rule order_trans)
    ultimately show ?thesis using b by (simp add: fits_def free_at_def)
  qed
  moreover have "c + (n - 1) \<le> hi" using cb b by (auto simp: fits_def)
  moreover have "c \<le> c + (n - 1)" by (simp add: word_le_nat_alt nc)
  ultimately show ?thesis using c by (intro bexI [of _ c]) (auto simp: fits_def free_at_def)
qed

lemma fits_up:
  assumes b: "fits (log_load l) lo hi n b"
  shows "\<exists>e \<in> set (hi # log_ends l). fits (log_load l) lo hi n (e - (n - 1)) \<and> b + (n - 1) \<le> e"
proof -
  let ?b = "b + (n - 1)"
  obtain e where e: "e \<in> set (hi # log_ends l)" "?b \<le> e" "e \<le> hi"
      "\<forall>x. ?b \<le> x \<and> x \<le> e \<longrightarrow> log_load l x = log_load l ?b"
    using run_end [of ?b hi l] b unfolding fits_def by blast
  have nb: "unat ?b = unat b + unat (n - 1)"
    using b by (intro unat_add_le) (simp add: fits_def free_at_def)
  have "n - 1 \<le> e" using e(2) nb by (simp add: word_le_nat_alt)
  then have ne: "unat (e - (n - 1)) = unat e - unat (n - 1)" by (rule unat_sub)
  have be: "b \<le> e - (n - 1)" using e(2) by (simp add: word_le_nat_alt nb ne)
  have "log_load l x = None" if "e - (n - 1) \<le> x" "x \<le> e" for x
  proof (cases "x \<le> ?b")
    case True
    have "b \<le> x" using be that(1) by (rule order_trans)
    with True b show ?thesis by (simp add: fits_def free_at_def)
  next
    case False
    then have "?b \<le> x" by simp
    with e(4) that(2) b show ?thesis by (simp add: fits_def free_at_def)
  qed
  moreover have "lo \<le> e - (n - 1)" using b be by (auto simp: fits_def)
  moreover have "e - (n - 1) \<le> e" by (simp add: word_le_nat_alt ne)
  ultimately show ?thesis using e by (intro bexI [of _ e]) (auto simp: fits_def free_at_def)
qed

lemma log_gap_law: "gap_law (log_load l) lo hi n (log_gap l lo hi n)"
  using least_filter [of "fits (log_load l) lo hi n" "lo # log_starts l", OF fits_down]
  by (simp add: log_gap_def gap_law_def log_fits_eq split: option.splits)

lemma log_gap_rev_law: "gap_rev_law (log_load l) lo hi n (log_gap_rev l lo hi n)"
proof -
  let ?P = "\<lambda>e. fits (log_load l) lo hi n (e - (n - 1))"
  have cand: "\<exists>c \<in> set (hi # log_ends l). ?P c \<and> k \<le> c" if "?P k" for k
    using fits_up [OF that] by simp
  have r: "case greatest_of (filter ?P (hi # log_ends l)) of None \<Rightarrow> \<forall>k. \<not> ?P k
      | Some m \<Rightarrow> ?P m \<and> (\<forall>k. ?P k \<longrightarrow> k \<le> m)"
    by (rule greatest_filter) (rule cand)
  have up: "fits (log_load l) lo hi n b \<Longrightarrow> ?P (b + (n - 1))" for b by simp
  have g: "log_gap_rev l lo hi n = greatest_of (filter ?P (hi # log_ends l))"
    by (simp only: log_gap_rev_def log_fits_eq)
  show ?thesis
  proof (cases "greatest_of (filter ?P (hi # log_ends l))")
    case None
    have "\<forall>k. \<not> ?P k" using r unfolding None option.case .
    with None up g show ?thesis by (simp only: gap_rev_law_def option.case) blast
  next
    case (Some m)
    have m: "?P m" "\<forall>k. ?P k \<longrightarrow> k \<le> m"
      using r unfolding Some option.case by blast+
    with Some up g show ?thesis by (simp only: gap_rev_law_def option.case) blast
  qed
qed

lemma log_maple_ok [simp]: "maple_ok log_maple"
  by (simp add: maple_ok_def log_maple_def log_find_law log_next_law log_prev_law
      log_gap_law log_gap_rev_law)

end
