(* ===== verification/Mm_Env.thy ===== *)
theory Mm_Env
  imports Vma_Types Maple_Log
begin

text \<open>
  What \<open>mm/mmap.c\<close> takes from the rest of the kernel, as one record that every definition
  of the memory manager has as an argument: header constants and inline functions, limits
  and tunables, and the calls that may fail, which read the state at the call.
  \<open>env_ok\<close> collects the documented behaviour the code relies on.  \<open>x86_env\<close> is one
  environment, used by the witnesses.
\<close>

record 't mm_env = hdr +
  index :: "'t maple"
  mmap_min_addr :: u64
  stack_guard_gap :: u64
  sysctl_max_map_count :: int
  sysctl_overcommit_memory :: u64
  rlimit_as :: u64
  rlimit_data :: u64
  rlimit_data_max :: u64
  rlimit_stack :: u64
  rlimit_memlock :: u64
  ignore_rlimit_data :: bool
  cap_ipc_lock :: bool \<comment> \<open>\<open>capable(CAP_IPC_LOCK)\<close>\<close>
  vm_start_gap :: "vm_area_struct \<Rightarrow> u64"
  vm_end_gap :: "vm_area_struct \<Rightarrow> u64"
  vma_pages :: "vm_area_struct \<Rightarrow> u64"
  is_data_mapping :: "u64 \<Rightarrow> bool"
  is_exec_mapping :: "u64 \<Rightarrow> bool"
  is_stack_mapping :: "u64 \<Rightarrow> bool"
  vma_is_accessible :: "vm_area_struct \<Rightarrow> bool"
  vma_is_shared_maywrite :: "vm_area_struct \<Rightarrow> bool"
  vma_is_anonymous :: "vm_area_struct \<Rightarrow> bool"
  is_vm_hugetlb_page :: "vm_area_struct \<Rightarrow> bool"
  vma_soft_dirty_enabled :: "vm_area_struct \<Rightarrow> bool"
  userfaultfd_wp :: "vm_area_struct \<Rightarrow> bool"
  mpol_equal :: "nat option \<Rightarrow> nat option \<Rightarrow> bool"
  uffd_ctx_mergeable :: "vm_area_struct \<Rightarrow> nat \<Rightarrow> bool" \<comment> \<open>\<open>is_mergeable_vm_userfaultfd_ctx\<close>\<close>
  anon_vma_name_eq :: "nat option \<Rightarrow> nat option \<Rightarrow> bool"
  vm_get_page_prot :: "u64 \<Rightarrow> u64"
  pgprot_modify :: "u64 \<Rightarrow> u64 \<Rightarrow> u64"
  f_mapping :: "fptr \<Rightarrow> nat" \<comment> \<open>\<open>file->f_mapping\<close>; 0 is NULL\<close>
  f_mode :: "fptr \<Rightarrow> u64"
  is_file_hugepages :: "fptr \<Rightarrow> bool"
  mapping_can_writeback :: "nat \<Rightarrow> bool"
  is_hugepage_only_range :: "u64 \<Rightarrow> u64 \<Rightarrow> bool"
  vma_alloc :: "'t mm_state \<Rightarrow> vptr option" \<comment> \<open>\<open>vm_area_alloc\<close>, \<open>vm_area_dup\<close>\<close>
  prealloc_fails :: "'t mm_state \<Rightarrow> bool" \<comment> \<open>\<open>vma_iter_prealloc\<close>, \<open>mas_preallocate\<close>\<close>
  not_enough_memory :: "'t mm_state \<Rightarrow> u64 \<Rightarrow> bool" \<comment> \<open>\<open>security_vm_enough_memory_mm\<close>\<close>
  may_split :: "'t mm_state \<Rightarrow> vptr \<Rightarrow> u64 \<Rightarrow> errno option" \<comment> \<open>\<open>vm_ops->may_split\<close>\<close>
  vma_dup_policy :: "'t mm_state \<Rightarrow> vptr \<Rightarrow> errno + nat option" \<comment> \<open>the copied policy\<close>
  anon_vma_clone :: "'t mm_state \<Rightarrow> vptr \<Rightarrow> vptr \<Rightarrow> errno option \<times> nat option \<times> nat list"
    \<comment> \<open>the result and the destination's new \<open>anon_vma\<close> and chain\<close>
  unlink_anon_vmas :: "'t mm_state \<Rightarrow> vptr \<Rightarrow> nat option \<times> nat list"
    \<comment> \<open>the mapping's \<open>anon_vma\<close> and chain afterwards\<close>
  anon_vma_prepare :: "'t mm_state \<Rightarrow> vptr \<Rightarrow> (nat \<times> nat list) option"
    \<comment> \<open>the mapping's \<open>anon_vma\<close> and chain afterwards, or out of memory\<close>
  write_lock_killed :: "'t mm_state \<Rightarrow> bool" \<comment> \<open>\<open>mmap_write_lock_killable\<close>\<close>
  signal_pending :: "'t mm_state \<Rightarrow> bool"

text \<open>Named by the structure field: \<open>flag E v VM_LOCKED\<close> is \<open>vma->vm_flags & VM_LOCKED\<close>.\<close>

abbreviation flag :: "('a hdr_scheme) \<Rightarrow> vm_area_struct \<Rightarrow> kconst \<Rightarrow> bool" where
  "flag E v c \<equiv> vm_flags v AND cst E c \<noteq> 0"

section \<open>What the code relies on\<close>

text \<open>
  The guard gaps lie outside the mapping and exist only for the flags that ask for them.
  A mapping on no stack keeps its start.
\<close>

definition gaps_ok :: "('t, 'a) mm_env_scheme \<Rightarrow> bool" where
  "gaps_ok E \<longleftrightarrow>
     (\<forall>v. vm_start_gap E v \<le> vm_start v) \<and> (\<forall>v. vm_end v \<le> vm_end_gap E v) \<and>
     (\<forall>v. \<not> flag E v VM_STARTGAP_FLAGS \<longrightarrow> vm_start_gap E v = vm_start v)"

definition env_ok :: "('t, 'a) mm_env_scheme \<Rightarrow> bool" where
  "env_ok E \<longleftrightarrow>
     hdr_ok E \<and> maple_ok (index E) \<and> gaps_ok E \<and>
     (\<forall>v. vma_pages E v = drop_bit 12 (vm_end v - vm_start v)) \<and>
     (\<forall>s p. vma_alloc E s = Some p \<longrightarrow> vmas s p = None)"

lemma env_okD:
  assumes "env_ok E"
  shows env_hdr: "hdr_ok E" and env_maple: "maple_ok (index E)" and env_gaps: "gaps_ok E"
    and env_pages: "vma_pages E v = drop_bit 12 (vm_end v - vm_start v)"
    and env_fresh: "vma_alloc E s = Some p \<Longrightarrow> vmas s p = None"
  using assms by (auto simp: env_ok_def)

lemma gaps_okD:
  assumes "gaps_ok E"
  shows "vm_start_gap E v \<le> vm_start v" "vm_end v \<le> vm_end_gap E v"
    "\<not> flag E v VM_STARTGAP_FLAGS \<Longrightarrow> vm_start_gap E v = vm_start v"
  using assms by (auto simp: gaps_ok_def)

section \<open>An x86-64 environment\<close>

text \<open>
  A stack (\<open>VM_GROWSDOWN\<close>, 0x100) has 256 guard pages below; nothing grows upwards.  The
  live mappings of the runs have the numbers 1 to 9, so the allocator hands out the first
  free number from 10 up.
\<close>

definition first_free :: "wlog mm_state \<Rightarrow> vptr option" where
  "first_free s = find (\<lambda>p. vmas s p = None) [10..<20]"

definition x86_start_gap :: "vm_area_struct \<Rightarrow> u64" where
  "x86_start_gap v =
     (if vm_flags v AND 0x100 \<noteq> 0
      then (if 0x100000 \<le> vm_start v then vm_start v - 0x100000 else 0)
      else vm_start v)"

definition x86_env :: "wlog mm_env" where
  "x86_env = hdr.extend x86_hdr
     (mm_env.fields log_maple 0x10000 0x100000 65530 0
        (- 1) (- 1) (- 1) 0x800000 0x800000 False False
        x86_start_gap vm_end (\<lambda>v. drop_bit 12 (vm_end v - vm_start v))
        (\<lambda>f. f AND 0x10a = 0x2) (\<lambda>f. f AND 0x6 = 0x4) (\<lambda>f. f AND 0x100 = 0x100)
        (\<lambda>v. vm_flags v AND 0x7 \<noteq> 0) (\<lambda>v. vm_flags v AND 0x28 = 0x28)
        (\<lambda>v. vm_ops v = None) (\<lambda>v. False) (\<lambda>v. False) (\<lambda>v. False) (=)
        (\<lambda>v c. vm_userfaultfd_ctx v = c) (=)
        (\<lambda>f. f AND 0xf) (\<lambda>old new. new)
        (\<lambda>f. f) (\<lambda>f. 0x3) (\<lambda>f. False) (\<lambda>m. True) (\<lambda>a n. False)
        first_free (\<lambda>s. False) (\<lambda>s n. False) (\<lambda>s p a. None)
        (\<lambda>s p. Inr (vm_policy (vma_at s p)))
        (\<lambda>s dst src. (None, anon_vma (vma_at s dst), anon_vma_chain (vma_at s src)))
        (\<lambda>s p. (None, []))
        (\<lambda>s p. Some (1, [1]))
        (\<lambda>s. False) (\<lambda>s. False))"

lemma first_free_fresh: "first_free s = Some p \<Longrightarrow> vmas s p = None"
  unfolding first_free_def find_Some_iff by blast

lemma x86_start_gap_le: "x86_start_gap v \<le> vm_start v"
  by (auto simp: x86_start_gap_def word_le_nat_alt unat_sub)

lemma x86_env_sel [simp]:
  "index x86_env = log_maple" "mmap_min_addr x86_env = 0x10000"
  "stack_guard_gap x86_env = 0x100000" "sysctl_max_map_count x86_env = 65530"
  "cst x86_env c = x86_cst c" "PAGE_SHIFT x86_env = 12" "MAP_HUGE_SHIFT x86_env = 26"
  "PAGE_ALIGN x86_env x = (x + 4095) AND - 4096" "offset_in_page x86_env x = x AND 4095"
  "IS_ERR_VALUE x86_env x = (- 4095 \<le> x)"
  "rlimit_as x86_env = - 1" "rlimit_data x86_env = - 1" "rlimit_data_max x86_env = - 1"
  "rlimit_stack x86_env = 0x800000" "rlimit_memlock x86_env = 0x800000"
  "ignore_rlimit_data x86_env = False" "cap_ipc_lock x86_env = False"
  "vm_start_gap x86_env = x86_start_gap" "vm_end_gap x86_env = vm_end"
  "vma_pages x86_env = (\<lambda>v. drop_bit 12 (vm_end v - vm_start v))"
  "vma_alloc x86_env = first_free" "prealloc_fails x86_env = (\<lambda>s. False)"
  "not_enough_memory x86_env = (\<lambda>s n. False)" "mpol_equal x86_env = (=)"
  "uffd_ctx_mergeable x86_env = (\<lambda>v c. vm_userfaultfd_ctx v = c)"
  "anon_vma_name_eq x86_env = (=)" "vm_get_page_prot x86_env = (\<lambda>f. f AND 0xf)"
  "pgprot_modify x86_env = (\<lambda>old new. new)" "is_vm_hugetlb_page x86_env = (\<lambda>v. False)"
  "vma_soft_dirty_enabled x86_env = (\<lambda>v. False)" "userfaultfd_wp x86_env = (\<lambda>v. False)"
  "may_split x86_env = (\<lambda>s p a. None)"
  "vma_dup_policy x86_env = (\<lambda>s p. Inr (vm_policy (vma_at s p)))"
  "anon_vma_clone x86_env =
     (\<lambda>s dst src. (None, anon_vma (vma_at s dst), anon_vma_chain (vma_at s src)))"
  "anon_vma_prepare x86_env = (\<lambda>s p. Some (1, [1]))"
  "unlink_anon_vmas x86_env = (\<lambda>s p. (None, []))"
  "write_lock_killed x86_env = (\<lambda>s. False)" "signal_pending x86_env = (\<lambda>s. False)"
  "vma_is_shared_maywrite x86_env = (\<lambda>v. vm_flags v AND 0x28 = 0x28)"
  "vma_is_anonymous x86_env = (\<lambda>v. vm_ops v = None)"
  "vma_is_accessible x86_env = (\<lambda>v. vm_flags v AND 0x7 \<noteq> 0)"
  "is_hugepage_only_range x86_env = (\<lambda>a n. False)"
  "f_mapping x86_env = (\<lambda>f. f)" "mapping_can_writeback x86_env = (\<lambda>m. True)"
  by (simp_all add: x86_env_def hdr.extend_def mm_env.fields_def x86_hdr_def)

lemma x86_env_ok [simp]: "env_ok x86_env"
proof -
  have "hdr_ok x86_env" by (simp add: hdr_ok_def)
  moreover have "gaps_ok x86_env"
    by (auto simp: gaps_ok_def x86_start_gap_le) (simp add: x86_start_gap_def)
  ultimately show ?thesis by (simp add: env_ok_def first_free_fresh)
qed

end
