(* ===== verification/Vma_Lookup.thy ===== *)
theory Vma_Lookup
  imports Mm_Env
begin

text \<open>
  Finding mappings: \<open>find_vma_intersection\<close>, \<open>find_vma\<close>, \<open>find_vma_prev\<close>, the loop
  \<open>for_each_vma_range\<close> as the list of the mappings it visits, and
  \<open>count_vma_pages_range\<close>.  The lemmas read the results off the invariant \<open>mm_wf\<close>.
\<close>

section \<open>The operations\<close>

definition find_vma_intersection ::
  "('t, 'a) mm_env_scheme \<Rightarrow> 't mm_state \<Rightarrow> u64 \<Rightarrow> u64 \<Rightarrow> vptr option" where
  "find_vma_intersection E s start_addr end_addr =
     mt_find (index E) (tree s) start_addr (end_addr - 1)"

definition find_vma :: "('t, 'a) mm_env_scheme \<Rightarrow> 't mm_state \<Rightarrow> u64 \<Rightarrow> vptr option" where
  "find_vma E s addr = mt_find (index E) (tree s) addr ULONG_MAX"

text \<open>The mapping at or after \<open>addr\<close>, and the one before it (\<open>*pprev\<close>).\<close>

definition find_vma_prev ::
  "('t, 'a) mm_env_scheme \<Rightarrow> 't mm_state \<Rightarrow> u64 \<Rightarrow> vptr option \<times> vptr option" where
  "find_vma_prev E s addr =
     (let vma = mt_load (index E) (tree s) addr;
          (prev, i) = mas_prev (index E) (tree s) addr 0
      in (case vma of
            None \<Rightarrow> fst (mas_next (index E) (tree s) i ULONG_MAX)
          | Some p \<Rightarrow> Some p,
          prev))"

section \<open>Loops over the mappings\<close>

text \<open>
  \<open>mas_for_each\<close> and \<open>for_each_vma_range\<close>: the first entry from a position on, then the
  next one after it, up to the address \<open>mx\<close>.  The test \<open>i < j\<close> is the progress of the
  iterator, which \<open>maple_ok\<close> promises; it is what makes the loop end.
\<close>

function walk_after :: "'t maple \<Rightarrow> 't \<Rightarrow> u64 \<Rightarrow> u64 \<Rightarrow> vptr list" where
  "walk_after M t i mx =
     (case mas_next M t i mx of
        (None, j) \<Rightarrow> []
      | (Some p, j) \<Rightarrow> if i < j then p # walk_after M t j mx else [])"
  by pat_completeness auto
termination
  by (relation "measure (\<lambda>(M, t, i, mx). 2 ^ 64 - unat i)")
    (auto simp: word_less_nat_alt intro!: diff_less_mono2)

declare walk_after.simps [simp del]

definition walk :: "'t maple \<Rightarrow> 't \<Rightarrow> u64 \<Rightarrow> u64 \<Rightarrow> vptr list" where
  "walk M t lo mx =
     (if mx < lo then []
      else case mt_load M t lo of
        Some p \<Rightarrow> p # walk_after M t lo mx
      | None \<Rightarrow> walk_after M t lo mx)"

definition count_vma_pages_range ::
  "('t, 'a) mm_env_scheme \<Rightarrow> 't mm_state \<Rightarrow> u64 \<Rightarrow> u64 \<Rightarrow> u64" where
  "count_vma_pages_range E s addr end_addr =
     foldl (\<lambda>nr_pages p.
         let start = max addr (vm_start (vma_at s p));
             stop = min end_addr (vm_end (vma_at s p))
         in nr_pages + drop_bit (PAGE_SHIFT E) (stop - start))
       0 (walk (index E) (tree s) addr (end_addr - 1))"

section \<open>What the searches find\<close>

text \<open>Two addresses of one mapping have only that mapping between them.\<close>

definition convex :: "(u64 \<Rightarrow> vptr option) \<Rightarrow> bool" where
  "convex ld \<longleftrightarrow> (\<forall>i x k p. i \<le> x \<and> x \<le> k \<and> ld i = Some p \<and> ld k = Some p \<longrightarrow> ld x = Some p)"

lemma mm_wf_convex: "mm_wf M s \<Longrightarrow> convex (entry_at M s)"
  unfolding convex_def by (meson mm_wfD(3) order_trans order_le_less_trans)

text \<open>\<open>p\<close> lies wholly below \<open>q\<close>.\<close>

definition precedes :: "(u64 \<Rightarrow> vptr option) \<Rightarrow> vptr \<Rightarrow> vptr \<Rightarrow> bool" where
  "precedes ld p q \<longleftrightarrow> (\<forall>i k. ld i = Some p \<and> ld k = Some q \<longrightarrow> i < k)"

lemma precedesI:
  assumes "convex ld" "ld i = Some p" "ld k = Some q" "i < k" "p \<noteq> q"
  shows "precedes ld p q"
proof -
  have "a < b" if "ld a = Some p" "ld b = Some q" for a b
  proof (rule ccontr)
    assume "\<not> a < b"
    then have "b \<le> a" by simp
    show False
    proof (cases "k \<le> a")
      case True
      then have "ld k = Some p" using assms(1,2,4) that(1) unfolding convex_def
        by (meson less_imp_le)
      with assms(3,5) show False by simp
    next
      case False
      then have "a \<le> k" by simp
      then have "ld a = Some q" using assms(1,3) that(2) \<open>b \<le> a\<close> unfolding convex_def by blast
      with that(1) assms(5) show False by simp
    qed
  qed
  then show ?thesis by (auto simp: precedes_def)
qed

lemma next_Some:
  assumes "maple_ok M" and "mas_next M t i mx = (Some p, j)"
  shows "i < j" "j \<le> mx" "mt_load M t j = Some p" "mt_load M t i \<noteq> Some p"
    "i < k \<Longrightarrow> k < j \<Longrightarrow> mt_load M t k = None \<or> mt_load M t k = mt_load M t i"
  using maple_next [OF assms(1), of t i mx] assms(2) by (auto simp: next_law_def)

lemma next_None:
  assumes "maple_ok M" and "mas_next M t i mx = (None, j)"
  shows "i \<le> j" "i < k \<Longrightarrow> k \<le> mx \<or> k \<le> j \<Longrightarrow> mt_load M t k = None \<or> mt_load M t k = mt_load M t i"
  using maple_next [OF assms(1), of t i mx] assms(2) by (auto simp: next_law_def)

lemma prev_Some:
  assumes "maple_ok M" and "mas_prev M t i mn = (Some p, j)"
  shows "mn \<le> j" "j < i" "mt_load M t j = Some p" "mt_load M t i \<noteq> Some p"
    "j < k \<Longrightarrow> k < i \<Longrightarrow> mt_load M t k = None \<or> mt_load M t k = mt_load M t i"
  using maple_prev [OF assms(1), of t i mn] assms(2) by (auto simp: prev_law_def)

lemma prev_None:
  assumes "maple_ok M" and "mas_prev M t i mn = (None, j)"
  shows "j \<le> i" "k < i \<Longrightarrow> mn \<le> k \<or> j \<le> k \<Longrightarrow> mt_load M t k = None \<or> mt_load M t k = mt_load M t i"
  using maple_prev [OF assms(1), of t i mn] assms(2) by (auto simp: prev_law_def)

text \<open>The loop visits each mapping of the range once, in the order of the addresses.\<close>

lemma walk_after_spec:
  assumes "maple_ok M" and "convex (mt_load M t)"
  shows "set (walk_after M t i mx) =
      {p. \<exists>k. i < k \<and> k \<le> mx \<and> mt_load M t k = Some p \<and> mt_load M t i \<noteq> Some p} \<and>
    sorted_wrt (\<lambda>p q. precedes (mt_load M t) p q \<and> p \<noteq> q) (walk_after M t i mx)"
  using assms
proof (induction M t i mx rule: walk_after.induct)
  case (1 M t i mx)
  let ?ld = "mt_load M t"
  let ?R = "{p. \<exists>k. i < k \<and> k \<le> mx \<and> ?ld k = Some p \<and> ?ld i \<noteq> Some p}"
  obtain r j where n: "mas_next M t i mx = (r, j)" by fastforce
  show ?case
  proof (cases r)
    case None
    with n have "\<And>k. i < k \<Longrightarrow> k \<le> mx \<Longrightarrow> ?ld k = None \<or> ?ld k = ?ld i"
      using next_None [OF 1(2), of t i mx j] by blast
    with n None show ?thesis by (subst (1 2) walk_after.simps) fastforce
  next
    case (Some p)
    note nx = next_Some [OF 1(2) n [unfolded Some]]
    have w: "walk_after M t i mx = p # walk_after M t j mx"
      using n Some nx(1) by (subst walk_after.simps) simp
    have IH: "set (walk_after M t j mx) = {q. \<exists>k. j < k \<and> k \<le> mx \<and> ?ld k = Some q \<and> ?ld j \<noteq> Some q}"
        "sorted_wrt (\<lambda>p q. precedes ?ld p q \<and> p \<noteq> q) (walk_after M t j mx)"
      using 1(1) [OF n [symmetric] Some nx(1) 1(2,3)] by auto
    have i: "?ld i \<noteq> Some q" if "j < k" "?ld k = Some q" "q \<noteq> p" for k q
      using 1(3) nx(1,3) that unfolding convex_def by (metis less_imp_le option.inject)
    have j: "q = p" if "i < k" "k \<le> j" "?ld k = Some q" "?ld i \<noteq> Some q" for k q
      using nx(3) nx(5) [of k] that order.not_eq_order_implies_strict [of k j] by (cases "k = j") auto
    have "q \<in> ?R \<longleftrightarrow> q = p \<or> q \<in> set (walk_after M t j mx)" for q
    proof
      assume "q \<in> ?R"
      then obtain k where k: "i < k" "k \<le> mx" "?ld k = Some q" "?ld i \<noteq> Some q" by blast
      then show "q = p \<or> q \<in> set (walk_after M t j mx)"
        using j [of k q] nx(3) unfolding IH(1) by (cases "k \<le> j") auto
    next
      assume "q = p \<or> q \<in> set (walk_after M t j mx)"
      then show "q \<in> ?R"
      proof
        assume "q = p"
        with nx(1-4) show ?thesis by blast
      next
        assume "q \<in> set (walk_after M t j mx)"
        then obtain k where k: "j < k" "k \<le> mx" "?ld k = Some q" "q \<noteq> p"
          using nx(3) unfolding IH(1) by auto
        then show ?thesis using i [of k q] nx(1) less_trans [of i j k] by blast
      qed
    qed
    then have "set (walk_after M t i mx) = ?R" unfolding w by auto
    moreover have "precedes ?ld p q \<and> p \<noteq> q" if "q \<in> set (walk_after M t j mx)" for q
      using that nx(3) precedesI [OF 1(3) nx(3)] unfolding IH(1) by auto
    ultimately show ?thesis unfolding w using IH(2) by simp
  qed
qed

lemma walk_spec:
  assumes "maple_ok M" and cv: "convex (mt_load M t)"
  shows walk_set: "set (walk M t lo mx) = {p. \<exists>k. lo \<le> k \<and> k \<le> mx \<and> mt_load M t k = Some p}"
    and walk_sorted:
      "sorted_wrt (\<lambda>p q. precedes (mt_load M t) p q \<and> p \<noteq> q) (walk M t lo mx)"
proof -
  let ?ld = "mt_load M t"
  note a = walk_after_spec [OF assms, of lo mx]
  have le: "k = lo \<or> lo < k" if "lo \<le> k" for k using that by auto
  show "set (walk M t lo mx) = {p. \<exists>k. lo \<le> k \<and> k \<le> mx \<and> ?ld k = Some p}" (is "_ = ?R")
  proof (cases "mx < lo")
    case True
    then have "?R = {}" by (auto dest: order_trans)
    with True show ?thesis by (simp add: walk_def)
  next
    case False
    have split: "p \<in> ?R \<longleftrightarrow> ?ld lo = Some p \<or> (\<exists>k. lo < k \<and> k \<le> mx \<and> ?ld k = Some p \<and> ?ld lo \<noteq> Some p)"
      for p using False le by (auto simp del: not_Some_eq) (metis less_imp_le)
    have "set (walk M t lo mx) = {p. ?ld lo = Some p} \<union> set (walk_after M t lo mx)"
      using False by (auto simp: walk_def split: option.split)
    with a split show ?thesis by blast
  qed
  show "sorted_wrt (\<lambda>p q. precedes ?ld p q \<and> p \<noteq> q) (walk M t lo mx)"
  proof (cases "?ld lo")
    case None
    with a show ?thesis by (simp add: walk_def)
  next
    case (Some q)
    with a precedesI [OF cv, of lo q] show ?thesis by (auto simp: walk_def)
  qed
qed

text \<open>The mapping at an address or else the first above it, with nothing mapped between.\<close>

definition at_or_after :: "'t maple \<Rightarrow> 't mm_state \<Rightarrow> u64 \<Rightarrow> vptr option \<Rightarrow> bool" where
  "at_or_after M s a r \<longleftrightarrow>
     (case r of
        None \<Rightarrow> (\<forall>k. a \<le> k \<longrightarrow> entry_at M s k = None)
      | Some p \<Rightarrow> p \<in> mapped M s \<and> a < vm_end (vma_at s p) \<and>
          (\<forall>k. a \<le> k \<and> k < vm_start (vma_at s p) \<longrightarrow> entry_at M s k = None))"

text \<open>The last mapping that ends at or below an address, with nothing else mapped between.\<close>

definition last_before :: "'t maple \<Rightarrow> 't mm_state \<Rightarrow> u64 \<Rightarrow> vptr option \<Rightarrow> bool" where
  "last_before M s a r \<longleftrightarrow>
     (case r of
        None \<Rightarrow> (\<forall>k. k < a \<longrightarrow> entry_at M s k = None \<or> entry_at M s k = entry_at M s a)
      | Some p \<Rightarrow> p \<in> mapped M s \<and> vm_end (vma_at s p) \<le> a \<and>
          (\<forall>k. vm_end (vma_at s p) \<le> k \<and> k < a \<longrightarrow>
             entry_at M s k = None \<or> entry_at M s k = entry_at M s a))"

lemma at_or_afterI:
  assumes wf: "mm_wf M s" and i: "a \<le> i" "entry_at M s i = Some p"
    and free: "\<And>k. a \<le> k \<Longrightarrow> k < i \<Longrightarrow> entry_at M s k = None"
  shows "at_or_after M s a (Some p)"
proof -
  note w = mm_wfD [OF wf i(2)]
  have "a < vm_end (vma_at s p)" using i w(3) [of i] by (meson order_le_less_trans)
  moreover have "entry_at M s k = None" if "a \<le> k" "k < vm_start (vma_at s p)" for k
    using free [OF that(1)] that(2) i(2) w(3) [of i] by (meson order_less_le_trans)
  ultimately show ?thesis using i(2) by (auto simp: at_or_after_def mapped_def)
qed

lemma last_beforeI:
  assumes wf: "mm_wf M s" and i: "i < a" "entry_at M s i = Some p" "entry_at M s a \<noteq> Some p"
    and free: "\<And>k. i < k \<Longrightarrow> k < a \<Longrightarrow> entry_at M s k = None \<or> entry_at M s k = entry_at M s a"
  shows "last_before M s a (Some p)"
proof -
  note w = mm_wfD [OF wf i(2)]
  have st: "vm_start (vma_at s p) \<le> i" "i < vm_end (vma_at s p)" using w(3) [of i] i(2) by auto
  have "vm_end (vma_at s p) \<le> a"
    using w(3) [of a] i(1,3) st(1) by (meson less_imp_le not_le order_trans)
  moreover have "entry_at M s k = None \<or> entry_at M s k = entry_at M s a"
    if "vm_end (vma_at s p) \<le> k" "k < a" for k
    using free [of k] that st(2) by (meson order_less_le_trans)
  ultimately show ?thesis using i(2) by (auto simp: last_before_def mapped_def)
qed

lemma find_vma_spec:
  assumes "env_ok E" and "mm_wf (index E) s"
  shows "at_or_after (index E) s a (find_vma E s a)"
  using maple_find [OF env_maple [OF assms(1)], of "tree s" a "- 1"]
    at_or_afterI [OF assms(2), of a]
  by (auto simp: find_law_def find_vma_def at_or_after_def [of _ _ _ None] split: option.splits)

lemma find_vma_prev_spec:
  assumes "env_ok E" and wf: "mm_wf (index E) s"
  shows "at_or_after (index E) s a (fst (find_vma_prev E s a))"
    and "last_before (index E) s a (snd (find_vma_prev E s a))"
proof -
  let ?M = "index E" let ?ld = "entry_at ?M s"
  note M = env_maple [OF assms(1)]
  obtain r i where p: "mas_prev ?M (tree s) a 0 = (r, i)" by fastforce
  show "last_before ?M s a (snd (find_vma_prev E s a))"
  proof (cases r)
    case None
    with prev_None [OF M p [unfolded None]] p show ?thesis
      by (auto simp: find_vma_prev_def last_before_def)
  next
    case (Some q)
    note x = prev_Some [OF M p [unfolded Some]]
    with last_beforeI [OF wf, of i a q] p Some show ?thesis
      by (auto simp: find_vma_prev_def)
  qed
  show "at_or_after ?M s a (fst (find_vma_prev E s a))"
  proof (cases "?ld a")
    case (Some q)
    with p at_or_afterI [OF wf, of a a q] show ?thesis by (auto simp: find_vma_prev_def)
  next
    case None
    note none = None
    have gap: "i \<le> a" "?ld k = None \<or> ?ld k = ?ld i" if "i < k" "k \<le> a" for k
    proof -
      show "i \<le> a" using that by simp
      show "?ld k = None \<or> ?ld k = ?ld i"
        using prev_Some(5) [OF M, of "tree s" a 0 _ i k] prev_None(2) [OF M, of "tree s" a 0 i k] p None that
        by (cases r; cases "k = a") (auto dest: order.not_eq_order_implies_strict)
    qed
    have ia: "i \<le> a" using prev_Some(2) [OF M] prev_None(1) [OF M] p by (cases r) (auto simp: less_imp_le)
    obtain r' j where n: "mas_next ?M (tree s) i (- 1) = (r', j)" by fastforce
    have fst: "fst (find_vma_prev E s a) = r'" using p n None by (simp add: find_vma_prev_def)
    have apart: "?ld k \<noteq> ?ld i \<or> ?ld k = None" if "a \<le> k" for k
      using mm_wf_convex [OF wf] ia that None unfolding convex_def by (metis not_Some_eq)
    show ?thesis
    proof (cases r')
      case None
      have "?ld k = None" if "a \<le> k" for k
        using next_None(2) [OF M n [unfolded None], of k] apart [OF that] that ia None
        by (cases "k = i") auto
      with None fst show ?thesis by (simp add: at_or_after_def)
    next
      case (Some q)
      note x = next_Some [OF M n [unfolded Some]]
      have "a \<le> j" using x gap(2) [of j] by (metis linear not_Some_eq)
      moreover have "?ld k = None" if "a \<le> k" "k < j" for k
        using x(5) [of k] apart [OF that(1)] that ia none by (cases "k = i") auto
      ultimately show ?thesis using at_or_afterI [OF wf, of a j q] x(3) fst Some by auto
    qed
  qed
qed

text \<open>The first mapping that meets \<open>[a, b - 1]\<close>.\<close>

lemma find_vma_intersection_spec:
  assumes "env_ok E"
  shows "find_law (entry_at (index E) s) a (b - 1) (find_vma_intersection E s a b)"
  using maple_find [OF env_maple [OF assms], of "tree s" a "b - 1"]
  by (simp add: find_vma_intersection_def)

section \<open>Counting pages\<close>

text \<open>Every indexed mapping starts and ends on a page boundary.\<close>

definition vmas_aligned :: "'t maple \<Rightarrow> 't mm_state \<Rightarrow> bool" where
  "vmas_aligned M s \<longleftrightarrow>
     (\<forall>p \<in> mapped M s. 4096 dvd unat (vm_start (vma_at s p)) \<and> 4096 dvd unat (vm_end (vma_at s p)))"

lemma card_word_range: "card {x :: u64. l \<le> x \<and> x < h} = unat h - unat l"
proof -
  have "unat ` {x :: u64. l \<le> x \<and> x < h} = {unat l..<unat h}"
  proof (intro equalityI subsetI)
    fix n assume "n \<in> {unat l..<unat h}"
    then have n: "unat l \<le> n" "n < unat h" by auto
    moreover have "n < 2 ^ 64" using n(2) unat_bound64 [of h] by (rule less_trans)
    ultimately have "n = unat (of_nat n :: u64)" by (simp add: unat_of_nat)
    with n show "n \<in> unat ` {x :: u64. l \<le> x \<and> x < h}"
      by (intro image_eqI [of _ _ "of_nat n"]) (simp_all add: word_le_nat_alt word_less_nat_alt)
  qed (auto simp: word_le_nat_alt word_less_nat_alt)
  moreover have "card (unat ` {x :: u64. l \<le> x \<and> x < h}) = card {x :: u64. l \<le> x \<and> x < h}"
    by (rule card_image, rule inj_onI) (simp only: word_unat_eq_iff)
  ultimately show ?thesis by simp
qed

lemma le_minus_one64:
  fixes k b :: u64
  assumes "0 < b"
  shows "k \<le> b - 1 \<longleftrightarrow> k < b"
proof -
  have "b \<noteq> 0" using assms by auto
  then have "unat (b - 1) = unat b - 1" and "0 < unat b"
    by (simp_all add: unat_minus_one unat_gt_0)
  then show ?thesis by (auto simp: word_le_nat_alt word_less_nat_alt)
qed

lemma sorted_wrt_distinct: "sorted_wrt R xs \<Longrightarrow> (\<And>x. \<not> R x x) \<Longrightarrow> distinct xs"
  by (induction xs) auto

lemma foldl_sum_list: "foldl (\<lambda>n p. n + g p) c xs = c + sum_list (map g xs :: u64 list)"
  by (induction xs arbitrary: c) (auto simp: add.assoc)

lemma unat_sum_list:
  "sum_list (map (\<lambda>x. unat (g x :: u64)) xs) < 2 ^ 64 \<Longrightarrow>
     unat (sum_list (map g xs)) = sum_list (map (\<lambda>x. unat (g x)) xs)"
proof (induction xs)
  case (Cons x xs)
  then have "sum_list (map (\<lambda>x. unat (g x)) xs) < 2 ^ 64"
    by (simp only: list.map sum_list.Cons)
  with Cons show ?case by (simp add: unat_add_nowrap)
qed simp

lemma count_eq_sum:
  "count_vma_pages_range E s a b =
     sum_list (map (\<lambda>p. drop_bit (PAGE_SHIFT E)
       (min b (vm_end (vma_at s p)) - max a (vm_start (vma_at s p)))) (walk (index E) (tree s) a (b - 1)))"
  unfolding count_vma_pages_range_def Let_def foldl_sum_list by simp

lemma bytes_of_mapping:
  assumes wf: "mm_wf M s" and al: "vmas_aligned M s" and p: "entry_at M s i = Some p" "a \<le> i" "i < b"
    and ab: "4096 dvd unat a" "4096 dvd unat b"
  shows "card {x. a \<le> x \<and> x < b \<and> entry_at M s x = Some p} =
    4096 * unat (drop_bit 12 (min b (vm_end (vma_at s p)) - max a (vm_start (vma_at s p))))"
proof -
  let ?l = "max a (vm_start (vma_at s p))" and ?h = "min b (vm_end (vma_at s p))"
  note w = mm_wfD [OF wf p(1)]
  have eq: "{x. a \<le> x \<and> x < b \<and> entry_at M s x = Some p} = {x. ?l \<le> x \<and> x < ?h}"
    using w(3) by auto
  have "p \<in> mapped M s" using p(1) by (auto simp: mapped_def)
  then have "4096 dvd unat ?h" "4096 dvd unat ?l"
    using al ab by (auto simp: vmas_aligned_def min_def max_def)
  moreover have "?l \<le> i" "i < ?h" using p w(3) [of i] by auto
  then have "?l \<le> ?h" by (meson less_imp_le order_trans)
  then have "unat (?h - ?l) = unat ?h - unat ?l" by (rule unat_sub)
  ultimately show ?thesis unfolding eq card_word_range unat_shift_right_12 by simp
qed

lemma count_bytes:
  assumes E: "env_ok E" and wf: "mm_wf (index E) s" and al: "vmas_aligned (index E) s"
    and ab: "4096 dvd unat a" "4096 dvd unat b" "a \<le> b" "0 < b"
  shows "card {x. a \<le> x \<and> x < b \<and> entry_at (index E) s x \<noteq> None} =
    4096 * unat (count_vma_pages_range E s a b)"
proof -
  let ?M = "index E" let ?W = "walk ?M (tree s) a (b - 1)"
  let ?g = "\<lambda>p. drop_bit 12 (min b (vm_end (vma_at s p)) - max a (vm_start (vma_at s p)))"
  let ?B = "\<lambda>p. {x. a \<le> x \<and> x < b \<and> entry_at ?M s x = Some p}"
  note sp = walk_spec [OF env_maple [OF E] mm_wf_convex [OF wf], of a "b - 1"]
  have lt: "k \<le> b - 1 \<longleftrightarrow> k < b" for k :: u64
    using ab(4) by (rule le_minus_one64)
  have W: "set ?W = {p. \<exists>k. a \<le> k \<and> k < b \<and> entry_at ?M s k = Some p}"
    using sp(1) by (simp add: lt)
  have d: "distinct ?W"
    using sp(2) by (rule sorted_wrt_distinct) simp
  have cB: "card (?B p) = 4096 * unat (?g p)" if "p \<in> set ?W" for p
    using that bytes_of_mapping [OF wf al _ _ _ ab(1,2)] unfolding W by blast
  have "{x. a \<le> x \<and> x < b \<and> entry_at ?M s x \<noteq> None} = (\<Union>p \<in> set ?W. ?B p)"
    unfolding W by auto
  also have "card \<dots> = (\<Sum>p \<in> set ?W. card (?B p))"
    by (rule card_UN_disjoint) auto
  also have "\<dots> = (\<Sum>p \<in> set ?W. 4096 * unat (?g p))" using cB by (rule sum.cong [OF refl])
  also have "\<dots> = 4096 * sum_list (map (\<lambda>p. unat (?g p)) ?W)"
    by (simp add: sum.distinct_set_conv_list [OF d] sum_list_const_mult)
  finally have tot: "card {x. a \<le> x \<and> x < b \<and> entry_at ?M s x \<noteq> None} =
    4096 * sum_list (map (\<lambda>p. unat (?g p)) ?W)" .
  have "card {x. a \<le> x \<and> x < b \<and> entry_at ?M s x \<noteq> None} \<le> card (UNIV :: u64 set)"
    by (rule card_mono) auto
  then have "sum_list (map (\<lambda>p. unat (?g p)) ?W) < 2 ^ 64"
    using tot by (simp add: card_word)
  then show ?thesis
    unfolding tot count_eq_sum hdr_simps(1) [OF env_hdr [OF E]] by (simp only: unat_sum_list)
qed

end
