(* ===== verification/Mm_Demo.thy ===== *)
theory Mm_Demo
  imports Mm_Env Vma_Lookup
begin

text \<open>
  A small address space for the runs of the witnesses: a program text mapped from a file,
  a heap and a stack that grows down, each with the flags Linux gives it.
\<close>

definition blank_vma :: vm_area_struct where
  "blank_vma = \<lparr>vm_start = 0, vm_end = 0, vm_pgoff = 0, vm_flags = 0, vm_page_prot = 0,
     vm_file = None, vm_ops = None, anon_vma = None, anon_vma_chain = [], vm_policy = None,
     vm_userfaultfd_ctx = 0, anon_name = None, vm_private_data = 0\<rparr>"

definition demo_text :: vm_area_struct where
  "demo_text = blank_vma\<lparr>vm_start := 0x400000, vm_end := 0x402000, vm_flags := 0x75,
     vm_file := Some 7\<rparr>"

definition demo_heap :: vm_area_struct where
  "demo_heap = blank_vma\<lparr>vm_start := 0x600000, vm_end := 0x603000, vm_pgoff := 0x600,
     vm_flags := 0x100073\<rparr>"

definition demo_stack :: vm_area_struct where
  "demo_stack = blank_vma\<lparr>vm_start := 0x7ffffff00000, vm_end := 0x7ffffff02000,
     vm_pgoff := 0x7ffffff00, vm_flags := 0x100173, anon_vma := Some 5, anon_vma_chain := [5]\<rparr>"

definition demo_mm :: "wlog mm_struct" where
  "demo_mm = \<lparr>mm_mt = [(0x7ffffff00000, 0x7ffffff01fff, Some 3), (0x600000, 0x602fff, Some 2),
       (0x400000, 0x401fff, Some 1)],
     map_count = 3, total_vm = 7, locked_vm = 0, data_vm = 3, exec_vm = 2, stack_vm = 2,
     start_brk = 0x600000, brk = 0x603000, start_data = 0x500000, end_data = 0x500800,
     def_flags = 0, mmap_base = 0x7fff00000000\<rparr>"

definition demo_mms :: "wlog mm_state" where
  "demo_mms = \<lparr>trace = [], memory_list = [], cur_mm = demo_mm,
     vmas = [1 \<mapsto> demo_text, 2 \<mapsto> demo_heap, 3 \<mapsto> demo_stack]\<rparr>"

lemmas demo_defs = demo_mms_def demo_mm_def demo_text_def demo_heap_def demo_stack_def
  blank_vma_def

lemma log_maple_sel [simp]:
  "mt_load log_maple = log_load" "mt_find log_maple = log_find" "mas_next log_maple = log_next"
  "mas_prev log_maple = log_prev" "mt_store log_maple l lo hi v = (lo, hi, v) # l"
  "mas_empty_area log_maple = log_gap" "mas_empty_area_rev log_maple = log_gap_rev"
  by (simp_all add: log_maple_def)

lemma le_below:
  fixes k a :: u64
  assumes "a \<noteq> 0"
  shows "k < a \<longleftrightarrow> k \<le> a - 1"
  using le_minus_one64 [of a k] assms by (simp add: word_gt_0)

lemma demo_load:
  "log_load (tree demo_mms) k =
     (if 0x7ffffff00000 \<le> k \<and> k < 0x7ffffff02000 then Some 3
      else if 0x600000 \<le> k \<and> k < 0x603000 then Some 2
      else if 0x400000 \<le> k \<and> k < 0x402000 then Some 1 else None)"
  by (simp add: demo_mms_def demo_mm_def le_below)

lemma demo_vma [simp]:
  "vma_at demo_mms (Suc 0) = demo_text" "vma_at demo_mms 2 = demo_heap"
  "vma_at demo_mms 3 = demo_stack" "vma_at demo_mms 1 = demo_text"
  by (simp_all add: vma_at_def demo_mms_def)

lemma demo_apart:
  fixes k :: u64
  shows "0x600000 \<le> k \<Longrightarrow> k < 0x603000 \<Longrightarrow> \<not> 0x7ffffff00000 \<le> k"
    "0x400000 \<le> k \<Longrightarrow> k < 0x402000 \<Longrightarrow> \<not> 0x7ffffff00000 \<le> k \<and> \<not> 0x600000 \<le> k"
  by (auto simp: word_le_nat_alt word_less_nat_alt)

lemma demo_wf [simp]: "mm_wf log_maple demo_mms"
  unfolding mm_wf_def log_maple_sel demo_load
  by (auto simp: demo_defs split: if_splits dest: demo_apart)

lemma demo_mapped: "mapped log_maple demo_mms = {1, 2, 3}"
proof -
  have "log_load (tree demo_mms) 0x400000 = Some 1" "log_load (tree demo_mms) 0x600000 = Some 2"
    "log_load (tree demo_mms) 0x7ffffff00000 = Some 3"
    by (simp_all add: demo_load)
  then have "{1, 2, 3} \<subseteq> mapped log_maple demo_mms"
    unfolding mapped_def log_maple_sel by blast
  moreover have "mapped log_maple demo_mms \<subseteq> {1, 2, 3}"
    by (auto simp: mapped_def demo_load split: if_splits)
  ultimately show ?thesis by blast
qed

lemma demo_count [simp]: "count_ok log_maple demo_mms"
  by (simp add: count_ok_def demo_mapped) (simp add: demo_mms_def demo_mm_def)

lemma demo_aligned [simp]: "vmas_aligned log_maple demo_mms"
  by (simp add: vmas_aligned_def demo_mapped) (simp add: demo_defs)

text \<open>
  Two adjacent anonymous mappings, the upper one already with an \<open>anon_vma\<close>, and nothing
  else.
\<close>

definition demo_low :: vm_area_struct where
  "demo_low = blank_vma\<lparr>vm_start := 0x20000, vm_end := 0x22000, vm_pgoff := 0x20, vm_flags := 0x100071\<rparr>"

definition demo_high :: vm_area_struct where
  "demo_high = blank_vma\<lparr>vm_start := 0x22000, vm_end := 0x24000, vm_pgoff := 0x22, vm_flags := 0x100073,
     anon_vma := Some 5, anon_vma_chain := [5]\<rparr>"

definition demo_pair :: "wlog mm_state" where
  "demo_pair = \<lparr>trace = [], memory_list = [],
     cur_mm = demo_mm\<lparr>mm_mt := [(0x22000, 0x23fff, Some 2), (0x20000, 0x21fff, Some 1)],
       map_count := 2, total_vm := 4\<rparr>,
     vmas = [1 \<mapsto> demo_low, 2 \<mapsto> demo_high]\<rparr>"

lemma demo_pair_load:
  "log_load (tree demo_pair) k =
     (if 0x22000 \<le> k \<and> k < 0x24000 then Some 2
      else if 0x20000 \<le> k \<and> k < 0x22000 then Some 1 else None)"
  by (simp add: demo_pair_def le_below)

lemma demo_pair_vma:
  "vma_at demo_pair 1 = demo_low" "vma_at demo_pair (Suc 0) = demo_low" "vma_at demo_pair 2 = demo_high"
  by (simp_all add: vma_at_def demo_pair_def)

lemma demo_pair_wf [simp]: "mm_wf log_maple demo_pair"
  unfolding mm_wf_def log_maple_sel demo_pair_load
  by (auto simp: demo_pair_def demo_low_def demo_high_def blank_vma_def split: if_splits)

lemma demo_pair_mapped: "mapped log_maple demo_pair = {1, 2}"
proof -
  have "log_load (tree demo_pair) 0x20000 = Some 1" "log_load (tree demo_pair) 0x22000 = Some 2"
    by (simp_all add: demo_pair_load)
  then have "{1, 2} \<subseteq> mapped log_maple demo_pair"
    unfolding mapped_def log_maple_sel by blast
  moreover have "mapped log_maple demo_pair \<subseteq> {1, 2}"
    by (auto simp: mapped_def demo_pair_load split: if_splits)
  ultimately show ?thesis by blast
qed

lemma demo_pair_ok [simp]:
  "count_ok log_maple demo_pair" "vmas_aligned log_maple demo_pair"
  by (simp_all add: count_ok_def vmas_aligned_def demo_pair_mapped demo_pair_vma)
    (simp_all add: demo_pair_def demo_low_def demo_high_def blank_vma_def)

end
