(* ===== verification/Mm_Account.thy ===== *)
theory Mm_Account
  imports Mm_Demo
begin

text \<open>
  The accounting of \<open>mm/mmap.c\<close>: the limits an address space may grow to and the counters
  that grow with it, the bounds on file offsets, the hint for an address, and the memory
  reserves.  \<open>growth_within_limits\<close>, \<open>file_mmap_ok_bounds\<close> and \<open>count_pages_exact\<close> are the
  claims of this theory.
\<close>

section \<open>Limits of an address space\<close>

definition may_expand_vm ::
  "('t, 'a) mm_env_scheme \<Rightarrow> 't mm_state \<Rightarrow> u64 \<Rightarrow> u64 \<Rightarrow> bool" where
  "may_expand_vm E s flags npages =
     (if drop_bit (PAGE_SHIFT E) (rlimit_as E) < total_vm (cur_mm s) + npages then False
      else if is_data_mapping E flags \<and>
              drop_bit (PAGE_SHIFT E) (rlimit_data E) < data_vm (cur_mm s) + npages
      then (if rlimit_data E = 0 \<and>
               data_vm (cur_mm s) + npages \<le> drop_bit (PAGE_SHIFT E) (rlimit_data_max E)
            then True
            else if \<not> ignore_rlimit_data E then False else True)
      else True)"

text \<open>\<open>npages\<close> is a \<open>long\<close>, added as an \<open>unsigned long\<close>.\<close>

definition vm_stat_account ::
  "('t, 'a) mm_env_scheme \<Rightarrow> u64 \<Rightarrow> u64 \<Rightarrow> 't mm_state \<Rightarrow> 't mm_state" where
  "vm_stat_account E flags npages s =
     upd_mm (\<lambda>mm.
       let mm = mm\<lparr>total_vm := total_vm mm + npages\<rparr> in
       if is_exec_mapping E flags then mm\<lparr>exec_vm := exec_vm mm + npages\<rparr>
       else if is_stack_mapping E flags then mm\<lparr>stack_vm := stack_vm mm + npages\<rparr>
       else if is_data_mapping E flags then mm\<lparr>data_vm := data_vm mm + npages\<rparr>
       else mm) s"

definition mlock_future_ok ::
  "('t, 'a) mm_env_scheme \<Rightarrow> 't mm_state \<Rightarrow> u64 \<Rightarrow> u64 \<Rightarrow> bool" where
  "mlock_future_ok E s flags bytes =
     (if flags AND cst E VM_LOCKED = 0 \<or> cap_ipc_lock E then True
      else drop_bit (PAGE_SHIFT E) bytes + locked_vm (cur_mm s)
             \<le> drop_bit (PAGE_SHIFT E) (rlimit_memlock E))"

definition accountable_mapping :: "('t, 'a) mm_env_scheme \<Rightarrow> fptr option \<Rightarrow> u64 \<Rightarrow> bool" where
  "accountable_mapping E file flags =
     (if (case file of Some f \<Rightarrow> is_file_hugepages E f | None \<Rightarrow> False) then False
      else flags AND (cst E VM_NORESERVE OR cst E VM_SHARED OR cst E VM_WRITE) = cst E VM_WRITE)"

text \<open>
  \<open>security_vm_enough_memory_mm\<close>: it charges the pages when it grants them.  The result is
  the error flag.
\<close>

definition charge_memory ::
  "('t, 'a) mm_env_scheme \<Rightarrow> u64 \<Rightarrow> 't mm_state \<Rightarrow> bool \<times> 't mm_state" where
  "charge_memory E pages s =
     (if not_enough_memory E s pages then (True, s) else (False, emit (Charge pages) s))"

definition acct_stack_growth ::
  "('t, 'a) mm_env_scheme \<Rightarrow> vptr \<Rightarrow> u64 \<Rightarrow> u64 \<Rightarrow> 't mm_state \<Rightarrow> (errno + unit) \<times> 't mm_state"
where
  "acct_stack_growth E vma sz grow s =
     (let v = vma_at s vma in
      if \<not> may_expand_vm E s (vm_flags v) grow then (Inl ENOMEM, s)
      else if rlimit_stack E < sz then (Inl ENOMEM, s)
      else if \<not> mlock_future_ok E s (vm_flags v) (push_bit (PAGE_SHIFT E) grow) then (Inl ENOMEM, s)
      else
        let new_start = (if flag E v VM_GROWSUP then vm_start v else vm_end v - sz) in
        if is_hugepage_only_range E new_start sz then (Inl EFAULT, s)
        else case charge_memory E grow s of
            (True, s) \<Rightarrow> (Inl ENOMEM, s)
          | (False, s) \<Rightarrow> (Inr (), s))"

section \<open>Addresses and file offsets\<close>

definition round_hint_to_min :: "('t, 'a) mm_env_scheme \<Rightarrow> u64 \<Rightarrow> u64" where
  "round_hint_to_min E hint =
     (let hint = hint AND cst E PAGE_MASK in
      if hint \<noteq> 0 \<and> hint < mmap_min_addr E then PAGE_ALIGN E (mmap_min_addr E) else hint)"

text \<open>What \<open>S_ISREG\<close>, \<open>S_ISBLK\<close> and \<open>S_ISSOCK\<close> say of \<open>inode->i_mode\<close>.\<close>

datatype inode_kind = S_REG | S_BLK | S_SOCK | S_OTHER

definition file_mmap_size_max :: "('t, 'a) mm_env_scheme \<Rightarrow> fptr \<Rightarrow> inode_kind \<Rightarrow> u64" where
  "file_mmap_size_max E file inode =
     (if inode = S_REG then cst E MAX_LFS_FILESIZE
      else if inode = S_BLK then cst E MAX_LFS_FILESIZE
      else if inode = S_SOCK then cst E MAX_LFS_FILESIZE
      else if f_mode E file AND cst E FMODE_UNSIGNED_OFFSET \<noteq> 0 then 0
      else ULONG_MAX)"

definition file_mmap_ok ::
  "('t, 'a) mm_env_scheme \<Rightarrow> fptr \<Rightarrow> inode_kind \<Rightarrow> u64 \<Rightarrow> u64 \<Rightarrow> bool" where
  "file_mmap_ok E file inode pgoff len =
     (let maxsize = file_mmap_size_max E file inode in
      if maxsize \<noteq> 0 \<and> maxsize < len then False
      else if drop_bit (PAGE_SHIFT E) (maxsize - len) < pgoff then False
      else True)"

section \<open>Memory reserves\<close>

record reserves =
  sysctl_user_reserve_kbytes :: u64
  sysctl_admin_reserve_kbytes :: u64

definition init_user_reserve :: "u64 \<Rightarrow> reserves \<Rightarrow> reserves" where
  "init_user_reserve free_kbytes r =
     r\<lparr>sysctl_user_reserve_kbytes := min (free_kbytes div 32) (push_bit 17 1)\<rparr>"

definition init_admin_reserve :: "u64 \<Rightarrow> reserves \<Rightarrow> reserves" where
  "init_admin_reserve free_kbytes r =
     r\<lparr>sysctl_admin_reserve_kbytes := min (free_kbytes div 32) (push_bit 13 1)\<rparr>"

datatype mem_action = MEM_ONLINE | MEM_OFFLINE | MEM_OTHER

definition reserve_mem_notifier :: "mem_action \<Rightarrow> u64 \<Rightarrow> reserves \<Rightarrow> reserves" where
  "reserve_mem_notifier action free_kbytes r =
     (case action of
        MEM_ONLINE \<Rightarrow>
          let tmp = sysctl_user_reserve_kbytes r;
              r = (if 0 < tmp \<and> tmp < push_bit 17 1 then init_user_reserve free_kbytes r else r);
              tmp = sysctl_admin_reserve_kbytes r
          in (if 0 < tmp \<and> tmp < push_bit 13 1 then init_admin_reserve free_kbytes r else r)
      | MEM_OFFLINE \<Rightarrow>
          let r = (if free_kbytes < sysctl_user_reserve_kbytes r
                   then init_user_reserve free_kbytes r else r)
          in (if free_kbytes < sysctl_admin_reserve_kbytes r
              then init_admin_reserve free_kbytes r else r)
      | MEM_OTHER \<Rightarrow> r)"

text \<open>
  The boot option \<open>stack_guard_gap=\<close>: \<open>parsed\<close> is what \<open>simple_strtoul\<close> returns and whether
  it read the whole string.
\<close>

definition cmdline_parse_stack_guard_gap :: "'a hdr_scheme \<Rightarrow> u64 \<times> bool \<Rightarrow> u64 \<Rightarrow> u64" where
  "cmdline_parse_stack_guard_gap H parsed gap =
     (case parsed of (val, at_end) \<Rightarrow> if at_end then push_bit (PAGE_SHIFT H) val else gap)"

section \<open>Lemmas\<close>

lemma pages_bound:
  assumes "n \<le> drop_bit 12 (r :: u64)"
  shows "unat n * 4096 \<le> unat r"
proof -
  have "unat n \<le> unat r div 4096" using assms by (simp add: word_le_nat_alt unat_shift_right_12)
  then show ?thesis by (metis div_times_less_eq_dividend mult_le_mono1 order_trans)
qed

lemma vm_stat_account_simps [simp]:
  "vmas (vm_stat_account E f n s) = vmas s" "trace (vm_stat_account E f n s) = trace s"
  "tree (vm_stat_account E f n s) = tree s" "vma_at (vm_stat_account E f n s) = vma_at s"
  "map_count (cur_mm (vm_stat_account E f n s)) = map_count (cur_mm s)"
  "locked_vm (cur_mm (vm_stat_account E f n s)) = locked_vm (cur_mm s)"
  "total_vm (cur_mm (vm_stat_account E f n s)) = total_vm (cur_mm s) + n"
  "memory_list (vm_stat_account E f n s) = memory_list s"
  by (simp_all add: vm_stat_account_def Let_def)

lemma acct_stack_growth_state:
  "acct_stack_growth E vma sz grow s = (r, s') \<Longrightarrow>
     s' = (if r = Inr () then emit (Charge grow) s else s)"
  by (auto simp: acct_stack_growth_def charge_memory_def Let_def split: if_splits)

lemma acct_stack_growth_ok:
  assumes "acct_stack_growth E vma sz grow s = (Inr (), s')"
  shows "may_expand_vm E s (vm_flags (vma_at s vma)) grow" "sz \<le> rlimit_stack E"
    "mlock_future_ok E s (vm_flags (vma_at s vma)) (push_bit (PAGE_SHIFT E) grow)"
  using assms by (auto simp: acct_stack_growth_def Let_def split: if_splits)

section \<open>Claims\<close>

text \<open>
  C23: what the growth checks admit stays within the limits.  When \<open>may_expand_vm\<close> admits
  \<open>n\<close> more pages of mappings with flags \<open>fl\<close> and neither page count wraps, then after
  \<open>vm_stat_account\<close> has added them the address space is no larger than \<open>RLIMIT_AS\<close> bytes;
  the data with the pages of a data mapping is no larger than \<open>RLIMIT_DATA\<close> bytes (when that
  limit is neither 0 nor ignored); the pages are counted as code if the mapping is executable,
  else as stack if it is a stack, else as data if it is one, and in no other class; and when
  \<open>mlock_future_ok\<close> admits locking them for a caller without the capability, the locked
  memory with them (fewer than 2^52 pages, all a 64-bit byte count can tell apart) stays within
  \<open>RLIMIT_MEMLOCK\<close> bytes.
\<close>

theorem growth_within_limits:
  assumes "env_ok E" and "may_expand_vm E s fl n"
    and "unat (total_vm (cur_mm s)) + unat n < 2 ^ 64"
    and "unat (data_vm (cur_mm s)) + unat n < 2 ^ 64"
    and "unat (locked_vm (cur_mm s)) + unat n < 2 ^ 52"
  defines "mm' \<equiv> cur_mm (vm_stat_account E fl n s)"
  shows "(unat (total_vm (cur_mm s)) + unat n) * 4096 \<le> unat (rlimit_as E) \<and>
    unat (total_vm mm') = unat (total_vm (cur_mm s)) + unat n \<and>
    (is_data_mapping E fl \<and> rlimit_data E \<noteq> 0 \<and> \<not> ignore_rlimit_data E \<longrightarrow>
       (unat (data_vm (cur_mm s)) + unat n) * 4096 \<le> unat (rlimit_data E)) \<and>
    exec_vm mm' = exec_vm (cur_mm s) + (if is_exec_mapping E fl then n else 0) \<and>
    stack_vm mm' = stack_vm (cur_mm s) +
      (if \<not> is_exec_mapping E fl \<and> is_stack_mapping E fl then n else 0) \<and>
    data_vm mm' = data_vm (cur_mm s) +
      (if \<not> is_exec_mapping E fl \<and> \<not> is_stack_mapping E fl \<and> is_data_mapping E fl
       then n else 0) \<and>
    (mlock_future_ok E s fl (push_bit 12 n) \<and> fl AND cst E VM_LOCKED \<noteq> 0 \<and> \<not> cap_ipc_lock E \<longrightarrow>
       (unat (locked_vm (cur_mm s)) + unat n) * 4096 \<le> unat (rlimit_memlock E))"
proof (intro conjI impI)
  have sh: "PAGE_SHIFT E = 12" using assms(1) by (simp add: env_hdr hdr_simps)
  have t: "unat (total_vm (cur_mm s) + n) = unat (total_vm (cur_mm s)) + unat n"
    by (rule unat_add_nowrap [OF assms(3)])
  have "total_vm (cur_mm s) + n \<le> drop_bit 12 (rlimit_as E)"
    using assms(2) by (auto simp: may_expand_vm_def sh split: if_splits)
  from pages_bound [OF this] show "(unat (total_vm (cur_mm s)) + unat n) * 4096 \<le> unat (rlimit_as E)"
    by (simp only: t)
  show "unat (total_vm mm') = unat (total_vm (cur_mm s)) + unat n"
    by (simp add: mm'_def t)
  show "(unat (data_vm (cur_mm s)) + unat n) * 4096 \<le> unat (rlimit_data E)"
    if d: "is_data_mapping E fl \<and> rlimit_data E \<noteq> 0 \<and> \<not> ignore_rlimit_data E"
  proof -
    have "data_vm (cur_mm s) + n \<le> drop_bit 12 (rlimit_data E)"
      using assms(2) d by (auto simp: may_expand_vm_def sh split: if_splits)
    from pages_bound [OF this] show ?thesis by (simp only: unat_add_nowrap [OF assms(4)])
  qed
  show "exec_vm mm' = exec_vm (cur_mm s) + (if is_exec_mapping E fl then n else 0)"
    by (simp add: mm'_def vm_stat_account_def Let_def)
  show "stack_vm mm' = stack_vm (cur_mm s) +
      (if \<not> is_exec_mapping E fl \<and> is_stack_mapping E fl then n else 0)"
    by (simp add: mm'_def vm_stat_account_def Let_def)
  show "data_vm mm' = data_vm (cur_mm s) +
      (if \<not> is_exec_mapping E fl \<and> \<not> is_stack_mapping E fl \<and> is_data_mapping E fl
       then n else 0)"
    by (simp add: mm'_def vm_stat_account_def Let_def)
  show "(unat (locked_vm (cur_mm s)) + unat n) * 4096 \<le> unat (rlimit_memlock E)"
    if l: "mlock_future_ok E s fl (push_bit 12 n) \<and> fl AND cst E VM_LOCKED \<noteq> 0 \<and> \<not> cap_ipc_lock E"
  proof -
    have n: "unat n < 2 ^ 52" using assms(5) by linarith
    then have "unat (drop_bit 12 (push_bit 12 n)) = unat n"
      by (simp add: unat_shift_right_12 unat_shift_left_12)
    then have "drop_bit 12 (push_bit 12 n) = n" by (simp add: word_unat_eq_iff)
    then have "n + locked_vm (cur_mm s) \<le> drop_bit 12 (rlimit_memlock E)"
      using l by (auto simp: mlock_future_ok_def sh)
    from pages_bound [OF this] show ?thesis
      using assms(5) unat_add_nowrap [of n "locked_vm (cur_mm s)"] by (simp add: add.commute)
  qed
qed

theorem growth_within_limits_witness:
  "may_expand_vm x86_env demo_mms 0x73 5 \<and> total_vm (cur_mm demo_mms) = 7 \<and>
   unat (total_vm (cur_mm (vm_stat_account x86_env 0x73 5 demo_mms))) = 12"
proof -
  have m: "may_expand_vm x86_env demo_mms 0x73 5"
    by (simp add: may_expand_vm_def demo_mms_def demo_mm_def mask_eq_exp_minus_1)
  show ?thesis
    using growth_within_limits [of x86_env demo_mms "0x73" 5] m
    by (simp add: demo_mms_def demo_mm_def)
qed

text \<open>
  C28: a file mapping that \<open>file_mmap_ok\<close> admits ends at or before the last offset its kind
  of file may have: the maximal file size, or for files with unsigned offsets the whole
  range of a 64-bit offset.  So no page of the mapping has an offset that wraps.
\<close>

theorem file_mmap_ok_bounds:
  assumes "hdr_ok E" and "file_mmap_ok E f inode pgoff len"
  shows "if file_mmap_size_max E f inode = 0
    then unat pgoff * 4096 + unat len \<le> 2 ^ 64 \<or> len = 0
    else unat pgoff * 4096 + unat len \<le> unat (file_mmap_size_max E f inode)"
proof -
  let ?m = "file_mmap_size_max E f inode"
  have ok: "?m = 0 \<or> len \<le> ?m" "pgoff \<le> drop_bit 12 (?m - len)"
    using assms by (auto simp: file_mmap_ok_def Let_def hdr_simps split: if_splits)
  have b: "unat pgoff * 4096 \<le> unat (?m - len)" by (rule pages_bound [OF ok(2)])
  show ?thesis
  proof (cases "?m = 0")
    case True
    have "unat (- len) + unat len = 2 ^ 64" if "len \<noteq> 0"
    proof -
      have "(unat (- len) + unat len) mod 2 ^ 64 = 0"
        using unat_word_ariths(1) [of "- len" len] by simp
      then obtain q where q: "unat (- len) + unat len = 2 ^ 64 * q" by (auto elim: dvdE)
      have "0 < unat len" using that by (simp add: unat_gt_0)
      then have "q \<noteq> 0" using q by (intro notI) simp
      then have "0 < q" by simp
      have "2 ^ 64 * q < 2 ^ 64 * 2" using unat_bound64 [of len] unat_bound64 [of "- len"] q by linarith
      then have "q < 2" by simp
      with \<open>0 < q\<close> have "q = 1" by linarith
      with q show ?thesis by simp
    qed
    with b True show ?thesis by auto
  next
    case False
    with ok(1) have "unat (?m - len) = unat ?m - unat len" "unat len \<le> unat ?m"
      by (simp_all add: unat_sub word_le_nat_alt)
    with b False show ?thesis by simp
  qed
qed

theorem file_mmap_ok_bounds_witness:
  "file_mmap_ok x86_env 7 S_REG 3 4096 \<and> file_mmap_size_max x86_env 7 S_REG = 0x7fffffffffffffff \<and>
   unat (3 :: u64) * 4096 + unat (4096 :: u64) \<le> unat (0x7fffffffffffffff :: u64)"
proof -
  have m: "file_mmap_size_max x86_env 7 S_REG = 0x7fffffffffffffff"
    by (simp add: file_mmap_size_max_def)
  have "file_mmap_ok x86_env 7 S_REG 3 4096"
    by (simp add: file_mmap_ok_def m)
  with file_mmap_ok_bounds [of x86_env 7 S_REG 3 4096] m show ?thesis
    by (simp add: env_hdr)
qed

text \<open>
  C24: \<open>count_vma_pages_range\<close> counts exactly the mapped memory of a page-aligned range:
  the number of mapped addresses in it is the page size times the result, whatever
  mappings straddle its ends.
\<close>

theorem count_pages_exact:
  assumes "env_ok E" and "mm_wf (index E) s" and "vmas_aligned (index E) s"
    and "4096 dvd unat a" and "4096 dvd unat b" and "a \<le> b" and "0 < b"
  shows "card {x. a \<le> x \<and> x < b \<and> entry_at (index E) s x \<noteq> None} =
    4096 * unat (count_vma_pages_range E s a b)"
  using assms by (rule count_bytes)

theorem count_pages_exact_witness:
  "card {x. 0x401000 \<le> x \<and> x < 0x602000 \<and> entry_at (index x86_env) demo_mms x \<noteq> None} =
    4096 * unat (count_vma_pages_range x86_env demo_mms 0x401000 0x602000)"
  by (rule count_pages_exact) simp_all

text \<open>
  The reserves follow the memory.  After memory went offline neither reserve exceeds
  the free memory; after memory came online a reserve the administrator had removed (0) or
  raised to the default maximum or above is untouched, and any other is 1/32 of the free
  memory up to the default maximum.
\<close>

lemma reserves_follow_memory:
  "(let r' = reserve_mem_notifier MEM_OFFLINE free r in
      sysctl_user_reserve_kbytes r' \<le> free \<and> sysctl_admin_reserve_kbytes r' \<le> free) \<and>
   (let r' = reserve_mem_notifier MEM_ONLINE free r;
        u = sysctl_user_reserve_kbytes r; a = sysctl_admin_reserve_kbytes r in
      sysctl_user_reserve_kbytes r' =
        (if u = 0 \<or> 0x20000 \<le> u then u else min (free div 32) 0x20000) \<and>
      sysctl_admin_reserve_kbytes r' =
        (if a = 0 \<or> 0x2000 \<le> a then a else min (free div 32) 0x2000)) \<and>
   reserve_mem_notifier MEM_OTHER free r = r"
proof -
  have "free div 32 \<le> free" by (simp add: word_le_nat_alt unat_div)
  then have m: "min (free div 32) k \<le> free" for k by (meson min.coboundedI1)
  have "let r' = reserve_mem_notifier MEM_OFFLINE free r in
      sysctl_user_reserve_kbytes r' \<le> free \<and> sysctl_admin_reserve_kbytes r' \<le> free"
    using m unfolding reserve_mem_notifier_def init_user_reserve_def init_admin_reserve_def Let_def
    by (simp del: min_less_iff_conj add: not_less)
  moreover have "(0 < u \<and> u < c) = (\<not> (u = 0 \<or> c \<le> u))" for u c :: u64
    by (auto simp: word_gt_0)
  ultimately show ?thesis
    by (simp add: reserve_mem_notifier_def init_user_reserve_def init_admin_reserve_def Let_def)
qed

end
