(* ===== verification/Vma_Merge.thy ===== *)
theory Vma_Merge
  imports Mm_Demo
begin

text \<open>
  The questions \<open>mm/mmap.c\<close> asks about mappings: may a request be merged with its
  neighbour, may two mappings share an \<open>anon_vma\<close>, and does a mapping need to be told
  about writes.  \<open>merge_keeps_offsets\<close>, \<open>shared_anon_vma_is_compatible\<close> and
  \<open>dirty_tracking_gets_notified\<close> are the claims.
\<close>

section \<open>Merging\<close>

definition has_close :: "vm_area_struct \<Rightarrow> bool" where
  "has_close v = (case vm_ops v of None \<Rightarrow> False | Some ops \<Rightarrow> op_close ops)"

definition is_mergeable_vma ::
  "('t, 'a) mm_env_scheme \<Rightarrow> vm_area_struct \<Rightarrow> fptr option \<Rightarrow> u64 \<Rightarrow> nat \<Rightarrow> nat option \<Rightarrow> bool \<Rightarrow> bool"
where
  "is_mergeable_vma E vma file flags uffd_ctx name may_remove_vma =
     (if (vm_flags vma XOR flags) AND NOT (cst E VM_SOFTDIRTY) \<noteq> 0 then False
      else if vm_file vma \<noteq> file then False
      else if may_remove_vma \<and> has_close vma then False
      else if \<not> uffd_ctx_mergeable E vma uffd_ctx then False
      else if \<not> anon_vma_name_eq E (anon_name vma) name then False
      else True)"

definition list_is_singular :: "'b list \<Rightarrow> bool" where
  "list_is_singular xs \<longleftrightarrow> length xs = 1"

definition is_mergeable_anon_vma ::
  "nat option \<Rightarrow> nat option \<Rightarrow> vm_area_struct option \<Rightarrow> bool" where
  "is_mergeable_anon_vma anon_vma1 anon_vma2 vma =
     (if (anon_vma1 = None \<or> anon_vma2 = None) \<and>
         (case vma of None \<Rightarrow> True | Some v \<Rightarrow> list_is_singular (anon_vma_chain v))
      then True else anon_vma1 = anon_vma2)"

definition can_vma_merge_before ::
  "('t, 'a) mm_env_scheme \<Rightarrow> vm_area_struct \<Rightarrow> u64 \<Rightarrow> nat option \<Rightarrow> fptr option \<Rightarrow> u64 \<Rightarrow>
     nat \<Rightarrow> nat option \<Rightarrow> bool" where
  "can_vma_merge_before E vma flags av file pgoff uffd_ctx name =
     (is_mergeable_vma E vma file flags uffd_ctx name True \<and>
      is_mergeable_anon_vma av (anon_vma vma) (Some vma) \<and> vm_pgoff vma = pgoff)"

definition can_vma_merge_after ::
  "('t, 'a) mm_env_scheme \<Rightarrow> vm_area_struct \<Rightarrow> u64 \<Rightarrow> nat option \<Rightarrow> fptr option \<Rightarrow> u64 \<Rightarrow>
     nat \<Rightarrow> nat option \<Rightarrow> bool" where
  "can_vma_merge_after E vma flags av file pgoff uffd_ctx name =
     (is_mergeable_vma E vma file flags uffd_ctx name False \<and>
      is_mergeable_anon_vma av (anon_vma vma) (Some vma) \<and>
      (let vm_pglen = vma_pages E vma in vm_pgoff vma + vm_pglen = pgoff))"

section \<open>Sharing an anon\_vma\<close>

definition anon_vma_compatible ::
  "('t, 'a) mm_env_scheme \<Rightarrow> vm_area_struct \<Rightarrow> vm_area_struct \<Rightarrow> bool" where
  "anon_vma_compatible E a b =
     (vm_end a = vm_start b \<and> mpol_equal E (vm_policy a) (vm_policy b) \<and> vm_file a = vm_file b \<and>
      (vm_flags a XOR vm_flags b) AND NOT (cst E VM_ACCESS_FLAGS OR cst E VM_SOFTDIRTY) = 0 \<and>
      vm_pgoff b = vm_pgoff a + drop_bit (PAGE_SHIFT E) (vm_start b - vm_start a))"

definition reusable_anon_vma ::
  "('t, 'a) mm_env_scheme \<Rightarrow> vm_area_struct \<Rightarrow> vm_area_struct \<Rightarrow> vm_area_struct \<Rightarrow> nat option" where
  "reusable_anon_vma E old a b =
     (if anon_vma_compatible E a b
      then (case anon_vma old of
              Some av \<Rightarrow> if list_is_singular (anon_vma_chain old) then Some av else None
            | None \<Rightarrow> None)
      else None)"

text \<open>
  The first \<open>mas_prev\<close> steps back from \<open>vm_end\<close> onto the mapping itself (the code asserts
  it), the second onto the one before.
\<close>

definition find_mergeable_anon_vma ::
  "('t, 'a) mm_env_scheme \<Rightarrow> 't mm_state \<Rightarrow> vptr \<Rightarrow> nat option" where
  "find_mergeable_anon_vma E s vma =
     (let v = vma_at s vma;
          nxt = mt_load (index E) (tree s) (vm_end v);
          from_next = (case nxt of
              Some n \<Rightarrow> reusable_anon_vma E (vma_at s n) v (vma_at s n)
            | None \<Rightarrow> None)
      in case from_next of
           Some av \<Rightarrow> Some av
         | None \<Rightarrow>
             let (_, i) = mas_prev (index E) (tree s) (vm_end v) 0;
                 (prev, _) = mas_prev (index E) (tree s) i 0
             in case prev of
                  Some p \<Rightarrow> reusable_anon_vma E (vma_at s p) (vma_at s p) v
                | None \<Rightarrow> None)"

section \<open>Write notification\<close>

definition vm_pgprot_modify :: "('t, 'a) mm_env_scheme \<Rightarrow> u64 \<Rightarrow> u64 \<Rightarrow> u64" where
  "vm_pgprot_modify E oldprot flags = pgprot_modify E oldprot (vm_get_page_prot E flags)"

definition vm_ops_needs_writenotify :: "vm_operations_struct option \<Rightarrow> bool" where
  "vm_ops_needs_writenotify ops =
     (case ops of None \<Rightarrow> False | Some ops \<Rightarrow> op_page_mkwrite ops \<or> op_pfn_mkwrite ops)"

definition vma_is_shared_writable :: "('t, 'a) mm_env_scheme \<Rightarrow> vm_area_struct \<Rightarrow> bool" where
  "vma_is_shared_writable E vma \<longleftrightarrow>
     vm_flags vma AND (cst E VM_WRITE OR cst E VM_SHARED) = cst E VM_WRITE OR cst E VM_SHARED"

definition vma_fs_can_writeback :: "('t, 'a) mm_env_scheme \<Rightarrow> vm_area_struct \<Rightarrow> bool" where
  "vma_fs_can_writeback E vma =
     (if flag E vma VM_PFNMAP then False
      else case vm_file vma of
             None \<Rightarrow> False
           | Some f \<Rightarrow> f_mapping E f \<noteq> 0 \<and> mapping_can_writeback E (f_mapping E f))"

definition vma_needs_dirty_tracking :: "('t, 'a) mm_env_scheme \<Rightarrow> vm_area_struct \<Rightarrow> bool" where
  "vma_needs_dirty_tracking E vma =
     (if \<not> vma_is_shared_writable E vma then False
      else if vm_ops_needs_writenotify (vm_ops vma) then True
      else vma_fs_can_writeback E vma)"

definition vma_wants_writenotify :: "('t, 'a) mm_env_scheme \<Rightarrow> vm_area_struct \<Rightarrow> u64 \<Rightarrow> bool" where
  "vma_wants_writenotify E vma page_prot =
     (if \<not> vma_is_shared_writable E vma then False
      else if vm_ops_needs_writenotify (vm_ops vma) then True
      else if page_prot \<noteq> vm_pgprot_modify E page_prot (vm_flags vma) then False
      else if vma_soft_dirty_enabled E vma \<and> \<not> is_vm_hugetlb_page E vma then True
      else if userfaultfd_wp E vma then True
      else vma_fs_can_writeback E vma)"

definition vma_set_page_prot :: "('t, 'a) mm_env_scheme \<Rightarrow> vptr \<Rightarrow> 't mm_state \<Rightarrow> 't mm_state" where
  "vma_set_page_prot E vma s =
     (let v = vma_at s vma;
          flags = vm_flags v;
          page_prot = vm_pgprot_modify E (vm_page_prot v) flags;
          page_prot = (if vma_wants_writenotify E v page_prot
            then vm_pgprot_modify E page_prot (flags AND NOT (cst E VM_SHARED)) else page_prot)
      in put_vma vma (v\<lparr>vm_page_prot := page_prot\<rparr>) s)"

section \<open>File offsets\<close>

text \<open>The page of its file (or of the anonymous numbering) that a mapping shows at an address.\<close>

definition page_at :: "vm_area_struct \<Rightarrow> u64 \<Rightarrow> u64" where
  "page_at v x = vm_pgoff v + drop_bit 12 (x - vm_start v)"

lemma drop_bit_split:
  fixes a b x :: u64
  assumes "b \<le> a" "a \<le> x" "4096 dvd unat (a - b)"
  shows "drop_bit 12 (x - b) = drop_bit 12 (a - b) + drop_bit 12 (x - a)"
proof -
  have u: "unat (x - b) = unat (a - b) + unat (x - a)"
    using assms(1,2) order_trans [OF assms(1,2)] by (simp add: unat_sub word_le_nat_alt)
  obtain q where q: "unat (a - b) = 4096 * q" using assms(3) by (auto elim: dvdE)
  have "unat (drop_bit 12 (x - b)) = unat (drop_bit 12 (a - b)) + unat (drop_bit 12 (x - a))"
    by (simp add: unat_shift_right_12 u q)
  moreover have "\<dots> = unat (drop_bit 12 (a - b) + drop_bit 12 (x - a))"
    using calculation unat_bound64 [of "drop_bit 12 (x - b)"] by (intro unat_add_nowrap [symmetric]) simp
  ultimately show ?thesis by (simp add: word_unat_eq_iff)
qed

lemma dvd_unat_diff:
  fixes a b :: u64
  assumes "b \<le> a" "4096 dvd unat a" "4096 dvd unat b"
  shows "4096 dvd unat (a - b)"
  using assms by (simp add: unat_sub dvd_diff_nat)

lemma page_at_extend:
  assumes "vm_start v \<le> a" "a \<le> x" "4096 dvd unat a" "4096 dvd unat (vm_start v)"
  shows "page_at v x = vm_pgoff v + drop_bit 12 (a - vm_start v) + drop_bit 12 (x - a)"
  using drop_bit_split [OF assms(1,2) dvd_unat_diff [OF assms(1,3,4)]]
  by (simp add: page_at_def add.assoc)

section \<open>Claims\<close>

text \<open>
  C25: merging keeps file offsets.  If a request for \<open>[addr, fin)\<close> at offset \<open>pgoff\<close> can be
  merged after the mapping \<open>v\<close> that ends at \<open>addr\<close>, then extending \<open>v\<close> shows at every new
  address the page the request asked for; if it can be merged before the mapping \<open>w\<close> that
  starts at \<open>fin\<close>, then moving the start of \<open>w\<close> down to \<open>addr\<close> shows the requested pages
  at the new addresses and keeps every page of \<open>w\<close>.  In both cases the file is the same and the
  flags differ at most in \<open>VM_SOFTDIRTY\<close>, and a mapping that may be removed has no \<open>close\<close>.
\<close>

theorem merge_keeps_offsets:
  assumes E: "env_ok E"
    and al: "4096 dvd unat addr" "4096 dvd unat fin" "addr \<le> fin"
  shows "(can_vma_merge_after E v fl av f pgoff u n \<and> vm_end v = addr \<and> vm_start v \<le> addr \<and>
      4096 dvd unat (vm_start v) \<longrightarrow>
      vm_file v = f \<and> (vm_flags v XOR fl) AND NOT (cst E VM_SOFTDIRTY) = 0 \<and>
      (\<forall>x. addr \<le> x \<longrightarrow> page_at v x = pgoff + drop_bit 12 (x - addr))) \<and>
    (can_vma_merge_before E w fl av f (pgoff + drop_bit 12 (fin - addr)) u n \<and> vm_start w = fin \<longrightarrow>
      vm_file w = f \<and> (vm_flags w XOR fl) AND NOT (cst E VM_SOFTDIRTY) = 0 \<and> \<not> has_close w \<and>
      (let w' = w\<lparr>vm_start := addr, vm_pgoff := vm_pgoff w - drop_bit 12 (fin - addr)\<rparr> in
        \<forall>x. addr \<le> x \<longrightarrow> page_at w' x = pgoff + drop_bit 12 (x - addr) \<and>
             (fin \<le> x \<longrightarrow> page_at w' x = page_at w x)))"
proof (intro conjI impI)
  assume h: "can_vma_merge_after E v fl av f pgoff u n \<and> vm_end v = addr \<and> vm_start v \<le> addr \<and>
      4096 dvd unat (vm_start v)"
  then show "vm_file v = f" "(vm_flags v XOR fl) AND NOT (cst E VM_SOFTDIRTY) = 0"
    by (auto simp: can_vma_merge_after_def is_mergeable_vma_def split: if_splits)
  have "vm_pgoff v + drop_bit 12 (addr - vm_start v) = pgoff"
    using h env_pages [OF E, of v] by (auto simp: can_vma_merge_after_def Let_def)
  then show "\<forall>x. addr \<le> x \<longrightarrow> page_at v x = pgoff + drop_bit 12 (x - addr)"
    using page_at_extend [of v addr] h al by auto
next
  assume h: "can_vma_merge_before E w fl av f (pgoff + drop_bit 12 (fin - addr)) u n \<and>
    vm_start w = fin"
  then show "vm_file w = f" "(vm_flags w XOR fl) AND NOT (cst E VM_SOFTDIRTY) = 0" "\<not> has_close w"
    by (auto simp: can_vma_merge_before_def is_mergeable_vma_def split: if_splits)
  obtain d where d: "d = drop_bit 12 (fin - addr)" by blast
  have w: "vm_pgoff w = pgoff + d" "vm_start w = fin"
    using h d by (auto simp: can_vma_merge_before_def)
  have new: "page_at (w\<lparr>vm_start := addr, vm_pgoff := vm_pgoff w - d\<rparr>) x =
        pgoff + drop_bit 12 (x - addr)" for x
    unfolding w page_at_def by simp
  have "drop_bit 12 (x - addr) = d + drop_bit 12 (x - fin)" if "fin \<le> x" for x
    unfolding d by (rule drop_bit_split [OF al(3) that dvd_unat_diff [OF al(3,2,1)]])
  then have "page_at (w\<lparr>vm_start := addr, vm_pgoff := vm_pgoff w - d\<rparr>) x = page_at w x"
    if "fin \<le> x" for x by (subst new) (simp only: page_at_def w add.assoc that)
  with new show "let w' = w\<lparr>vm_start := addr, vm_pgoff := vm_pgoff w - drop_bit 12 (fin - addr)\<rparr> in
        \<forall>x. addr \<le> x \<longrightarrow> page_at w' x = pgoff + drop_bit 12 (x - addr) \<and>
             (fin \<le> x \<longrightarrow> page_at w' x = page_at w x)"
    unfolding Let_def d [symmetric] by blast
qed

theorem merge_keeps_offsets_witness:
  "can_vma_merge_after x86_env demo_heap 0x100073 None None 0x603 0 None \<and>
   page_at demo_heap 0x604000 = 0x604"
proof -
  have m: "can_vma_merge_after x86_env demo_heap 0x100073 None None 0x603 0 None"
    by (simp add: can_vma_merge_after_def is_mergeable_vma_def is_mergeable_anon_vma_def
        list_is_singular_def demo_defs drop_bit_eq_div)
  have "page_at demo_heap 0x604000 = 0x603 + drop_bit 12 (0x604000 - 0x603000)"
    using merge_keeps_offsets [of x86_env "0x603000" "0x605000" demo_heap "0x100073" None None "0x603" 0 None
      demo_heap] m
    by (auto simp: demo_heap_def blank_vma_def)
  with m show ?thesis by (simp add: drop_bit_eq_div)
qed

lemma prev_of_end:
  assumes E: "env_ok E" and wf: "mm_wf (index E) s" and p: "p \<in> mapped (index E) s"
    and m: "mas_prev (index E) (tree s) (vm_end (vma_at s p)) 0 = (r, i)"
  shows "r = Some p \<and> entry_at (index E) s i = Some p"
proof -
  let ?ld = "entry_at (index E) s" and ?v = "vma_at s p"
  note M = env_maple [OF E]
  obtain k where k: "?ld k = Some p" using p by (auto simp: mapped_def)
  note w = mm_wfD [OF wf k]
  have e: "?ld (vm_end ?v) \<noteq> Some p" using w(3) [of "vm_end ?v"] by simp
  have l: "?ld (vm_start ?v) = Some p" "vm_start ?v < vm_end ?v"
    using w(3) [of "vm_start ?v"] w(2) by auto
  show ?thesis
  proof (cases r)
    case None
    have "?ld (vm_start ?v) = None \<or> ?ld (vm_start ?v) = ?ld (vm_end ?v)"
      using prev_None(2) [OF M m [unfolded None] l(2)] by simp
    with l(1) e show ?thesis by simp
  next
    case (Some q)
    note x = prev_Some [OF M m [unfolded Some]]
    have "\<not> i < vm_start ?v" using x(5) [OF _ l(2)] l(1) e by auto
    then have "?ld i = Some p" using w(3) [of i] x(2) by simp
    with x(3) Some show ?thesis by simp
  qed
qed

text \<open>
  C26: an \<open>anon_vma\<close> is shared only between compatible neighbours.  If
  \<open>find_mergeable_anon_vma\<close> returns one for the mapping \<open>p\<close>, it is the \<open>anon_vma\<close> of a
  mapping \<open>q\<close> of the address space other than \<open>p\<close>, whose chain has one element.  Of the two,
  the lower one ends where the upper one starts; they have the same file and equal memory
  policies; their flags differ at most in the access bits, which \<open>mprotect\<close> may change, and
  the soft-dirty bit; and the offset of the upper one is that of the lower one plus the pages
  between their starts.  The step back from the end of \<open>p\<close> finds \<open>p\<close>, as the code asserts.
\<close>

theorem shared_anon_vma_is_compatible:
  assumes E: "env_ok E" and wf: "mm_wf (index E) s" and p: "p \<in> mapped (index E) s"
    and r: "find_mergeable_anon_vma E s p = Some av"
  shows "fst (mas_prev (index E) (tree s) (vm_end (vma_at s p)) 0) = Some p \<and>
    (\<exists>q \<in> mapped (index E) s. q \<noteq> p \<and> anon_vma (vma_at s q) = Some av \<and>
       length (anon_vma_chain (vma_at s q)) = 1 \<and>
       (\<exists>a b. {a, b} = {p, q} \<and> vm_end (vma_at s a) = vm_start (vma_at s b) \<and>
          vm_file (vma_at s a) = vm_file (vma_at s b) \<and>
          mpol_equal E (vm_policy (vma_at s a)) (vm_policy (vma_at s b)) \<and>
          (vm_flags (vma_at s a) XOR vm_flags (vma_at s b)) AND
            NOT (cst E VM_ACCESS_FLAGS OR cst E VM_SOFTDIRTY) = 0 \<and>
          vm_pgoff (vma_at s b) = vm_pgoff (vma_at s a) +
            drop_bit 12 (vm_start (vma_at s b) - vm_start (vma_at s a))))"
proof
  let ?M = "index E" let ?ld = "entry_at ?M s" and ?v = "vma_at s p"
  note M = env_maple [OF E]
  obtain q0 i where m: "mas_prev ?M (tree s) (vm_end ?v) 0 = (q0, i)" by fastforce
  note pe = prev_of_end [OF E wf p m]
  then show "fst (mas_prev ?M (tree s) (vm_end ?v) 0) = Some p" using m by simp
  obtain pr j where m2: "mas_prev ?M (tree s) i 0 = (pr, j)" by fastforce
  have re: "anon_vma (vma_at s q) = Some av \<and> length (anon_vma_chain (vma_at s q)) = 1 \<and>
      anon_vma_compatible E a b"
    if "reusable_anon_vma E (vma_at s q) a b = Some av" for q a b
    using that by (auto simp: reusable_anon_vma_def list_is_singular_def split: if_splits option.splits)
  obtain k where k: "?ld k = Some p" using p by (auto simp: mapped_def)
  from r consider
      q where "?ld (vm_end ?v) = Some q" "reusable_anon_vma E (vma_at s q) ?v (vma_at s q) = Some av"
    | q where "pr = Some q" "reusable_anon_vma E (vma_at s q) (vma_at s q) ?v = Some av"
    by (auto simp: find_mergeable_anon_vma_def Let_def m m2 split: option.splits)
  then have "\<exists>q \<in> mapped ?M s. q \<noteq> p \<and> anon_vma (vma_at s q) = Some av \<and>
       length (anon_vma_chain (vma_at s q)) = 1 \<and>
       (\<exists>a b. {a, b} = {p, q} \<and> anon_vma_compatible E (vma_at s a) (vma_at s b))"
  proof cases
    case (1 q)
    then have "q \<noteq> p" using mm_wfD(3) [OF wf k, of "vm_end ?v"] by auto
    with 1 re [OF 1(2)] show ?thesis
      by (intro bexI [of _ q]) (auto simp: mapped_def)
  next
    case (2 q)
    note x = prev_Some [OF M m2 [unfolded 2(1)]]
    have "q \<noteq> p" using x(4) pe by auto
    moreover have "q \<in> mapped ?M s" using x(3) by (auto simp: mapped_def)
    moreover have "{q, p} = {p, q}" by blast
    ultimately show ?thesis using re [OF 2(2)] by blast
  qed
  then show "\<exists>q \<in> mapped ?M s. q \<noteq> p \<and> anon_vma (vma_at s q) = Some av \<and>
       length (anon_vma_chain (vma_at s q)) = 1 \<and>
       (\<exists>a b. {a, b} = {p, q} \<and> vm_end (vma_at s a) = vm_start (vma_at s b) \<and>
          vm_file (vma_at s a) = vm_file (vma_at s b) \<and>
          mpol_equal E (vm_policy (vma_at s a)) (vm_policy (vma_at s b)) \<and>
          (vm_flags (vma_at s a) XOR vm_flags (vma_at s b)) AND
            NOT (cst E VM_ACCESS_FLAGS OR cst E VM_SOFTDIRTY) = 0 \<and>
          vm_pgoff (vma_at s b) = vm_pgoff (vma_at s a) +
            drop_bit 12 (vm_start (vma_at s b) - vm_start (vma_at s a)))"
    by (simp add: anon_vma_compatible_def hdr_simps(1) [OF env_hdr [OF E]]) blast
qed

theorem shared_anon_vma_is_compatible_witness:
  "find_mergeable_anon_vma x86_env demo_pair 1 = Some 5 \<and>
   (\<exists>q \<in> mapped log_maple demo_pair. q \<noteq> 1 \<and> anon_vma (vma_at demo_pair q) = Some 5)"
proof -
  have r: "find_mergeable_anon_vma x86_env demo_pair 1 = Some 5"
    by (simp add: find_mergeable_anon_vma_def demo_pair_vma demo_pair_load reusable_anon_vma_def
        demo_low_def demo_high_def
        anon_vma_compatible_def list_is_singular_def blank_vma_def Let_def drop_bit_eq_div)
  have "(1 :: vptr) \<in> mapped (index x86_env) demo_pair" by (simp add: demo_pair_mapped)
  from shared_anon_vma_is_compatible [OF _ _ this r] r show ?thesis by auto
qed

text \<open>
  C27: no write to a file goes unnoticed.  A mapping whose dirty state must be tracked is shared,
  writable and has a driver that asked for the notification or a file that is written back;
  and after \<open>vma_set_page_prot\<close> such a mapping has the protection of a private mapping, so
  its first write faults, unless its protection was one that \<open>pgprot_modify\<close> does not keep.
\<close>

theorem dirty_tracking_gets_notified:
  assumes "vma_needs_dirty_tracking E (vma_at s p)"
    and "vm_pgprot_modify E (vm_pgprot_modify E (vm_page_prot (vma_at s p)) (vm_flags (vma_at s p)))
           (vm_flags (vma_at s p)) =
         vm_pgprot_modify E (vm_page_prot (vma_at s p)) (vm_flags (vma_at s p))"
  defines "v \<equiv> vma_at s p"
  shows "vma_is_shared_writable E v \<and>
    (vm_ops_needs_writenotify (vm_ops v) \<or>
     (\<exists>f. vm_file v = Some f \<and> mapping_can_writeback E (f_mapping E f) \<and> \<not> flag E v VM_PFNMAP)) \<and>
    vm_page_prot (vma_at (vma_set_page_prot E p s) p) =
      vm_pgprot_modify E (vm_pgprot_modify E (vm_page_prot v) (vm_flags v))
        (vm_flags v AND NOT (cst E VM_SHARED))"
proof -
  have n: "vma_is_shared_writable E v" "vm_ops_needs_writenotify (vm_ops v) \<or> vma_fs_can_writeback E v"
    using assms(1) by (auto simp: v_def vma_needs_dirty_tracking_def split: if_splits)
  then have "vma_wants_writenotify E v (vm_pgprot_modify E (vm_page_prot v) (vm_flags v))"
    using assms(2) by (auto simp: v_def vma_wants_writenotify_def)
  with n show ?thesis
    by (auto simp: vma_set_page_prot_def Let_def v_def vma_fs_can_writeback_def
        split: if_splits option.splits)
qed

theorem dirty_tracking_gets_notified_witness:
  "vma_needs_dirty_tracking x86_env (demo_text\<lparr>vm_flags := 0xfb\<rparr>) \<and>
   vm_page_prot (vma_at (vma_set_page_prot x86_env 1
     (put_vma 1 (demo_text\<lparr>vm_flags := 0xfb\<rparr>) demo_mms)) 1) = 3"
proof -
  have n: "vma_needs_dirty_tracking x86_env (demo_text\<lparr>vm_flags := 0xfb\<rparr>)"
    by (simp add: vma_needs_dirty_tracking_def vma_is_shared_writable_def demo_defs
        vm_ops_needs_writenotify_def vma_fs_can_writeback_def)
  with dirty_tracking_gets_notified
      [of x86_env "put_vma 1 (demo_text\<lparr>vm_flags := 0xfb\<rparr>) demo_mms" 1]
  show ?thesis by (simp add: vm_pgprot_modify_def)
qed

end
