(* ===== verification/Vma_Ops.thy ===== *)
theory Vma_Ops
  imports Mm_Account Vma_Merge
begin

text \<open>
  Changing mappings: linking a mapping into the address space, preparing and completing a
  change of its boundaries (\<open>vma_prepare\<close>, \<open>vma_complete\<close>), and the four changes built on
  them, \<open>vma_expand\<close>, \<open>vma_shrink\<close>, \<open>split_vma\<close> and \<open>insert_vm_struct\<close>.  Locks, interval
  trees, reference counts and driver callbacks are events of the trace.
\<close>

section \<open>Steps on the state\<close>

definition emits :: "event list \<Rightarrow> 't mm_state \<Rightarrow> 't mm_state" where
  "emits es s = s\<lparr>trace := trace s @ es\<rparr>"

definition upd_vma :: "vptr \<Rightarrow> (vm_area_struct \<Rightarrow> vm_area_struct) \<Rightarrow> 't mm_state \<Rightarrow> 't mm_state" where
  "upd_vma p f s = put_vma p (f (vma_at s p)) s"

definition add_map_count :: "int \<Rightarrow> 't mm_state \<Rightarrow> 't mm_state" where
  "add_map_count n s = upd_mm (\<lambda>mm. mm\<lparr>map_count := map_count mm + n\<rparr>) s"

text \<open>\<open>vma_iter_store\<close>: the mapping becomes the entry of all its addresses.\<close>

definition vma_iter_store :: "('t, 'a) mm_env_scheme \<Rightarrow> vptr \<Rightarrow> 't mm_state \<Rightarrow> 't mm_state" where
  "vma_iter_store E p s =
     upd_mm (\<lambda>mm. mm\<lparr>mm_mt := mt_store (index E) (mm_mt mm)
       (vm_start (vma_at s p)) (vm_end (vma_at s p) - 1) (Some p)\<rparr>) s"

text \<open>\<open>vma_iter_clear\<close> over the range \<open>[a, b)\<close> the iterator was configured for.\<close>

definition vma_iter_clear :: "('t, 'a) mm_env_scheme \<Rightarrow> u64 \<Rightarrow> u64 \<Rightarrow> 't mm_state \<Rightarrow> 't mm_state" where
  "vma_iter_clear E a b s =
     upd_mm (\<lambda>mm. mm\<lparr>mm_mt := mt_store (index E) (mm_mt mm) a (b - 1) None\<rparr>) s"

text \<open>\<open>vm_area_free\<close>: the structure is gone.\<close>

definition vm_area_free :: "vptr \<Rightarrow> 't mm_state \<Rightarrow> 't mm_state" where
  "vm_area_free p s = emit (Free (Vma_obj p)) (s\<lparr>vmas := (vmas s)(p := None)\<rparr>)"

section \<open>Files and closing\<close>

definition remove_shared_vm_struct ::
  "('t, 'a) mm_env_scheme \<Rightarrow> vptr \<Rightarrow> nat \<Rightarrow> 't mm_state \<Rightarrow> 't mm_state" where
  "remove_shared_vm_struct E vma mapping s =
     (let s = (if vma_is_shared_maywrite E (vma_at s vma) then emit (Unmap_writable mapping) s else s)
      in emits [Lock (Flush_dcache mapping), I_mmap_remove mapping vma,
           Unlock (Flush_dcache mapping)] s)"

definition unlink_file_vma :: "('t, 'a) mm_env_scheme \<Rightarrow> vptr \<Rightarrow> 't mm_state \<Rightarrow> 't mm_state" where
  "unlink_file_vma E vma s =
     (case vm_file (vma_at s vma) of
        None \<Rightarrow> s
      | Some file \<Rightarrow>
          let mapping = f_mapping E file in
          emit (Unlock (I_mmap_rwsem mapping))
            (remove_shared_vm_struct E vma mapping (emit (Lock (I_mmap_rwsem mapping)) s)))"

text \<open>\<open>unreachable\<close> chooses between \<open>__vm_area_free\<close> and \<open>vm_area_free\<close>; both free it.\<close>

definition remove_vma :: "vptr \<Rightarrow> bool \<Rightarrow> 't mm_state \<Rightarrow> 't mm_state" where
  "remove_vma vma unreachable s =
     (let v = vma_at s vma;
          s = (if has_close v then emit (Vma_close vma) s else s);
          s = (case vm_file v of Some f \<Rightarrow> emit (Put_file f) s | None \<Rightarrow> s);
          s = emit (Put_policy (vm_policy v)) s
      in if unreachable then vm_area_free vma s else vm_area_free vma s)"

definition anon_vma_interval_tree_pre_update_vma :: "vptr \<Rightarrow> 't mm_state \<Rightarrow> 't mm_state" where
  "anon_vma_interval_tree_pre_update_vma vma s =
     emits (map (Anon_remove vma) (anon_vma_chain (vma_at s vma))) s"

definition anon_vma_interval_tree_post_update_vma :: "vptr \<Rightarrow> 't mm_state \<Rightarrow> 't mm_state" where
  "anon_vma_interval_tree_post_update_vma vma s =
     emits (map (Anon_insert vma) (anon_vma_chain (vma_at s vma))) s"

definition vma_link_file ::
  "('t, 'a) mm_env_scheme \<Rightarrow> vptr \<Rightarrow> nat \<Rightarrow> 't mm_state \<Rightarrow> 't mm_state" where
  "vma_link_file E vma mapping s =
     (let s = (if vma_is_shared_maywrite E (vma_at s vma) then emit (Allow_writable mapping) s else s)
      in emits [Lock (Flush_dcache mapping), I_mmap_insert mapping vma,
           Unlock (Flush_dcache mapping)] s)"

definition vma_link ::
  "('t, 'a) mm_env_scheme \<Rightarrow> vptr \<Rightarrow> 't mm_state \<Rightarrow> (errno + unit) \<times> 't mm_state" where
  "vma_link E vma s =
     (if prealloc_fails E s then (Inl ENOMEM, s)
      else
        let s = emit (Vma_write vma) s;
            s = vma_iter_store E vma s;
            s = (case vm_file (vma_at s vma) of
                None \<Rightarrow> s
              | Some f \<Rightarrow>
                  let mapping = f_mapping E f in
                  emit (Unlock (I_mmap_rwsem mapping))
                    (vma_link_file E vma mapping (emit (Lock (I_mmap_rwsem mapping)) s)))
        in (Inr (), add_map_count 1 s))"

section \<open>Preparing and completing a change\<close>

record vma_prepare =
  vp_vma :: vptr
  vp_adj_next :: "vptr option"
  vp_file :: "fptr option"
  vp_mapping :: nat
  vp_anon_vma :: "nat option"
  vp_insert :: "vptr option"
  vp_remove :: "vptr option"
  vp_remove2 :: "vptr option"

definition init_multi_vma_prep ::
  "('t, 'a) mm_env_scheme \<Rightarrow> 't mm_state \<Rightarrow> vptr \<Rightarrow> vptr option \<Rightarrow> vptr option \<Rightarrow> vptr option \<Rightarrow>
     vma_prepare" where
  "init_multi_vma_prep E s vma nxt remove remove2 =
     \<lparr>vp_vma = vma, vp_adj_next = nxt, vp_file = vm_file (vma_at s vma),
      vp_mapping = (case vm_file (vma_at s vma) of Some f \<Rightarrow> f_mapping E f | None \<Rightarrow> 0),
      vp_anon_vma =
        (case anon_vma (vma_at s vma) of
           Some av \<Rightarrow> Some av
         | None \<Rightarrow> (case nxt of Some n \<Rightarrow> anon_vma (vma_at s n) | None \<Rightarrow> None)),
      vp_insert = None, vp_remove = remove, vp_remove2 = remove2\<rparr>"

definition init_vma_prep :: "('t, 'a) mm_env_scheme \<Rightarrow> 't mm_state \<Rightarrow> vptr \<Rightarrow> vma_prepare" where
  "init_vma_prep E s vma = init_multi_vma_prep E s vma None None None"

definition uprobe_munmap :: "vptr \<Rightarrow> 't mm_state \<Rightarrow> 't mm_state" where
  "uprobe_munmap p s = emit (Uprobe_munmap p (vm_start (vma_at s p)) (vm_end (vma_at s p))) s"

text \<open>Applied to a pointer that may be NULL.\<close>

definition opt_do :: "'b option \<Rightarrow> ('b \<Rightarrow> 's \<Rightarrow> 's) \<Rightarrow> 's \<Rightarrow> 's" where
  "opt_do x f s = (case x of None \<Rightarrow> s | Some y \<Rightarrow> f y s)"

text \<open>\<open>vma_prepare\<close> in its three blocks: the file's locks, the \<open>anon_vma\<close>, the cache lock.\<close>

definition prepare_file :: "('t, 'a) mm_env_scheme \<Rightarrow> vma_prepare \<Rightarrow> 't mm_state \<Rightarrow> 't mm_state" where
  "prepare_file E vp s =
     (if vp_file vp \<noteq> None then
        let s = uprobe_munmap (vp_vma vp) s;
            s = opt_do (vp_adj_next vp) uprobe_munmap s;
            s = emit (Lock (I_mmap_rwsem (vp_mapping vp))) s
        in opt_do (vp_insert vp) (\<lambda>ins s.
             case vm_file (vma_at s ins) of
               None \<Rightarrow> s
             | Some f \<Rightarrow> vma_link_file E ins (f_mapping E f) s) s
      else s)"

definition prepare_anon :: "vma_prepare \<Rightarrow> 't mm_state \<Rightarrow> 't mm_state" where
  "prepare_anon vp s =
     (case vp_anon_vma vp of
        None \<Rightarrow> s
      | Some av \<Rightarrow>
          let s = emit (Lock (Anon_vma_lock av)) s;
              s = anon_vma_interval_tree_pre_update_vma (vp_vma vp) s
          in opt_do (vp_adj_next vp) anon_vma_interval_tree_pre_update_vma s)"

definition prepare_flush :: "vma_prepare \<Rightarrow> 't mm_state \<Rightarrow> 't mm_state" where
  "prepare_flush vp s =
     (if vp_file vp \<noteq> None then
        let s = emits [Lock (Flush_dcache (vp_mapping vp)), I_mmap_remove (vp_mapping vp) (vp_vma vp)] s
        in opt_do (vp_adj_next vp) (\<lambda>n. emit (I_mmap_remove (vp_mapping vp) n)) s
      else s)"

definition do_vma_prepare :: "('t, 'a) mm_env_scheme \<Rightarrow> vma_prepare \<Rightarrow> 't mm_state \<Rightarrow> 't mm_state" where
  "do_vma_prepare E vp s = prepare_flush vp (prepare_anon vp (prepare_file E vp s))"

text \<open>One round of the loop at \<open>again\<close>: the mapping \<open>r\<close> is removed.\<close>

definition complete_remove :: "vma_prepare \<Rightarrow> vptr \<Rightarrow> 't mm_state \<Rightarrow> 't mm_state" where
  "complete_remove vp r s =
     (let v = vma_at s r;
          s = emit (Vma_detached r True) s;
          s = (case vp_file vp of
                 None \<Rightarrow> s
               | Some f \<Rightarrow> emit (Put_file f) (uprobe_munmap r s));
          s = (if anon_vma v \<noteq> None then emit (Anon_merge (vp_vma vp) r) s else s);
          s = add_map_count (- 1) s;
          s = emit (Put_policy (vm_policy v)) s
      in vm_area_free r s)"

text \<open>\<open>vma_complete\<close> in its blocks, in the order of the code.\<close>

definition complete_flush :: "vma_prepare \<Rightarrow> 't mm_state \<Rightarrow> 't mm_state" where
  "complete_flush vp s =
     (if vp_file vp \<noteq> None then
        let s = opt_do (vp_adj_next vp) (\<lambda>n. emit (I_mmap_insert (vp_mapping vp) n)) s
        in emits [I_mmap_insert (vp_mapping vp) (vp_vma vp), Unlock (Flush_dcache (vp_mapping vp))] s
      else s)"

definition complete_links :: "('t, 'a) mm_env_scheme \<Rightarrow> vma_prepare \<Rightarrow> 't mm_state \<Rightarrow> 't mm_state" where
  "complete_links E vp s =
     (if vp_remove vp \<noteq> None \<and> vp_file vp \<noteq> None then
        opt_do (vp_remove2 vp) (\<lambda>r. remove_shared_vm_struct E r (vp_mapping vp))
          (opt_do (vp_remove vp) (\<lambda>r. remove_shared_vm_struct E r (vp_mapping vp)) s)
      else opt_do (vp_insert vp) (\<lambda>ins s. add_map_count 1 (vma_iter_store E ins s)) s)"

definition complete_anon :: "vma_prepare \<Rightarrow> 't mm_state \<Rightarrow> 't mm_state" where
  "complete_anon vp s =
     (case vp_anon_vma vp of
        None \<Rightarrow> s
      | Some av \<Rightarrow>
          let s = anon_vma_interval_tree_post_update_vma (vp_vma vp) s;
              s = opt_do (vp_adj_next vp) anon_vma_interval_tree_post_update_vma s
          in emit (Unlock (Anon_vma_lock av)) s)"

definition complete_file :: "vma_prepare \<Rightarrow> 't mm_state \<Rightarrow> 't mm_state" where
  "complete_file vp s =
     (if vp_file vp \<noteq> None then
        let s = emits [Unlock (I_mmap_rwsem (vp_mapping vp)), Uprobe_mmap (vp_vma vp)] s
        in opt_do (vp_adj_next vp) (\<lambda>n. emit (Uprobe_mmap n)) s
      else s)"

definition complete_removes :: "vma_prepare \<Rightarrow> 't mm_state \<Rightarrow> 't mm_state" where
  "complete_removes vp s =
     (case vp_remove vp of
        None \<Rightarrow> s
      | Some r \<Rightarrow> opt_do (vp_remove2 vp) (complete_remove vp) (complete_remove vp r s))"

definition vma_complete :: "('t, 'a) mm_env_scheme \<Rightarrow> vma_prepare \<Rightarrow> 't mm_state \<Rightarrow> 't mm_state" where
  "vma_complete E vp s =
     (let s = complete_flush vp s;
          s = complete_links E vp s;
          s = complete_anon vp s;
          s = complete_file vp s;
          s = complete_removes vp s
      in if vp_insert vp \<noteq> None \<and> vp_file vp \<noteq> None
         then opt_do (vp_insert vp) (\<lambda>ins. emit (Uprobe_mmap ins)) s else s)"

section \<open>Expanding and shrinking\<close>

text \<open>
  The results: an error, or success; and whether the destination got the copy (\<open>*dup\<close>).
\<close>

definition dup_anon_vma ::
  "('t, 'a) mm_env_scheme \<Rightarrow> vptr \<Rightarrow> vptr \<Rightarrow> 't mm_state \<Rightarrow> (errno + bool) \<times> 't mm_state" where
  "dup_anon_vma E dst src s =
     (if anon_vma (vma_at s src) \<noteq> None \<and> anon_vma (vma_at s dst) = None then
        let s = upd_vma dst (\<lambda>v. v\<lparr>anon_vma := anon_vma (vma_at s src)\<rparr>) s;
            (ret, av, chain) = anon_vma_clone E s dst src;
            s = emit (Anon_clone dst src) (upd_vma dst (\<lambda>v. v\<lparr>anon_vma := av, anon_vma_chain := chain\<rparr>) s)
        in (case ret of
              Some e \<Rightarrow> (Inl e, s)
            | None \<Rightarrow> (Inr True, s))
      else (Inr False, s))"

definition do_unlink_anon_vmas :: "('t, 'a) mm_env_scheme \<Rightarrow> vptr \<Rightarrow> 't mm_state \<Rightarrow> 't mm_state" where
  "do_unlink_anon_vmas E p s =
     (let (av, chain) = unlink_anon_vmas E s p
      in emit (Anon_unlink p) (upd_vma p (\<lambda>v. v\<lparr>anon_vma := av, anon_vma_chain := chain\<rparr>) s))"

definition vma_expand ::
  "('t, 'a) mm_env_scheme \<Rightarrow> vptr \<Rightarrow> u64 \<Rightarrow> u64 \<Rightarrow> u64 \<Rightarrow> vptr option \<Rightarrow> 't mm_state \<Rightarrow>
     (errno + unit) \<times> 't mm_state" where
  "vma_expand E vma start fin pgoff nxt s =
     (let s = emit (Vma_write vma) s;
          remove = (case nxt of
              None \<Rightarrow> None
            | Some n \<Rightarrow> if vma \<noteq> n \<and> fin = vm_end (vma_at s n) then Some n else None);
          (ret, s) = (case remove of
              None \<Rightarrow> (Inr False, s)
            | Some n \<Rightarrow> dup_anon_vma E vma n (emit (Vma_write n) s))
      in case ret of
           Inl e \<Rightarrow> (Inl e, s)
         | Inr anon_dup \<Rightarrow>
             let vp = init_multi_vma_prep E s vma None remove None in
             if prealloc_fails E s then
               (Inl ENOMEM, if anon_dup then do_unlink_anon_vmas E vma s else s)
             else
               let s = do_vma_prepare E vp s;
                   s = emit (Trans_huge vma start fin 0) s;
                   s = upd_vma vma (\<lambda>v. v\<lparr>vm_start := start, vm_end := fin, vm_pgoff := pgoff\<rparr>) s;
                   s = vma_iter_store E vma s
               in (Inr (), vma_complete E vp s))"

definition vma_shrink ::
  "('t, 'a) mm_env_scheme \<Rightarrow> vptr \<Rightarrow> u64 \<Rightarrow> u64 \<Rightarrow> u64 \<Rightarrow> 't mm_state \<Rightarrow>
     (errno + unit) \<times> 't mm_state" where
  "vma_shrink E vma start fin pgoff s =
     (let v = vma_at s vma;
          (a, b) = (if vm_start v < start then (vm_start v, start) else (fin, vm_end v))
      in if prealloc_fails E s then (Inl ENOMEM, s)
         else
           let s = emit (Vma_write vma) s;
               vp = init_vma_prep E s vma;
               s = do_vma_prepare E vp s;
               s = emit (Trans_huge vma start fin 0) s;
               s = vma_iter_clear E a b s;
               s = upd_vma vma (\<lambda>v. v\<lparr>vm_start := start, vm_end := fin, vm_pgoff := pgoff\<rparr>) s
           in (Inr (), vma_complete E vp s))"

section \<open>Splitting\<close>

text \<open>
  \<open>__split_vma\<close>.  The copy \<open>new\<close> lies below or above the address; the driver may refuse
  (\<open>may_split\<close>), and every later failure frees the copy again.
\<close>

definition driver_may_split ::
  "('t, 'a) mm_env_scheme \<Rightarrow> 't mm_state \<Rightarrow> vptr \<Rightarrow> u64 \<Rightarrow> errno option" where
  "driver_may_split E s vma addr =
     (case vm_ops (vma_at s vma) of
        None \<Rightarrow> None
      | Some ops \<Rightarrow> if op_may_split ops then may_split E s vma addr else None)"

definition split_copy :: "('t, 'a) mm_env_scheme \<Rightarrow> vm_area_struct \<Rightarrow> u64 \<Rightarrow> bool \<Rightarrow> vm_area_struct" where
  "split_copy E v addr new_below =
     (if new_below then v\<lparr>vm_end := addr\<rparr>
      else v\<lparr>vm_start := addr, vm_pgoff := vm_pgoff v + drop_bit (PAGE_SHIFT E) (addr - vm_start v)\<rparr>)"

definition split_finish ::
  "('t, 'a) mm_env_scheme \<Rightarrow> vptr \<Rightarrow> u64 \<Rightarrow> bool \<Rightarrow> vptr \<Rightarrow> 't mm_state \<Rightarrow> 't mm_state" where
  "split_finish E vma addr new_below new s =
     (let s = (case vm_file (vma_at s new) of Some f \<Rightarrow> emit (Get_file f) s | None \<Rightarrow> s);
          s = (case vm_ops (vma_at s new) of
                 Some ops \<Rightarrow> if op_open ops then emit (Vma_open new) s else s
               | None \<Rightarrow> s);
          s = emits [Vma_write vma, Vma_write new] s;
          vp = (init_vma_prep E s vma)\<lparr>vp_insert := Some new\<rparr>;
          s = do_vma_prepare E vp s;
          s = emit (Trans_huge vma (vm_start (vma_at s vma)) addr 0) s;
          s = (if new_below
               then upd_vma vma (\<lambda>v. v\<lparr>vm_start := addr,
                      vm_pgoff := vm_pgoff v + drop_bit (PAGE_SHIFT E) (addr - vm_start (vma_at s new))\<rparr>) s
               else upd_vma vma (\<lambda>v. v\<lparr>vm_end := addr\<rparr>) s)
      in vma_complete E vp s)"

definition split_vma_nocheck ::
  "('t, 'a) mm_env_scheme \<Rightarrow> vptr \<Rightarrow> u64 \<Rightarrow> bool \<Rightarrow> 't mm_state \<Rightarrow> (errno + unit) \<times> 't mm_state" where
  "split_vma_nocheck E vma addr new_below s =
     (case driver_may_split E s vma addr of
        Some e \<Rightarrow> (Inl e, s)
      | None \<Rightarrow>
          (case vma_alloc E s of
             None \<Rightarrow> (Inl ENOMEM, s)
           | Some new \<Rightarrow>
               let s = emit (Alloc (Vma_obj new)) (put_vma new (split_copy E (vma_at s vma) addr new_below) s)
               in if prealloc_fails E s then (Inl ENOMEM, vm_area_free new s)
                  else
                    (case vma_dup_policy E s vma of
                       Inl e \<Rightarrow> (Inl e, vm_area_free new s)
                     | Inr pol \<Rightarrow>
                         let s = upd_vma new (\<lambda>v. v\<lparr>vm_policy := pol\<rparr>) s;
                             (ret, av, chain) = anon_vma_clone E s new vma;
                             s = emit (Anon_clone new vma)
                                   (upd_vma new (\<lambda>v. v\<lparr>anon_vma := av, anon_vma_chain := chain\<rparr>) s)
                         in (case ret of
                               Some e \<Rightarrow> (Inl e, vm_area_free new (emit (Put_policy (vm_policy (vma_at s new))) s))
                             | None \<Rightarrow> (Inr (), split_finish E vma addr new_below new s)))))"

definition split_vma ::
  "('t, 'a) mm_env_scheme \<Rightarrow> vptr \<Rightarrow> u64 \<Rightarrow> bool \<Rightarrow> 't mm_state \<Rightarrow> (errno + unit) \<times> 't mm_state" where
  "split_vma E vma addr new_below s =
     (if sysctl_max_map_count E \<le> map_count (cur_mm s) then (Inl ENOMEM, s)
      else split_vma_nocheck E vma addr new_below s)"

section \<open>Inserting\<close>

text \<open>\<open>insert_vm_struct\<close>; an anonymous mapping that already has an \<open>anon_vma\<close> is a BUG.\<close>

definition insert_vm_struct ::
  "('t, 'a) mm_env_scheme \<Rightarrow> vptr \<Rightarrow> 't mm_state \<Rightarrow> ((errno + unit) \<times> 't mm_state) outcome" where
  "insert_vm_struct E vma s =
     (let v = vma_at s vma; charged = vma_pages E v in
      if find_vma_intersection E s (vm_start v) (vm_end v) \<noteq> None then Done (Inl ENOMEM, s)
      else
        let account = flag E v VM_ACCOUNT;
            (no, s) = (if account then charge_memory E charged s else (False, s))
        in if no then Done (Inl ENOMEM, s)
           else if vma_is_anonymous E v \<and> anon_vma v \<noteq> None then Oops
           else
             let s = (if vma_is_anonymous E v
                      then upd_vma vma (\<lambda>v. v\<lparr>vm_pgoff := drop_bit (PAGE_SHIFT E) (vm_start v)\<rparr>) s
                      else s)
             in (case vma_link E vma s of
                   (Inl _, s) \<Rightarrow> Done (Inl ENOMEM, if account then emit (Unacct charged) s else s)
                 | (Inr _, s) \<Rightarrow> Done (Inr (), s)))"

section \<open>What the steps do to the mappings and the index\<close>

text \<open>Two states with the same mappings and the same \<open>mm_struct\<close>: they differ in the trace.\<close>

definition same_mm :: "'t mm_state \<Rightarrow> 't mm_state \<Rightarrow> bool" where
  "same_mm s t \<longleftrightarrow> vmas s = vmas t \<and> cur_mm s = cur_mm t \<and> memory_list s = memory_list t"

lemma same_mm_refl [simp]: "same_mm s s"
  by (simp add: same_mm_def)

lemma same_mm_trans [trans]: "same_mm r s \<Longrightarrow> same_mm s t \<Longrightarrow> same_mm r t"
  by (simp add: same_mm_def)

lemma same_mmD:
  "same_mm s t \<Longrightarrow> vmas s = vmas t" "same_mm s t \<Longrightarrow> cur_mm s = cur_mm t"
  "same_mm s t \<Longrightarrow> vma_at s = vma_at t"
  by (auto simp: same_mm_def vma_at_def fun_eq_iff)

lemma emit_same [simp]: "same_mm (emit e s) t \<longleftrightarrow> same_mm s t"
  by (simp add: same_mm_def emit_def)

lemma emits_same [simp]: "same_mm (emits es s) t \<longleftrightarrow> same_mm s t"
  by (simp add: same_mm_def emits_def)

lemma opt_do_same:
  "(\<And>y u. same_mm (f y u) u) \<Longrightarrow> same_mm (opt_do x f s) s"
  by (simp add: opt_do_def split: option.split)

lemma opt_do_same':
  assumes "same_mm s t" and "\<And>y u. same_mm (f y u) u"
  shows "same_mm (opt_do x f s) t"
  using same_mm_trans [OF opt_do_same [of f, OF assms(2)] assms(1)] .

lemma uprobe_munmap_same [simp]: "same_mm (uprobe_munmap p s) t \<longleftrightarrow> same_mm s t"
  by (simp add: uprobe_munmap_def)

lemma vma_link_file_same [simp]: "same_mm (vma_link_file E p m s) t \<longleftrightarrow> same_mm s t"
  by (simp add: vma_link_file_def Let_def)

lemma remove_shared_same [simp]: "same_mm (remove_shared_vm_struct E p m s) t \<longleftrightarrow> same_mm s t"
  by (simp add: remove_shared_vm_struct_def Let_def)

lemma anon_update_same [simp]:
  "same_mm (anon_vma_interval_tree_pre_update_vma p s) t \<longleftrightarrow> same_mm s t"
  "same_mm (anon_vma_interval_tree_post_update_vma p s) t \<longleftrightarrow> same_mm s t"
  by (simp_all add: anon_vma_interval_tree_pre_update_vma_def
      anon_vma_interval_tree_post_update_vma_def)

lemma do_vma_prepare_same: "same_mm (do_vma_prepare E vp s) s"
  by (auto simp: do_vma_prepare_def prepare_file_def prepare_anon_def prepare_flush_def Let_def
      intro!: opt_do_same' split: option.splits)

text \<open>Completing without a removal only links the inserted mapping, if there is one.\<close>

lemma vma_complete_no_remove:
  assumes "vp_remove vp = None"
  shows "same_mm (vma_complete E vp s)
    (opt_do (vp_insert vp) (\<lambda>ins s. add_map_count 1 (vma_iter_store E ins s)) s)"
proof -
  have ins: "same_mm (opt_do x (\<lambda>ins s. add_map_count 1 (vma_iter_store E ins s)) u)
      (opt_do x (\<lambda>ins s. add_map_count 1 (vma_iter_store E ins s)) s)"
    if "same_mm u s" for u x
    using that same_mmD [OF that] by (cases x)
      (auto simp: opt_do_def same_mm_def add_map_count_def vma_iter_store_def upd_mm_def)
  show ?thesis
    using assms unfolding vma_complete_def Let_def complete_flush_def complete_links_def
      complete_anon_def complete_file_def complete_removes_def
    by (auto intro!: opt_do_same' ins split: option.splits)
qed

lemma vma_complete_plain:
  "vp_remove vp = None \<Longrightarrow> vp_insert vp = None \<Longrightarrow> same_mm (vma_complete E vp s) s"
  using vma_complete_no_remove [of vp E s] by (simp add: opt_do_def)

lemma vma_complete_insert:
  "vp_remove vp = None \<Longrightarrow> vp_insert vp = Some p \<Longrightarrow>
     same_mm (vma_complete E vp s) (add_map_count 1 (vma_iter_store E p s))"
  using vma_complete_no_remove [of vp E s] by (simp add: opt_do_def)

lemma complete_remove_state:
  "vmas (complete_remove vp r s) = (vmas s)(r := None)"
  "cur_mm (complete_remove vp r s) = (cur_mm s)\<lparr>map_count := map_count (cur_mm s) - 1\<rparr>"
  "memory_list (complete_remove vp r s) = memory_list s"
  by (simp_all add: complete_remove_def Let_def vm_area_free_def add_map_count_def uprobe_munmap_def
      split: option.split)

text \<open>Completing with one removal drops that mapping.\<close>

lemma vma_complete_remove:
  assumes "vp_remove vp = Some r" "vp_remove2 vp = None" "vp_insert vp = None"
  shows "vmas (vma_complete E vp s) = (vmas s)(r := None)"
    "cur_mm (vma_complete E vp s) = (cur_mm s)\<lparr>map_count := map_count (cur_mm s) - 1\<rparr>"
    "memory_list (vma_complete E vp s) = memory_list s"
proof -
  have "\<exists>u. same_mm u s \<and> vma_complete E vp s = complete_remove vp r u"
    using assms unfolding vma_complete_def Let_def complete_flush_def complete_links_def
      complete_anon_def complete_file_def complete_removes_def
    by (auto simp: opt_do_def intro!: opt_do_same' exI split: option.splits)
  then obtain u where "same_mm u s" "vma_complete E vp s = complete_remove vp r u" by blast
  then show "vmas (vma_complete E vp s) = (vmas s)(r := None)"
    "cur_mm (vma_complete E vp s) = (cur_mm s)\<lparr>map_count := map_count (cur_mm s) - 1\<rparr>"
    "memory_list (vma_complete E vp s) = memory_list s"
    by (simp_all only: complete_remove_state same_mm_def)
qed

end
