(* ===== verification/Vma_Spec.thy ===== *)
theory Vma_Spec
  imports Vma_Ops
begin

text \<open>
  The abstract address space and the refinement of the operations of \<open>Vma_Ops\<close> to it.
  \<open>view\<close> is what a process sees: for each address, whether it is mapped, and then the file,
  the page, the flags and the protection.  \<open>mm_ok\<close> is the invariant of the memory manager.
\<close>

section \<open>The invariant and the abstract address space\<close>

definition mm_ok :: "('t, 'a) mm_env_scheme \<Rightarrow> 't mm_state \<Rightarrow> bool" where
  "mm_ok E s \<longleftrightarrow>
     mm_wf (index E) s \<and> count_ok (index E) s \<and> vmas_aligned (index E) s"

type_synonym content = "fptr option \<times> u64 \<times> u64 \<times> u64"

definition content :: "vm_area_struct \<Rightarrow> u64 \<Rightarrow> content" where
  "content v x = (vm_file v, page_at v x, vm_flags v, vm_page_prot v)"

definition view :: "('t, 'a) mm_env_scheme \<Rightarrow> 't mm_state \<Rightarrow> u64 \<Rightarrow> content option" where
  "view E s x = map_option (\<lambda>p. content (vma_at s p) x) (entry_at (index E) s x)"

lemma mm_okD:
  assumes "mm_ok E s"
  shows mm_ok_wf: "mm_wf (index E) s" and mm_ok_count: "count_ok (index E) s"
    and mm_ok_aligned: "vmas_aligned (index E) s"
  using assms by (auto simp: mm_ok_def)

lemma mm_ok_same: "same_mm s t \<Longrightarrow> mm_ok E s \<longleftrightarrow> mm_ok E t"
  using same_mmD [of s t]
  by (simp add: mm_ok_def mm_wf_def count_ok_def vmas_aligned_def mapped_def)

lemma view_same: "same_mm s t \<Longrightarrow> view E s = view E t"
  using same_mmD [of s t] by (simp add: view_def fun_eq_iff)

lemma mapped_extent:
  assumes "mm_wf M s" "p \<in> mapped M s"
  shows "vmas s p = Some (vma_at s p)" "vm_start (vma_at s p) < vm_end (vma_at s p)"
    "entry_at M s k = Some p \<longleftrightarrow> vm_start (vma_at s p) \<le> k \<and> k < vm_end (vma_at s p)"
proof -
  obtain i where i: "entry_at M s i = Some p" using assms(2) by (auto simp: mapped_def)
  show "vmas s p = Some (vma_at s p)" "vm_start (vma_at s p) < vm_end (vma_at s p)"
    "entry_at M s k = Some p \<longleftrightarrow> vm_start (vma_at s p) \<le> k \<and> k < vm_end (vma_at s p)"
    by (rule mm_wfD [OF assms(1) i])+
qed

text \<open>
  Storing an entry.  \<open>p\<close> becomes the entry of \<open>[vm_start v, vm_end v)\<close>, which contains all
  of its former addresses and of the mappings \<open>R\<close>, and meets no other mapping.
\<close>

lemma store_wf:
  assumes wf: "mm_wf M s"
    and e: "\<And>k. entry_at M t k = (if vm_start v \<le> k \<and> k < vm_end v then Some p else entry_at M s k)"
    and v: "vmas t p = Some v" "vm_start v < vm_end v"
    and hit: "\<And>k q. vm_start v \<le> k \<Longrightarrow> k < vm_end v \<Longrightarrow> entry_at M s k = Some q \<Longrightarrow> q = p \<or> q \<in> R"
    and cov: "\<And>k q. entry_at M s k = Some q \<Longrightarrow> q = p \<or> q \<in> R \<Longrightarrow> vm_start v \<le> k \<and> k < vm_end v"
    and oth: "\<And>q. q \<in> mapped M s \<Longrightarrow> q \<noteq> p \<Longrightarrow> q \<notin> R \<Longrightarrow> vmas t q = vmas s q"
  shows "mm_wf M t" and "mapped M t = insert p (mapped M s - R)"
proof -
  have p: "entry_at M t k = Some p \<longleftrightarrow> vm_start v \<le> k \<and> k < vm_end v" for k
    using cov by (auto simp: e)
  have q: "entry_at M t k = Some q \<longleftrightarrow> entry_at M s k = Some q \<and> q \<notin> R" if "q \<noteq> p" for q k
    using that hit cov by (auto simp: e)
  have pm: "p \<in> mapped M t" unfolding mapped_def using p [of "vm_start v"] v(2) by auto
  then show "mapped M t = insert p (mapped M s - R)"
    using q p by (auto simp: mapped_def) (metis option.inject)+
  show "mm_wf M t"
    unfolding mm_wf_def
  proof (intro allI impI)
    fix i r assume r: "entry_at M t i = Some r"
    show "\<exists>v. vmas t r = Some v \<and> vm_start v < vm_end v \<and>
        (\<forall>k. (entry_at M t k = Some r) = (vm_start v \<le> k \<and> k < vm_end v))"
    proof (cases "r = p")
      case True
      with p v show ?thesis by auto
    next
      case False
      with r q have s: "entry_at M s i = Some r" "r \<notin> R" by auto
      then have "vmas t r = Some (vma_at s r)"
        using oth [of r] False mm_wfD(1) [OF wf s(1)] by (auto simp: mapped_def)
      with mm_wfD(2,3) [OF wf s(1)] q [OF False] s(2) show ?thesis by auto
    qed
  qed
qed

section \<open>Splitting\<close>

text \<open>What is left of a mapping that a split at \<open>addr\<close> cuts, and its copy.\<close>

definition split_rest :: "vm_area_struct \<Rightarrow> u64 \<Rightarrow> bool \<Rightarrow> vm_area_struct" where
  "split_rest v addr new_below =
     (if new_below then v\<lparr>vm_start := addr, vm_pgoff := vm_pgoff v + drop_bit 12 (addr - vm_start v)\<rparr>
      else v\<lparr>vm_end := addr\<rparr>)"

lemma split_finish_state:
  fixes E :: "('t, 'a) mm_env_scheme" and s :: "'t mm_state"
  assumes "new \<noteq> vma" and "PAGE_SHIFT E = 12" and "new_below \<longrightarrow> vm_start (vma_at s new) = vm_start (vma_at s vma)"
  shows "vmas (split_finish E vma addr new_below new s) =
      (vmas s)(vma \<mapsto> split_rest (vma_at s vma) addr new_below)"
    and "cur_mm (split_finish E vma addr new_below new s) =
      (cur_mm s)\<lparr>mm_mt := mt_store (index E) (tree s) (vm_start (vma_at s new)) (vm_end (vma_at s new) - 1) (Some new),
         map_count := map_count (cur_mm s) + 1\<rparr>"
proof -
  define vp where "vp = (\<lambda>u. (init_vma_prep E u vma)\<lparr>vp_insert := Some new\<rparr>)"
  define cut where "cut = (\<lambda>u :: 't mm_state. upd_vma vma (\<lambda>v. split_rest v addr new_below) u)"
  obtain u w where u: "same_mm u s" and f: "split_finish E vma addr new_below new s =
      vma_complete E (vp w) (if new_below
               then upd_vma vma (\<lambda>v. v\<lparr>vm_start := addr,
                      vm_pgoff := vm_pgoff v + drop_bit (PAGE_SHIFT E) (addr - vm_start (vma_at u new))\<rparr>) u
               else upd_vma vma (\<lambda>v. v\<lparr>vm_end := addr\<rparr>) u)"
  proof -
    let ?a = "case vm_file (vma_at s new) of Some f \<Rightarrow> emit (Get_file f) s | None \<Rightarrow> s"
    let ?b = "case vm_ops (vma_at ?a new) of Some ops \<Rightarrow> if op_open ops then emit (Vma_open new) ?a else ?a
               | None \<Rightarrow> ?a"
    let ?c = "emits [Vma_write vma, Vma_write new] ?b"
    have "same_mm ?a s" by (simp split: option.split)
    then have "same_mm ?b s" by (simp split: option.split)
    then have "same_mm ?c s" by simp
    with do_vma_prepare_same [of E "vp ?c" ?c] same_mm_trans
    have d: "same_mm (do_vma_prepare E (vp ?c) ?c) s" by blast
    show ?thesis
      by (rule that [of "emit (Trans_huge vma (vm_start (vma_at (do_vma_prepare E (vp ?c) ?c) vma)) addr 0)
          (do_vma_prepare E (vp ?c) ?c)" ?c])
        (simp_all only: emit_same d, simp only: split_finish_def Let_def vp_def)
  qed
  have c: "(if new_below
               then upd_vma vma (\<lambda>v. v\<lparr>vm_start := addr,
                      vm_pgoff := vm_pgoff v + drop_bit (PAGE_SHIFT E) (addr - vm_start (vma_at u new))\<rparr>) u
               else upd_vma vma (\<lambda>v. v\<lparr>vm_end := addr\<rparr>) u) = cut u"
    using assms same_mmD [OF u] by (simp add: cut_def split_rest_def upd_vma_def)
  have "same_mm (vma_complete E (vp w) (cut u)) (add_map_count 1 (vma_iter_store E new (cut u)))"
    by (rule vma_complete_insert) (simp_all add: vp_def init_vma_prep_def init_multi_vma_prep_def)
  moreover have "vmas (cut u) = (vmas s)(vma \<mapsto> split_rest (vma_at s vma) addr new_below)"
    "cur_mm (cut u) = cur_mm s" "vma_at (cut u) new = vma_at s new"
    using same_mmD [OF u] assms(1) by (simp_all add: cut_def upd_vma_def)
  ultimately show "vmas (split_finish E vma addr new_below new s) =
      (vmas s)(vma \<mapsto> split_rest (vma_at s vma) addr new_below)"
    and "cur_mm (split_finish E vma addr new_below new s) =
      (cur_mm s)\<lparr>mm_mt := mt_store (index E) (tree s) (vm_start (vma_at s new)) (vm_end (vma_at s new) - 1) (Some new),
         map_count := map_count (cur_mm s) + 1\<rparr>"
    unfolding f c by (simp_all add: same_mm_def add_map_count_def vma_iter_store_def)
qed

lemma free_new_same:
  assumes "vmas s new = None" "\<And>q. q \<noteq> new \<Longrightarrow> vmas u q = vmas s q" "cur_mm u = cur_mm s"
    "memory_list u = memory_list s"
  shows "same_mm (vm_area_free new u) s"
  using assms by (auto simp: same_mm_def vm_area_free_def emit_def fun_eq_iff)

lemma split_nocheck_fail:
  assumes E: "env_ok E" and r: "split_vma_nocheck E vma addr nb s = (Inl e, s')"
  shows "same_mm s' s"
proof (cases "driver_may_split E s vma addr = None \<and> vma_alloc E s \<noteq> None")
  case False
  with r show ?thesis by (auto simp: split_vma_nocheck_def split: option.splits)
next
  case True
  then obtain new where new: "vma_alloc E s = Some new" "driver_may_split E s vma addr = None" by auto
  note free = free_new_same [of s new, OF env_fresh [OF E new(1)]]
  show ?thesis
    using r new by (auto simp: split_vma_nocheck_def Let_def upd_vma_def put_vma_def emit_def
        split: sum.splits if_splits prod.splits option.splits intro!: free)
qed

lemma split_nocheck_success:
  assumes E: "env_ok E" and live: "vmas s vma \<noteq> None"
    and ok: "split_vma_nocheck E vma addr nb s = (Inr (), s')"
  defines "v \<equiv> vma_at s vma"
  obtains new n where "vmas s new = None" "content n = content (split_copy E v addr nb)"
    "vm_start n = vm_start (split_copy E v addr nb)" "vm_end n = vm_end (split_copy E v addr nb)"
    "vmas s' = (vmas s)(new \<mapsto> n, vma \<mapsto> split_rest v addr nb)"
    "cur_mm s' = (cur_mm s)\<lparr>mm_mt := mt_store (index E) (tree s) (vm_start n) (vm_end n - 1) (Some new),
         map_count := map_count (cur_mm s) + 1\<rparr>"
proof -
  have sh: "PAGE_SHIFT E = 12" using E by (simp add: env_hdr hdr_simps)
  obtain new where new: "vma_alloc E s = Some new"
    using ok by (auto simp: split_vma_nocheck_def split: option.splits)
  have fr: "vmas s new = None" by (rule env_fresh [OF E new])
  then have ne: "new \<noteq> vma" using live by auto
  let ?c = "split_copy E v addr nb"
  let ?s1 = "emit (Alloc (Vma_obj new)) (put_vma new ?c s)"
  obtain pol where pol: "vma_dup_policy E ?s1 vma = Inr pol"
    using ok new by (auto simp: split_vma_nocheck_def Let_def v_def split: option.splits sum.splits if_splits)
  let ?s2 = "upd_vma new (\<lambda>v. v\<lparr>vm_policy := pol\<rparr>) ?s1"
  obtain r av ch where cl: "anon_vma_clone E ?s2 new vma = (r, av, ch)" by (metis prod_cases3)
  let ?n = "?c\<lparr>vm_policy := pol, anon_vma := av, anon_vma_chain := ch\<rparr>"
  let ?s3 = "emit (Anon_clone new vma) (upd_vma new (\<lambda>v. v\<lparr>anon_vma := av, anon_vma_chain := ch\<rparr>) ?s2)"
  have s': "s' = split_finish E vma addr nb new ?s3"
    using ok new pol cl by (auto simp: split_vma_nocheck_def Let_def v_def split: option.splits if_splits)
  have s3: "vmas ?s3 = (vmas s)(new \<mapsto> ?n)" "cur_mm ?s3 = cur_mm s"
    by (simp_all add: upd_vma_def)
  have a3: "vma_at ?s3 new = ?n" "vma_at ?s3 vma = v"
    using ne by (simp_all add: upd_vma_def v_def)
  have st: "nb \<longrightarrow> vm_start (vma_at ?s3 new) = vm_start (vma_at ?s3 vma)"
    unfolding a3 by (simp add: split_copy_def)
  note f = split_finish_state [of new vma E nb ?s3 addr, OF ne sh st]
  show thesis
  proof (rule that [of new ?n])
    show "vmas s new = None" by (rule fr)
    show "content ?n = content ?c" by (simp add: content_def page_at_def fun_eq_iff)
    show "vm_start ?n = vm_start ?c" "vm_end ?n = vm_end ?c" by simp_all
    show "vmas s' = (vmas s)(new \<mapsto> ?n, vma \<mapsto> split_rest v addr nb)"
      unfolding s' f(1) a3 s3 by (rule refl)
    show "cur_mm s' = (cur_mm s)\<lparr>mm_mt := mt_store (index E) (tree s) (vm_start ?n) (vm_end ?n - 1) (Some new),
         map_count := map_count (cur_mm s) + 1\<rparr>"
      unfolding s' f(2) a3 s3 by (rule refl)
  qed
qed

text \<open>The cut mapping and the copy share out its addresses and keep what they show.\<close>

lemma split_ranges:
  fixes nb :: bool
  assumes "PAGE_SHIFT E = 12" "vm_start v < addr" "addr < vm_end v"
  defines "n \<equiv> split_copy E v addr nb" and "r \<equiv> split_rest v addr nb"
  shows "vm_start n < vm_end n" "vm_start r < vm_end r"
    "vm_start v \<le> k \<and> k < vm_end v \<longleftrightarrow> (vm_start n \<le> k \<and> k < vm_end n) \<or> (vm_start r \<le> k \<and> k < vm_end r)"
    "\<not> ((vm_start n \<le> k \<and> k < vm_end n) \<and> vm_start r \<le> k \<and> k < vm_end r)"
  using assms by (auto simp: split_copy_def split_rest_def not_le not_less)

lemma split_content:
  fixes nb :: bool
  assumes "PAGE_SHIFT E = 12" "vm_start v < addr" "4096 dvd unat addr" "4096 dvd unat (vm_start v)"
  defines "n \<equiv> split_copy E v addr nb" and "r \<equiv> split_rest v addr nb"
  shows "vm_start n \<le> k \<Longrightarrow> content n k = content v k" "vm_start r \<le> k \<Longrightarrow> content r k = content v k"
proof -
  have pg: "page_at v k = vm_pgoff v + drop_bit 12 (addr - vm_start v) + drop_bit 12 (k - addr)"
    if "addr \<le> k" for k
    using page_at_extend [OF _ that assms(3,4)] assms(2) by simp
  show "vm_start n \<le> k \<Longrightarrow> content n k = content v k"
    unfolding n_def by (cases nb) (simp_all add: content_def split_copy_def pg assms(1), simp_all add: page_at_def)
  show "vm_start r \<le> k \<Longrightarrow> content r k = content v k"
    unfolding r_def by (cases nb) (simp_all add: content_def split_rest_def pg, simp_all add: page_at_def)
qed

lemma split_nocheck_ok:
  assumes E: "env_ok E" and ok: "mm_ok E s" and vma: "vma \<in> mapped (index E) s"
    and at: "vm_start (vma_at s vma) < addr" "addr < vm_end (vma_at s vma)" "4096 dvd unat addr"
    and sp: "split_vma_nocheck E vma addr nb s = (Inr (), s')"
  shows "mm_ok E s'" "view E s' = view E s"
    "\<exists>new. new \<notin> mapped (index E) s \<and> mapped (index E) s' = insert new (mapped (index E) s) \<and>
       vm_start (vma_at s' new) = (if nb then vm_start (vma_at s vma) else addr) \<and>
       vm_end (vma_at s' new) = (if nb then addr else vm_end (vma_at s vma)) \<and>
       vm_flags (vma_at s' new) = vm_flags (vma_at s vma)"
    "vma_at s' vma = split_rest (vma_at s vma) addr nb"
    "\<And>q. q \<in> mapped (index E) s \<Longrightarrow> q \<noteq> vma \<Longrightarrow> vma_at s' q = vma_at s q"
    "\<exists>t'. cur_mm s' = (cur_mm s)\<lparr>mm_mt := t', map_count := map_count (cur_mm s) + 1\<rparr>"
proof -
  let ?M = "index E" let ?v = "vma_at s vma" let ?r = "split_rest ?v addr nb"
  note wf = mm_ok_wf [OF ok] and M = env_maple [OF E]
  have sh: "PAGE_SHIFT E = 12" using E by (simp add: env_hdr hdr_simps)
  note x = mapped_extent [OF wf vma]
  obtain new n where fr: "vmas s new = None" and c: "content n = content (split_copy E ?v addr nb)"
    and b: "vm_start n = vm_start (split_copy E ?v addr nb)" "vm_end n = vm_end (split_copy E ?v addr nb)"
    and h: "vmas s' = (vmas s)(new \<mapsto> n, vma \<mapsto> ?r)"
    and m: "cur_mm s' = (cur_mm s)\<lparr>mm_mt := mt_store ?M (tree s) (vm_start n) (vm_end n - 1) (Some new),
         map_count := map_count (cur_mm s) + 1\<rparr>"
    using split_nocheck_success [OF E _ sp] x(1) by (metis option.distinct(1))
  note sr = split_ranges [OF sh at(1,2), where nb = nb, folded b]
  have ne: "new \<noteq> vma" and nm: "new \<notin> mapped ?M s"
    using fr x(1) mapped_extent(1) [OF wf] by auto
  have "0 < vm_end n" using sr(1) by (meson le_less_trans word_zero_le)
  then have e: "entry_at ?M s' k = (if vm_start n \<le> k \<and> k < vm_end n then Some new else entry_at ?M s k)" for k
    by (simp add: m maple_store [OF M] le_minus_one64)
  have e_new: "entry_at ?M s' k = Some new \<longleftrightarrow> vm_start n \<le> k \<and> k < vm_end n" for k
    using nm by (auto simp: e mapped_def)
  have e_vma: "entry_at ?M s' k = Some vma \<longleftrightarrow> vm_start ?r \<le> k \<and> k < vm_end ?r" for k
    using ne x(3) [of k] sr(3,4) [of k] by (auto simp: e)
  have e_oth: "entry_at ?M s' k = Some q \<longleftrightarrow> entry_at ?M s k = Some q" if "q \<noteq> new" "q \<noteq> vma" for k q
    using that x(3) [of k] sr(3) [of k] by (auto simp: e)
  have a: "vma_at s' new = n" "vma_at s' vma = ?r" "q \<noteq> new \<Longrightarrow> q \<noteq> vma \<Longrightarrow> vma_at s' q = vma_at s q" for q
    using ne by (auto simp: vma_at_def h)
  then show "vma_at s' vma = ?r" by simp
  show "vma_at s' q = vma_at s q" if "q \<in> mapped ?M s" "q \<noteq> vma" for q
    using a(3) [of q] that nm by blast
  have mp: "mapped ?M s' = insert new (mapped ?M s)"
  proof -
    have i: "new \<in> mapped ?M s'" "vma \<in> mapped ?M s'"
      using e_new [of "vm_start n"] e_vma [of "vm_start ?r"] sr(1,2) by (auto simp: mapped_def)
    have o: "q \<in> mapped ?M s' \<longleftrightarrow> q \<in> mapped ?M s" if "q \<noteq> new" "q \<noteq> vma" for q
      using e_oth [OF that] by (auto simp: mapped_def)
    have "q \<in> mapped ?M s' \<longleftrightarrow> q = new \<or> q \<in> mapped ?M s" for q
      using i o [of q] vma by (cases "q = new"; cases "q = vma") auto
    then show ?thesis by auto
  qed
  have fl: "vm_flags n = vm_flags ?v"
    using fun_cong [OF c, of 0] by (simp add: content_def split_copy_def split: if_splits)
  have "vm_start n = (if nb then vm_start ?v else addr)" "vm_end n = (if nb then addr else vm_end ?v)"
    unfolding b by (simp_all add: split_copy_def)
  with nm mp a(1) fl show "\<exists>new. new \<notin> mapped ?M s \<and> mapped ?M s' = insert new (mapped ?M s) \<and>
       vm_start (vma_at s' new) = (if nb then vm_start ?v else addr) \<and>
       vm_end (vma_at s' new) = (if nb then addr else vm_end ?v) \<and>
       vm_flags (vma_at s' new) = vm_flags ?v"
    by blast
  show "\<exists>t'. cur_mm s' = (cur_mm s)\<lparr>mm_mt := t', map_count := map_count (cur_mm s) + 1\<rparr>"
    using m by blast
  have wf': "mm_wf ?M s'"
    unfolding mm_wf_def
  proof (intro allI impI)
    fix i q assume q: "entry_at ?M s' i = Some q"
    consider "q = new" | "q = vma" | "q \<noteq> new" "q \<noteq> vma" by blast
    then show "\<exists>v. vmas s' q = Some v \<and> vm_start v < vm_end v \<and>
        (\<forall>k. (entry_at ?M s' k = Some q) = (vm_start v \<le> k \<and> k < vm_end v))"
    proof cases
      case 1
      with e_new sr(1) ne show ?thesis by (auto simp: h)
    next
      case 2
      with e_vma sr(2) show ?thesis by (auto simp: h)
    next
      case 3
      note y = mm_wfD [OF wf q [unfolded e_oth [OF 3]]]
      from 3 y e_oth [OF 3] show ?thesis by (auto simp: h)
    qed
  qed
  have al: "4096 dvd unat (vm_start ?v)" "4096 dvd unat (vm_end ?v)"
    using mm_ok_aligned [OF ok] vma by (auto simp: vmas_aligned_def)
  have "vmas_aligned ?M s'"
    unfolding vmas_aligned_def mp
  proof
    fix q assume q: "q \<in> insert new (mapped ?M s)"
    consider "q = new" | "q = vma" | "q \<noteq> new" "q \<noteq> vma" by blast
    then show "4096 dvd unat (vm_start (vma_at s' q)) \<and> 4096 dvd unat (vm_end (vma_at s' q))"
      using al at(3) a b mm_ok_aligned [OF ok] q
      by cases (auto simp: split_copy_def split_rest_def vmas_aligned_def)
  qed
  moreover have "count_ok ?M s'"
    using mm_ok_count [OF ok] nm finite_mapped [of ?M s] by (simp add: count_ok_def mp m)
  ultimately show "mm_ok E s'" using wf' by (simp add: mm_ok_def)
  show "view E s' = view E s"
  proof
    fix k
    note cc = split_content [OF sh at(1,3) al(1), where nb = nb and k = k, folded b]
    show "view E s' k = view E s k"
    proof (cases "entry_at ?M s k = Some vma")
      case True
      then have "(vm_start n \<le> k \<and> k < vm_end n) \<or> (vm_start ?r \<le> k \<and> k < vm_end ?r)"
        using x(3) sr(3) by blast
      with True cc c a e_new [of k] e_vma [of k] show ?thesis
        by (auto simp: view_def simp del: fun_upd_apply)
    next
      case False
      then have "entry_at ?M s' k = entry_at ?M s k" using x(3) [of k] sr(3) [of k] by (auto simp: e)
      moreover have "vma_at s' q = vma_at s q" if "entry_at ?M s k = Some q" for q
      proof -
        have "q \<noteq> new" "q \<noteq> vma" using that False nm by (auto simp: mapped_def)
        then show ?thesis by (rule a(3))
      qed
      ultimately show ?thesis by (cases "entry_at ?M s k") (auto simp: view_def)
    qed
  qed
qed

section \<open>Storing and clearing an entry\<close>

text \<open>
  The effect of storing \<open>p\<close> with the contents \<open>v\<close> over mappings \<open>R\<close> that go away, as a
  relation between the states before and after.
\<close>

definition stores ::
  "('t, 'a) mm_env_scheme \<Rightarrow> vptr \<Rightarrow> vm_area_struct \<Rightarrow> vptr set \<Rightarrow> 't mm_state \<Rightarrow> 't mm_state \<Rightarrow> bool"
where
  "stores E p v R s t \<longleftrightarrow>
     (\<forall>k. entry_at (index E) t k =
        (if vm_start v \<le> k \<and> k < vm_end v then Some p else entry_at (index E) s k)) \<and>
     vmas t p = Some v \<and>
     (\<forall>q \<in> mapped (index E) s. q \<noteq> p \<longrightarrow> q \<notin> R \<longrightarrow> vmas t q = vmas s q) \<and>
     map_count (cur_mm t) = map_count (cur_mm s) - int (card R) +
       (if p \<in> mapped (index E) s then 0 else 1)"

text \<open>The range stored covers \<open>p\<close> and \<open>R\<close> and meets nothing else.\<close>

definition covers ::
  "('t, 'a) mm_env_scheme \<Rightarrow> 't mm_state \<Rightarrow> u64 \<Rightarrow> u64 \<Rightarrow> vptr \<Rightarrow> vptr set \<Rightarrow> bool" where
  "covers E s a b p R \<longleftrightarrow>
     a < b \<and> 4096 dvd unat a \<and> 4096 dvd unat b \<and> R \<subseteq> mapped (index E) s \<and> p \<notin> R \<and>
     (\<forall>k q. a \<le> k \<and> k < b \<and> entry_at (index E) s k = Some q \<longrightarrow> q = p \<or> q \<in> R) \<and>
     (\<forall>k q. entry_at (index E) s k = Some q \<and> (q = p \<or> q \<in> R) \<longrightarrow> a \<le> k \<and> k < b)"

lemma stores_ok:
  assumes ok: "mm_ok E s" and c: "covers E s (vm_start v) (vm_end v) p R" and st: "stores E p v R s t"
  shows "mm_ok E t" "mapped (index E) t = insert p (mapped (index E) s - R)"
    "view E t k = (if vm_start v \<le> k \<and> k < vm_end v then Some (content v k) else view E s k)"
proof -
  let ?M = "index E"
  note wf = mm_ok_wf [OF ok]
  have e: "entry_at ?M t k = (if vm_start v \<le> k \<and> k < vm_end v then Some p else entry_at ?M s k)" for k
    using st unfolding stores_def by blast
  have v: "vmas t p = Some v" "vm_start v < vm_end v"
    using st c unfolding stores_def covers_def by blast+
  have hit: "q = p \<or> q \<in> R" if "vm_start v \<le> k" "k < vm_end v" "entry_at ?M s k = Some q" for k q
    using c that unfolding covers_def by blast
  have cov: "vm_start v \<le> k \<and> k < vm_end v" if "entry_at ?M s k = Some q" "q = p \<or> q \<in> R" for k q
    using c that unfolding covers_def by blast
  have oth: "vmas t q = vmas s q" if "q \<in> mapped ?M s" "q \<noteq> p" "q \<notin> R" for q
    using st that unfolding stores_def by blast
  note w = store_wf [of ?M s t v p R, OF wf e v hit cov oth]
  show m: "mapped ?M t = insert p (mapped ?M s - R)" by (rule w(2))
  have oa: "vma_at t q = vma_at s q" if "q \<in> mapped ?M s" "q \<noteq> p" "q \<notin> R" for q
    using oth [OF that] by (simp add: vma_at_def)
  have pa: "vma_at t p = v" using v(1) by (simp add: vma_at_def)
  have "vmas_aligned ?M t"
    unfolding vmas_aligned_def m
  proof
    fix q assume "q \<in> insert p (mapped ?M s - R)"
    then show "4096 dvd unat (vm_start (vma_at t q)) \<and> 4096 dvd unat (vm_end (vma_at t q))"
      using mm_ok_aligned [OF ok] c pa oa [of q] unfolding vmas_aligned_def covers_def
      by (cases "q = p") auto
  qed
  moreover have "count_ok ?M t"
  proof -
    have R: "R \<subseteq> mapped ?M s" "p \<notin> R" "finite R"
      using c finite_mapped [of ?M s] unfolding covers_def by (blast intro: finite_subset)+
    have "card (mapped ?M s - R) = card (mapped ?M s) - card R" "card R \<le> card (mapped ?M s)"
      using R finite_mapped [of ?M s] by (simp_all add: card_Diff_subset card_mono)
    then have "int (card (insert p (mapped ?M s - R))) = int (card (mapped ?M s)) - int (card R) +
        (if p \<in> mapped ?M s then 0 else 1)"
      using R finite_mapped [of ?M s] by (simp add: card_insert_if of_nat_diff)
    then show ?thesis
      using st mm_ok_count [OF ok] unfolding count_ok_def m by (simp add: stores_def)
  qed
  ultimately show "mm_ok E t" using w(1) by (simp add: mm_ok_def)
  show "view E t k = (if vm_start v \<le> k \<and> k < vm_end v then Some (content v k) else view E s k)"
  proof (cases "vm_start v \<le> k \<and> k < vm_end v")
    case True
    then show ?thesis by (simp add: view_def e pa)
  next
    case False
    have "vma_at t q = vma_at s q" if "entry_at ?M s k = Some q" for q
      using that False cov [OF that] by (intro oa) (auto simp: mapped_def)
    with False show ?thesis by (cases "entry_at ?M s k") (auto simp: view_def e)
  qed
qed

lemma stores_cong:
  assumes "stores E p v R s u" "tree t = tree u" "map_count (cur_mm t) = map_count (cur_mm u)"
    and "vmas t = (vmas u)(p \<mapsto> w)" "vm_start w = vm_start v" "vm_end w = vm_end v"
  shows "stores E p w R s t"
  using assms by (simp add: stores_def)

lemma stores_from_same: "stores E p v R s u \<Longrightarrow> same_mm s r \<Longrightarrow> stores E p v R r u"
  by (simp add: stores_def same_mm_def mapped_def)

text \<open>Clearing a range that covers the mappings \<open>R\<close> exactly.\<close>

lemma clears_ok:
  assumes ok: "mm_ok E s"
    and e: "\<And>k. entry_at (index E) t k = (if a \<le> k \<and> k < b then None else entry_at (index E) s k)"
    and R: "R \<subseteq> mapped (index E) s"
    and hit: "\<And>k q. entry_at (index E) s k = Some q \<Longrightarrow> a \<le> k \<and> k < b \<longleftrightarrow> q \<in> R"
    and oth: "\<And>q. q \<in> mapped (index E) s \<Longrightarrow> q \<notin> R \<Longrightarrow> vmas t q = vmas s q"
    and cnt: "map_count (cur_mm t) = map_count (cur_mm s) - int (card R)"
  shows "mm_ok E t" "mapped (index E) t = mapped (index E) s - R"
    "view E t k = (if a \<le> k \<and> k < b then None else view E s k)"
proof -
  let ?M = "index E"
  note wf = mm_ok_wf [OF ok]
  have q: "entry_at ?M t k = Some q \<longleftrightarrow> entry_at ?M s k = Some q \<and> q \<notin> R" for k q
    using hit [of k q] by (auto simp: e)
  then show m: "mapped ?M t = mapped ?M s - R" by (auto simp: mapped_def)
  have oa: "vma_at t q = vma_at s q" if "q \<in> mapped ?M s" "q \<notin> R" for q
    using oth [OF that] by (simp add: vma_at_def)
  have "mm_wf ?M t"
    unfolding mm_wf_def
  proof (intro allI impI)
    fix i r assume "entry_at ?M t i = Some r"
    with q have s: "entry_at ?M s i = Some r" "r \<notin> R" by auto
    then have "vmas t r = Some (vma_at s r)"
      using oth [of r] mm_wfD(1) [OF wf s(1)] by (auto simp: mapped_def)
    with mm_wfD(2,3) [OF wf s(1)] q s(2)
    show "\<exists>v. vmas t r = Some v \<and> vm_start v < vm_end v \<and>
        (\<forall>k. (entry_at ?M t k = Some r) = (vm_start v \<le> k \<and> k < vm_end v))" by auto
  qed
  moreover have "vmas_aligned ?M t"
    using mm_ok_aligned [OF ok] oa unfolding vmas_aligned_def m by auto
  moreover have "card (mapped ?M s - R) = card (mapped ?M s) - card R" "card R \<le> card (mapped ?M s)"
    using R finite_subset [OF R finite_mapped] finite_mapped [of ?M s]
    by (simp_all add: card_Diff_subset card_mono)
  then have "count_ok ?M t"
    using mm_ok_count [OF ok] unfolding count_ok_def m cnt by (simp add: of_nat_diff)
  ultimately show "mm_ok E t" by (simp add: mm_ok_def)
  have "vma_at t r = vma_at s r" if "entry_at ?M t k = Some r" for r
    using that q [of k r] by (intro oa) (auto simp: mapped_def)
  then show "view E t k = (if a \<le> k \<and> k < b then None else view E s k)"
    by (cases "entry_at ?M t k") (auto simp: view_def e split: if_splits)
qed

section \<open>Expanding and shrinking\<close>

text \<open>States that differ, besides the trace, in the \<open>anon_vma\<close> of one mapping at most.\<close>

definition anon_upd :: "vptr \<Rightarrow> 't mm_state \<Rightarrow> 't mm_state \<Rightarrow> bool" where
  "anon_upd p s t \<longleftrightarrow> cur_mm t = cur_mm s \<and> memory_list t = memory_list s \<and>
     (\<exists>av ch. vmas t = (vmas s)(p \<mapsto> (vma_at s p)\<lparr>anon_vma := av, anon_vma_chain := ch\<rparr>))"

lemma anon_upd_same: "vmas s p = Some v \<Longrightarrow> same_mm t s \<Longrightarrow> anon_upd p s t"
  unfolding anon_upd_def same_mm_def
  by (intro conjI exI [of _ "anon_vma v"] exI [of _ "anon_vma_chain v"])
    (auto simp: vma_at_def fun_eq_iff)

lemma anon_upd_trans:
  assumes "anon_upd p s t" "anon_upd p t u"
  shows "anon_upd p s u"
proof -
  obtain av ch where t: "vmas t = (vmas s)(p \<mapsto> (vma_at s p)\<lparr>anon_vma := av, anon_vma_chain := ch\<rparr>)"
    using assms(1) by (auto simp: anon_upd_def)
  obtain av' ch' where u: "vmas u = (vmas t)(p \<mapsto> (vma_at t p)\<lparr>anon_vma := av', anon_vma_chain := ch'\<rparr>)"
    using assms(2) by (auto simp: anon_upd_def)
  have "vmas u = (vmas s)(p \<mapsto> (vma_at s p)\<lparr>anon_vma := av', anon_vma_chain := ch'\<rparr>)"
    unfolding u by (simp add: vma_at_def t)
  with assms show ?thesis by (auto simp: anon_upd_def)
qed

lemma anon_upd_from_same:
  assumes "same_mm u s" "anon_upd p u t"
  shows "anon_upd p s t"
proof -
  have "memory_list u = memory_list s" using assms(1) by (simp add: same_mm_def)
  then show ?thesis using assms(2) unfolding anon_upd_def same_mmD [OF assms(1)] by simp
qed

lemma anon_upd_upd_vma:
  "anon_upd p s (upd_vma p (\<lambda>v. v\<lparr>anon_vma := av, anon_vma_chain := ch\<rparr>) s)"
  "anon_upd p s (upd_vma p (\<lambda>v. v\<lparr>anon_vma := av\<rparr>) s)"
proof -
  show "anon_upd p s (upd_vma p (\<lambda>v. v\<lparr>anon_vma := av, anon_vma_chain := ch\<rparr>) s)"
    by (auto simp: anon_upd_def upd_vma_def)
  have "(vma_at s p)\<lparr>anon_vma := av\<rparr> =
      (vma_at s p)\<lparr>anon_vma := av, anon_vma_chain := anon_vma_chain (vma_at s p)\<rparr>" by simp
  then show "anon_upd p s (upd_vma p (\<lambda>v. v\<lparr>anon_vma := av\<rparr>) s)"
    unfolding anon_upd_def upd_vma_def state_simps by (metis fun_upd_same)
qed

lemma anon_upd_emit [simp]: "anon_upd p s (emit e t) \<longleftrightarrow> anon_upd p s t"
  by (simp add: anon_upd_def emit_def)

lemma dup_anon_vma_upd:
  assumes "vmas s dst = Some v" "dup_anon_vma E dst src s = (r, t)"
  shows "anon_upd dst s t"
proof (cases "anon_vma (vma_at s src) \<noteq> None \<and> anon_vma (vma_at s dst) = None")
  case True
  let ?u = "upd_vma dst (\<lambda>v. v\<lparr>anon_vma := anon_vma (vma_at s src)\<rparr>) s"
  obtain x av ch where "anon_vma_clone E ?u dst src = (x, av, ch)" by (metis prod_cases3)
  with True assms(2) have "t = emit (Anon_clone dst src)
      (upd_vma dst (\<lambda>v. v\<lparr>anon_vma := av, anon_vma_chain := ch\<rparr>) ?u)"
    by (auto simp: dup_anon_vma_def Let_def split: option.splits)
  then show ?thesis using anon_upd_trans [OF anon_upd_upd_vma(2) anon_upd_upd_vma(1)] by simp
next
  case False
  with assms show ?thesis by (auto simp: dup_anon_vma_def intro: anon_upd_same)
qed

lemma do_unlink_upd: "anon_upd p s (do_unlink_anon_vmas E p s)"
  by (simp add: do_unlink_anon_vmas_def anon_upd_upd_vma split: prod.split)

lemma anon_upd_view:
  assumes "anon_upd p s t"
  shows "vma_at t q = vma_at s q \<or> q = p \<and> (\<exists>av ch. vma_at t p = (vma_at s p)\<lparr>anon_vma := av, anon_vma_chain := ch\<rparr>)"
    and "view E t = view E s" and "mapped M t = mapped M s"
proof -
  obtain av ch where v: "vmas t = (vmas s)(p \<mapsto> (vma_at s p)\<lparr>anon_vma := av, anon_vma_chain := ch\<rparr>)"
    and m: "cur_mm t = cur_mm s"
    using assms by (auto simp: anon_upd_def)
  have p: "vma_at t p = (vma_at s p)\<lparr>anon_vma := av, anon_vma_chain := ch\<rparr>" by (simp add: vma_at_def v)
  have o: "q \<noteq> p \<Longrightarrow> vma_at t q = vma_at s q" for q by (simp add: vma_at_def v)
  show "vma_at t q = vma_at s q \<or> q = p \<and> (\<exists>av ch. vma_at t p = (vma_at s p)\<lparr>anon_vma := av, anon_vma_chain := ch\<rparr>)"
    using p o by (cases "q = p") auto
  have "content (vma_at t q) = content (vma_at s q)" for q
    using p o [of q] by (cases "q = p") (auto simp: content_def page_at_def fun_eq_iff)
  then show "view E t = view E s" by (simp add: view_def m fun_eq_iff)
  show "mapped M t = mapped M s" by (simp add: mapped_def m)
qed

lemma anon_upd_ok:
  assumes a: "anon_upd p s t" and ok: "mm_ok E s" and p: "p \<in> mapped (index E) s"
  shows "mm_ok E t"
proof -
  let ?M = "index E"
  obtain av ch where v: "vmas t = (vmas s)(p \<mapsto> (vma_at s p)\<lparr>anon_vma := av, anon_vma_chain := ch\<rparr>)"
    and m: "cur_mm t = cur_mm s"
    using a by (auto simp: anon_upd_def)
  have e: "vm_start (vma_at t q) = vm_start (vma_at s q)" "vm_end (vma_at t q) = vm_end (vma_at s q)" for q
    by (cases "q = p", simp_all add: vma_at_def v)+
  have "mm_wf ?M t"
    unfolding mm_wf_def m
  proof (intro allI impI)
    fix i q assume "entry_at ?M s i = Some q"
    note w = mm_wfD [OF mm_ok_wf [OF ok] this]
    then have "vmas t q = Some (vma_at t q)" by (cases "q = p") (auto simp: v vma_at_def)
    with w e show "\<exists>v. vmas t q = Some v \<and> vm_start v < vm_end v \<and>
        (\<forall>k. (entry_at ?M s k = Some q) = (vm_start v \<le> k \<and> k < vm_end v))" by auto
  qed
  moreover have "mapped ?M t = mapped ?M s" by (simp add: mapped_def m)
  ultimately show ?thesis
    using ok by (simp add: mm_ok_def count_ok_def vmas_aligned_def m e)
qed

text \<open>The next mapping goes away when the expansion ends where it ends.\<close>

definition expand_removes :: "'t mm_state \<Rightarrow> vptr \<Rightarrow> u64 \<Rightarrow> vptr option \<Rightarrow> vptr option" where
  "expand_removes s vma fin nxt =
     (case nxt of
        None \<Rightarrow> None
      | Some n \<Rightarrow> if vma \<noteq> n \<and> fin = vm_end (vma_at s n) then Some n else None)"

lemma le_below_end:
  fixes a b k :: u64
  assumes "a < b"
  shows "k \<le> b - 1 \<longleftrightarrow> k < b"
  using assms by (intro le_minus_one64) (meson le_less_trans word_zero_le)

lemma mm_mt_same_count [simp]: "m\<lparr>mm_mt := x, map_count := map_count m\<rparr> = m\<lparr>mm_mt := x\<rparr>"
  by (cases m) simp

lemma vma_expand_fail:
  assumes live: "vmas s vma = Some v" and r: "vma_expand E vma start fin pgoff nxt s = (Inl e, t)"
  shows "anon_upd vma s t"
proof -
  have d: "anon_upd vma s u" if "dup_anon_vma E vma n (emit (Vma_write n) (emit (Vma_write vma) s)) = (r, u)" for n r u
    by (rule anon_upd_from_same [OF _ dup_anon_vma_upd [OF _ that, of v]]) (simp_all add: live)
  have i: "anon_upd vma s (emit (Vma_write vma) s)" using live by (simp add: anon_upd_same)
  show ?thesis
    using r i anon_upd_trans [OF _ do_unlink_upd, of vma s]
    by (auto simp: vma_expand_def Let_def dest!: d split: option.splits sum.splits if_splits prod.splits)
qed

lemma vma_expand_ok:
  assumes ok: "mm_ok E s" and M: "maple_ok (index E)" and p: "vma \<in> mapped (index E) s"
    and c: "covers E s start fin vma (set_option (expand_removes s vma fin nxt))"
    and r: "vma_expand E vma start fin pgoff nxt s = (Inr (), t)"
  shows "\<exists>av ch t'. stores E vma ((vma_at s vma)\<lparr>anon_vma := av, anon_vma_chain := ch,
      vm_start := start, vm_end := fin, vm_pgoff := pgoff\<rparr>) (set_option (expand_removes s vma fin nxt)) s t \<and>
    cur_mm t = (cur_mm s)\<lparr>mm_mt := t', map_count := map_count (cur_mm t)\<rparr> \<and> memory_list t = memory_list s"
proof -
  let ?v = "vma_at s vma" let ?R = "expand_removes s vma fin nxt"
  have live: "vmas s vma = Some ?v" by (rule mapped_extent(1) [OF mm_ok_wf [OF ok] p])
  have rm: "(case nxt of None \<Rightarrow> None
      | Some n \<Rightarrow> if vma \<noteq> n \<and> fin = vm_end (vma_at (emit (Vma_write vma) s) n) then Some n else None) = ?R"
    by (simp add: expand_removes_def split: option.split)
  obtain u b where u: "anon_upd vma s u" and t: "t = vma_complete E (init_multi_vma_prep E u vma None ?R None)
      (vma_iter_store E vma (upd_vma vma (\<lambda>v. v\<lparr>vm_start := start, vm_end := fin, vm_pgoff := pgoff\<rparr>)
        (emit (Trans_huge vma start fin 0) (do_vma_prepare E (init_multi_vma_prep E u vma None ?R None) u))))"
  proof (cases ?R)
    case None
    then show ?thesis
      using r live anon_upd_same [OF live]
      by (intro that [of "emit (Vma_write vma) s"])
        (auto simp: vma_expand_def Let_def rm split: if_splits)
  next
    case (Some n)
    obtain x u where x: "dup_anon_vma E vma n (emit (Vma_write n) (emit (Vma_write vma) s)) = (x, u)" by fastforce
    have "anon_upd vma s u"
      by (rule anon_upd_from_same [OF _ dup_anon_vma_upd [OF _ x, of ?v]]) (simp_all add: live)
    then show ?thesis
      using r Some x by (intro that [of u])
        (auto simp: vma_expand_def Let_def rm split: if_splits sum.splits)
  qed
  obtain av ch where uv: "vmas u = (vmas s)(vma \<mapsto> ?v\<lparr>anon_vma := av, anon_vma_chain := ch\<rparr>)"
    and um: "cur_mm u = cur_mm s" "memory_list u = memory_list s"
    using u by (auto simp: anon_upd_def)
  let ?vp = "init_multi_vma_prep E u vma None ?R None"
  let ?w = "upd_vma vma (\<lambda>v. v\<lparr>vm_start := start, vm_end := fin, vm_pgoff := pgoff\<rparr>)
        (emit (Trans_huge vma start fin 0) (do_vma_prepare E ?vp u))"
  let ?v' = "?v\<lparr>anon_vma := av, anon_vma_chain := ch, vm_start := start, vm_end := fin, vm_pgoff := pgoff\<rparr>"
  note pr = same_mmD [OF do_vma_prepare_same [of E ?vp u]]
  have wv: "vmas ?w = (vmas s)(vma \<mapsto> ?v')" "cur_mm ?w = cur_mm s"
    using pr uv um by (simp_all add: upd_vma_def vma_at_def)
  have wl: "memory_list ?w = memory_list s"
    using do_vma_prepare_same [of E ?vp u] um by (simp add: upd_vma_def same_mm_def emit_def)
  have "vma_at ?w vma = ?v'" using wv(1) by (simp add: vma_at_def)
  then have st: "vmas (vma_iter_store E vma ?w) = (vmas s)(vma \<mapsto> ?v')"
    "cur_mm (vma_iter_store E vma ?w) = (cur_mm s)\<lparr>mm_mt := mt_store (index E) (tree s) start (fin - 1) (Some vma)\<rparr>"
    "memory_list (vma_iter_store E vma ?w) = memory_list s"
    using wv wl by (simp_all add: vma_iter_store_def)
  have sf: "start < fin" using c by (simp add: covers_def)
  have out: "vmas t = (\<lambda>q. if q \<in> set_option ?R then None else ((vmas s)(vma \<mapsto> ?v')) q) \<and> memory_list t = memory_list s \<and>
      cur_mm t = (cur_mm s)\<lparr>mm_mt := mt_store (index E) (tree s) start (fin - 1) (Some vma),
        map_count := map_count (cur_mm s) - int (card (set_option ?R))\<rparr>"
  proof (cases ?R)
    case None
    then have "same_mm t (vma_iter_store E vma ?w)"
      unfolding t by (intro vma_complete_plain) (simp_all add: init_multi_vma_prep_def)
    with None st show ?thesis by (simp add: same_mm_def fun_eq_iff)
  next
    case (Some n)
    note x = vma_complete_remove [of ?vp n E "vma_iter_store E vma ?w"]
    have "vmas t = ((vmas s)(vma \<mapsto> ?v'))(n := None)"
      "cur_mm t = (cur_mm s)\<lparr>mm_mt := mt_store (index E) (tree s) start (fin - 1) (Some vma),
        map_count := map_count (cur_mm s) - 1\<rparr>" "memory_list t = memory_list s"
      unfolding t using x st Some by (simp_all add: init_multi_vma_prep_def)
    with Some show ?thesis by (auto simp: fun_eq_iff)
  qed
  have "vma \<notin> set_option ?R" using c by (simp add: covers_def)
  with out p sf have "stores E vma ?v' (set_option ?R) s t"
    by (auto simp: stores_def maple_store [OF M] le_below_end)
  with out show ?thesis by (intro exI [of _ av] exI [of _ ch] exI) (auto)
qed

text \<open>Cutting \<open>[a, b)\<close> off one end of a mapping, which keeps the contents of the rest.\<close>

lemma trims_ok:
  assumes ok: "mm_ok E s" and p: "p \<in> mapped (index E) s"
    and e: "\<And>k. entry_at (index E) t k = (if a \<le> k \<and> k < b then None else entry_at (index E) s k)"
    and v: "vmas t p = Some w" "vm_start w < vm_end w" "4096 dvd unat (vm_start w)" "4096 dvd unat (vm_end w)"
    and r: "\<And>k. (vm_start (vma_at s p) \<le> k \<and> k < vm_end (vma_at s p)) =
        ((a \<le> k \<and> k < b) \<or> (vm_start w \<le> k \<and> k < vm_end w))"
      "\<And>k. \<not> ((a \<le> k \<and> k < b) \<and> vm_start w \<le> k \<and> k < vm_end w)"
    and oth: "\<And>q. q \<in> mapped (index E) s \<Longrightarrow> q \<noteq> p \<Longrightarrow> vmas t q = vmas s q"
    and cnt: "map_count (cur_mm t) = map_count (cur_mm s)"
    and con: "\<And>k. vm_start w \<le> k \<Longrightarrow> k < vm_end w \<Longrightarrow> content w k = content (vma_at s p) k"
  shows "mm_ok E t" "mapped (index E) t = mapped (index E) s"
    "view E t k = (if a \<le> k \<and> k < b then None else view E s k)"
proof -
  let ?M = "index E"
  note wf = mm_ok_wf [OF ok]
  note x = mapped_extent [OF wf p]
  have ep: "entry_at ?M t k = Some p \<longleftrightarrow> vm_start w \<le> k \<and> k < vm_end w" for k
    using x(3) [of k] r [of k] by (auto simp: e)
  have eq: "entry_at ?M t k = Some q \<longleftrightarrow> entry_at ?M s k = Some q" if "q \<noteq> p" for k q
    using x(3) [of k] r(1) [of k] that by (auto simp: e)
  have "p \<in> mapped ?M t" using ep [of "vm_start w"] v(2) by (auto simp: mapped_def)
  moreover have "q \<in> mapped ?M t \<longleftrightarrow> q \<in> mapped ?M s" if "q \<noteq> p" for q
    using eq [OF that] by (simp add: mapped_def)
  ultimately have "q \<in> mapped ?M t \<longleftrightarrow> q \<in> mapped ?M s" for q using p by (cases "q = p") auto
  then show m: "mapped ?M t = mapped ?M s" by auto
  have oa: "vma_at t q = vma_at s q" if "q \<in> mapped ?M s" "q \<noteq> p" for q
    using oth [OF that] by (simp add: vma_at_def)
  have pa: "vma_at t p = w" using v(1) by (simp add: vma_at_def)
  have "mm_wf ?M t"
    unfolding mm_wf_def
  proof (intro allI impI)
    fix i q assume q: "entry_at ?M t i = Some q"
    show "\<exists>v. vmas t q = Some v \<and> vm_start v < vm_end v \<and>
        (\<forall>k. (entry_at ?M t k = Some q) = (vm_start v \<le> k \<and> k < vm_end v))"
    proof (cases "q = p")
      case True
      with ep v show ?thesis by auto
    next
      case False
      with q eq have s: "entry_at ?M s i = Some q" by auto
      then have "vmas t q = Some (vma_at s q)"
        using oth [of q] False mm_wfD(1) [OF wf s] by (auto simp: mapped_def)
      with mm_wfD(2,3) [OF wf s] eq [OF False] show ?thesis by auto
    qed
  qed
  moreover have "vmas_aligned ?M t"
    unfolding vmas_aligned_def m
  proof
    fix q assume "q \<in> mapped ?M s"
    then show "4096 dvd unat (vm_start (vma_at t q)) \<and> 4096 dvd unat (vm_end (vma_at t q))"
      using mm_ok_aligned [OF ok] pa v oa [of q] unfolding vmas_aligned_def by (cases "q = p") auto
  qed
  ultimately show "mm_ok E t" using mm_ok_count [OF ok] by (simp add: mm_ok_def count_ok_def m cnt)
  show "view E t k = (if a \<le> k \<and> k < b then None else view E s k)"
  proof (cases "entry_at ?M t k")
    case None
    then show ?thesis by (auto simp: view_def e split: if_splits)
  next
    case (Some q)
    then have n: "\<not> (a \<le> k \<and> k < b)" "entry_at ?M s k = Some q" by (auto simp: e split: if_splits)
    then have "q \<in> mapped ?M s" by (auto simp: mapped_def)
    then have "content (vma_at t q) k = content (vma_at s q) k"
      using Some ep [of k] con [of k] pa oa [of q] by (cases "q = p") auto
    with n Some show ?thesis by (simp add: view_def)
  qed
qed

lemma vma_shrink_state:
  assumes r: "vma_shrink E vma start fin pgoff s = (Inr (), t)"
  defines "a \<equiv> (if vm_start (vma_at s vma) < start then vm_start (vma_at s vma) else fin)"
    and "b \<equiv> (if vm_start (vma_at s vma) < start then start else vm_end (vma_at s vma))"
  shows "vmas t = (vmas s)(vma \<mapsto> (vma_at s vma)\<lparr>vm_start := start, vm_end := fin, vm_pgoff := pgoff\<rparr>)"
    "cur_mm t = (cur_mm s)\<lparr>mm_mt := mt_store (index E) (tree s) a (b - 1) None\<rparr>"
proof -
  let ?s1 = "emit (Vma_write vma) s"
  let ?vp = "init_vma_prep E ?s1 vma"
  let ?s2 = "do_vma_prepare E ?vp ?s1"
  let ?s3 = "upd_vma vma (\<lambda>v. v\<lparr>vm_start := start, vm_end := fin, vm_pgoff := pgoff\<rparr>)
      (vma_iter_clear E a b (emit (Trans_huge vma start fin 0) ?s2))"
  have t: "t = vma_complete E ?vp ?s3"
    using r by (auto simp: vma_shrink_def Let_def a_def b_def split: if_splits)
  have "same_mm ?s2 s" using do_vma_prepare_same [of E ?vp ?s1] by (simp add: same_mm_def)
  note d = same_mmD [OF this]
  have "vmas ?s3 = (vmas s)(vma \<mapsto> (vma_at s vma)\<lparr>vm_start := start, vm_end := fin, vm_pgoff := pgoff\<rparr>)"
    "cur_mm ?s3 = (cur_mm s)\<lparr>mm_mt := mt_store (index E) (tree s) a (b - 1) None\<rparr>"
    using d by (simp_all add: upd_vma_def vma_iter_clear_def)
  moreover have "same_mm t ?s3"
    unfolding t by (rule vma_complete_plain) (simp_all add: init_vma_prep_def init_multi_vma_prep_def)
  ultimately show "vmas t = (vmas s)(vma \<mapsto> (vma_at s vma)\<lparr>vm_start := start, vm_end := fin, vm_pgoff := pgoff\<rparr>)"
    "cur_mm t = (cur_mm s)\<lparr>mm_mt := mt_store (index E) (tree s) a (b - 1) None\<rparr>"
    by (simp_all add: same_mm_def)
qed

lemma vma_shrink_fail:
  "vma_shrink E vma start fin pgoff s = (Inl e, t) \<Longrightarrow> t = s \<and> e = ENOMEM"
  by (auto simp: vma_shrink_def Let_def split: if_splits)

section \<open>Linking and inserting\<close>

lemma vma_link_state:
  "vma_link E p s = (Inl e, t) \<Longrightarrow> t = s \<and> e = ENOMEM"
  "vma_link E p s = (Inr (), t) \<Longrightarrow> same_mm t (add_map_count 1 (vma_iter_store E p s))"
proof -
  show "vma_link E p s = (Inl e, t) \<Longrightarrow> t = s \<and> e = ENOMEM"
    by (auto simp: vma_link_def Let_def split: if_splits)
  assume l: "vma_link E p s = (Inr (), t)"
  let ?s = "vma_iter_store E p (emit (Vma_write p) s)"
  let ?u = "case vm_file (vma_at ?s p) of
      None \<Rightarrow> ?s
    | Some f \<Rightarrow> emit (Unlock (I_mmap_rwsem (f_mapping E f)))
        (vma_link_file E p (f_mapping E f) (emit (Lock (I_mmap_rwsem (f_mapping E f))) ?s))"
  have u: "same_mm ?u ?s" by (simp split: option.split)
  have u2: "t = add_map_count 1 ?u"
    using l unfolding vma_link_def Let_def by (auto split: if_splits)
  have "same_mm ?s (vma_iter_store E p s)" by (simp add: same_mm_def vma_iter_store_def upd_mm_def emit_def vma_at_def)
  from same_mm_trans [OF u this] show "same_mm t (add_map_count 1 (vma_iter_store E p s))"
    unfolding u2 by (simp add: same_mm_def add_map_count_def upd_mm_def)
qed

text \<open>Linking a live mapping that is not indexed, over a free range.\<close>

definition linkable :: "('t, 'a) mm_env_scheme \<Rightarrow> 't mm_state \<Rightarrow> vptr \<Rightarrow> bool" where
  "linkable E s p \<longleftrightarrow>
     vmas s p \<noteq> None \<and> p \<notin> mapped (index E) s \<and> vm_start (vma_at s p) < vm_end (vma_at s p) \<and>
     4096 dvd unat (vm_start (vma_at s p)) \<and> 4096 dvd unat (vm_end (vma_at s p))"

lemma stores_fresh:
  assumes M: "maple_ok (index E)" and l: "linkable E s p"
    and free: "\<And>k. vm_start (vma_at s p) \<le> k \<Longrightarrow> k < vm_end (vma_at s p) \<Longrightarrow> entry_at (index E) s k = None"
    and t: "same_mm t (add_map_count 1 (vma_iter_store E p s))"
  shows "covers E s (vm_start (vma_at s p)) (vm_end (vma_at s p)) p {}" "stores E p (vma_at s p) {} s t"
proof -
  show "covers E s (vm_start (vma_at s p)) (vm_end (vma_at s p)) p {}"
    using l free by (auto simp: covers_def linkable_def mapped_def)
  let ?v = "vma_at s p"
  have "vmas t = vmas s" and m: "cur_mm t = (cur_mm s)\<lparr>mm_mt := mt_store (index E) (tree s) (vm_start ?v)
      (vm_end ?v - 1) (Some p), map_count := map_count (cur_mm s) + 1\<rparr>"
    using t by (simp_all add: same_mm_def add_map_count_def vma_iter_store_def)
  moreover have "vmas s p = Some ?v" using l by (auto simp: linkable_def vma_at_def)
  moreover have "vm_start ?v < vm_end ?v" "p \<notin> mapped (index E) s" using l by (auto simp: linkable_def)
  moreover have "entry_at (index E) t k =
      (if vm_start ?v \<le> k \<and> k < vm_end ?v then Some p else entry_at (index E) s k)" for k
    using calculation(4) by (simp add: m maple_store [OF M] le_below_end)
  ultimately show "stores E p ?v {} s t" by (simp add: stores_def)
qed

lemma find_intersection_free:
  assumes "env_ok E"
  shows "find_vma_intersection E s a b = None \<longleftrightarrow>
    (\<forall>k. a \<le> k \<and> k \<le> b - 1 \<longrightarrow> entry_at (index E) s k = None)"
  using find_vma_intersection_spec [OF assms, of s a b]
  by (auto simp: find_law_def split: option.splits)

section \<open>The counters\<close>

text \<open>What changes of single mappings leave of the \<open>mm_struct\<close>: all but the index and the count.\<close>

definition counters :: "'t mm_struct \<Rightarrow> u64 list" where
  "counters m = [total_vm m, locked_vm m, data_vm m, exec_vm m, stack_vm m, start_brk m, brk m,
     start_data m, end_data m, def_flags m, mmap_base m]"

abbreviation same_counters :: "'t mm_state \<Rightarrow> 't mm_state \<Rightarrow> bool" where
  "same_counters s t \<equiv> counters (cur_mm t) = counters (cur_mm s)"

lemma counters_upd [simp]:
  "counters (m\<lparr>mm_mt := x\<rparr>) = counters m" "counters (m\<lparr>map_count := n\<rparr>) = counters m"
  by (simp_all add: counters_def)

section \<open>What a process sees, without the soft-dirty flag\<close>

text \<open>
  The flag is set by every change of a mapping and ignored when mappings are compared; the
  page protection follows from the other flags.
\<close>

definition seen :: "('t, 'a) mm_env_scheme \<Rightarrow> 't mm_state \<Rightarrow> u64 \<Rightarrow> (fptr option \<times> u64 \<times> u64) option" where
  "seen E s x = map_option (\<lambda>(f, pg, fl, pr). (f, pg, fl AND NOT (cst E VM_SOFTDIRTY))) (view E s x)"

lemma seen_view: "view E t = view E s \<Longrightarrow> seen E t = seen E s"
  by (simp add: seen_def fun_eq_iff)

lemma and_not_eq:
  fixes a b m :: u64
  assumes "(a XOR b) AND NOT m = 0"
  shows "a AND NOT m = b AND NOT m"
proof (rule bit_word_eqI)
  fix n assume "n < LENGTH(64)"
  moreover have "bit ((a XOR b) AND NOT m) n = False" using assms by simp
  ultimately show "bit (a AND NOT m) n = bit (b AND NOT m) n" by (auto simp: bit_simps)
qed

lemma or_and_not: "(a OR m) AND NOT m = a AND NOT (m :: u64)"
  by (rule bit_word_eqI) (auto simp: bit_simps)

end
