(* ===== verification/Vma_Props.thy ===== *)
theory Vma_Props
  imports Vma_Spec
begin

text \<open>
  The claims about the operations that change mappings: each operation refines its effect on
  the abstract address space, keeps the invariant \<open>mm_ok\<close>, and leaves everything as it was
  when it fails.
\<close>

lemma demo_mm_ok [simp]: "mm_ok x86_env demo_mms"
  by (simp add: mm_ok_def)

lemma demo_pair_mm_ok [simp]: "mm_ok x86_env demo_pair"
  by (simp add: mm_ok_def)

text \<open>
  C18: splitting a mapping changes no page of the address space.  For an address inside the
  mapping on a page boundary, \<open>split_vma\<close> either fails and leaves mappings, index and counters
  as they were (in particular at the limit on the number of mappings), or every address
  shows the same file, page, flags and protection as before, the invariant holds, and the
  mapping is now two: the new one on the side asked for, the old one on the other.
\<close>

theorem split_preserves_address_space:
  assumes E: "env_ok E" and ok: "mm_ok E s" and vma: "vma \<in> mapped (index E) s"
    and at: "vm_start (vma_at s vma) < addr" "addr < vm_end (vma_at s vma)" "4096 dvd unat addr"
    and sp: "split_vma E vma addr below s = (r, t)"
  shows "case r of
      Inl e \<Rightarrow> same_mm t s
    | Inr _ \<Rightarrow> mm_ok E t \<and> view E t = view E s \<and> map_count (cur_mm s) < sysctl_max_map_count E \<and>
        map_count (cur_mm t) = map_count (cur_mm s) + 1 \<and>
        (\<exists>new. mapped (index E) t = insert new (mapped (index E) s) \<and> new \<notin> mapped (index E) s \<and>
           (let low = (if below then new else vma); high = (if below then vma else new)
            in vm_start (vma_at t low) = vm_start (vma_at s vma) \<and> vm_end (vma_at t low) = addr \<and>
               vm_start (vma_at t high) = addr \<and> vm_end (vma_at t high) = vm_end (vma_at s vma)))"
proof (cases r)
  case (Inl e)
  then show ?thesis
    using sp split_nocheck_fail [OF E] by (auto simp: split_vma_def split: if_splits)
next
  case (Inr u)
  then have lim: "map_count (cur_mm s) < sysctl_max_map_count E"
    and n: "split_vma_nocheck E vma addr below s = (Inr (), t)"
    using sp by (auto simp: split_vma_def split: if_splits)
  note o = split_nocheck_ok [OF E ok vma at n]
  obtain t' where "cur_mm t = (cur_mm s)\<lparr>mm_mt := t', map_count := map_count (cur_mm s) + 1\<rparr>"
    using o(6) by blast
  moreover have "vm_start (vma_at t vma) = (if below then addr else vm_start (vma_at s vma))"
    "vm_end (vma_at t vma) = (if below then vm_end (vma_at s vma) else addr)"
    unfolding o(4) by (simp_all add: split_rest_def)
  ultimately show ?thesis using Inr lim o(1,2,3) by (auto simp: Let_def)
qed

theorem split_preserves_address_space_witness:
  "fst (split_vma x86_env 2 0x601000 True demo_mms) = Inr () \<and>
   view x86_env (snd (split_vma x86_env 2 0x601000 True demo_mms)) = view x86_env demo_mms"
proof -
  obtain r t where s: "split_vma x86_env 2 0x601000 True demo_mms = (r, t)" by fastforce
  have "driver_may_split x86_env demo_mms 2 0x601000 = None"
    by (simp add: driver_may_split_def demo_heap_def blank_vma_def)
  moreover have "first_free demo_mms = Some 10" by (simp add: first_free_def demo_mms_def)
  moreover have "map_count (cur_mm demo_mms) = 3" by (simp add: demo_mms_def demo_mm_def)
  ultimately have "r = Inr ()"
    using s by (auto simp: split_vma_def split_vma_nocheck_def Let_def)
  with split_preserves_address_space [of x86_env demo_mms 2 "0x601000" True r t] s
  show ?thesis by (simp add: demo_mapped) (simp add: demo_heap_def blank_vma_def)
qed

text \<open>
  C19: expanding a mapping adds exactly the new range.  Let the range \<open>[start, fin)\<close> contain the
  mapping, and the next one whole when the expansion ends at its end, and no other mapping.
  Then on success \<open>vma_expand\<close> keeps the invariant; every address of the range shows the
  mapping's file at the page counted from the new offset, with its flags and protection, and every other address is
  as before; the next mapping, if swallowed, is gone and the count of mappings one less.  On
  failure nothing changes but the mapping's \<open>anon_vma\<close>.
\<close>

theorem expand_extends_mapping:
  assumes E: "env_ok E" and ok: "mm_ok E s" and p: "vma \<in> mapped (index E) s"
    and c: "covers E s start fin vma (set_option (expand_removes s vma fin nxt))"
    and r: "vma_expand E vma start fin pgoff nxt s = (r, t)"
  shows "mm_ok E t \<and>
    (case r of
       Inl e \<Rightarrow> view E t = view E s \<and> cur_mm t = cur_mm s
     | Inr _ \<Rightarrow>
         (\<forall>k. view E t k =
            (if start \<le> k \<and> k < fin
             then Some (vm_file (vma_at s vma), pgoff + drop_bit 12 (k - start),
                    vm_flags (vma_at s vma), vm_page_prot (vma_at s vma))
             else view E s k)) \<and>
         mapped (index E) t = mapped (index E) s - set_option (expand_removes s vma fin nxt))"
proof (cases r)
  case (Inl e)
  have a: "anon_upd vma s t"
    using vma_expand_fail [OF mapped_extent(1) [OF mm_ok_wf [OF ok] p]] r Inl by blast
  have "cur_mm t = cur_mm s" using a by (simp add: anon_upd_def)
  with anon_upd_ok [OF a ok p] anon_upd_view(2) [OF a] Inl show ?thesis by simp
next
  case (Inr u)
  then obtain av ch where st: "stores E vma ((vma_at s vma)\<lparr>anon_vma := av, anon_vma_chain := ch,
      vm_start := start, vm_end := fin, vm_pgoff := pgoff\<rparr>)
      (set_option (expand_removes s vma fin nxt)) s t"
    using vma_expand_ok [OF ok env_maple [OF E] p c] r by (cases u) blast
  have "vma \<notin> set_option (expand_removes s vma fin nxt)" using c by (simp add: covers_def)
  with stores_ok [OF ok _ st] c p Inr show ?thesis
    by (auto simp: content_def page_at_def)
qed

theorem expand_extends_mapping_witness:
  "fst (vma_expand x86_env 1 0x20000 0x24000 0x20 (Some 2) demo_pair) = Inr () \<and>
   mapped log_maple (snd (vma_expand x86_env 1 0x20000 0x24000 0x20 (Some 2) demo_pair)) = {1}"
proof -
  obtain r t where e: "vma_expand x86_env 1 0x20000 0x24000 0x20 (Some 2) demo_pair = (r, t)" by fastforce
  have ex: "expand_removes demo_pair 1 0x24000 (Some 2) = Some 2"
    by (simp add: expand_removes_def demo_pair_vma demo_high_def blank_vma_def)
  have rng: "k < 0x22000 \<Longrightarrow> k < 0x24000" "0x22000 \<le> k \<Longrightarrow> 0x20000 \<le> k" for k :: u64
    by (auto simp: word_le_nat_alt word_less_nat_alt)
  have c: "covers x86_env demo_pair 0x20000 0x24000 1 (set_option (expand_removes demo_pair 1 0x24000 (Some 2)))"
    unfolding ex covers_def using rng
    by (simp add: demo_pair_mapped demo_pair_load)
  have "r = Inr ()"
    using e by (auto simp: vma_expand_def Let_def demo_pair_vma demo_high_def demo_low_def blank_vma_def
        dup_anon_vma_def upd_vma_def split: if_splits)
  moreover have "mapped log_maple demo_pair - {2} = {1}" by (auto simp: demo_pair_mapped)
  ultimately show ?thesis
    using expand_extends_mapping [OF _ _ _ c e] e ex by (simp add: demo_pair_mapped)
qed

text \<open>
  C20: shrinking a mapping at one end unmaps exactly what is cut off.  \<open>vma_shrink\<close> with the page
  offset moved along either fails with \<open>-ENOMEM\<close> and changes nothing, or keeps the invariant,
  leaves the cut-off addresses unmapped, and every other address of the
  address space, those of the rest of the mapping included, shows what it showed.
\<close>

theorem shrink_unmaps_the_end:
  assumes E: "env_ok E" and ok: "mm_ok E s" and p: "vma \<in> mapped (index E) s"
    and cut: "if vm_start (vma_at s vma) < start then fin = vm_end (vma_at s vma)
      else start = vm_start (vma_at s vma) \<and> fin < vm_end (vma_at s vma)"
    and al: "start < fin" "4096 dvd unat start" "4096 dvd unat fin"
    and off: "pgoff = vm_pgoff (vma_at s vma) + drop_bit 12 (start - vm_start (vma_at s vma))"
    and r: "vma_shrink E vma start fin pgoff s = (r, t)"
  shows "case r of
      Inl e \<Rightarrow> e = ENOMEM \<and> t = s
    | Inr _ \<Rightarrow> mm_ok E t \<and>
        (\<forall>k. view E t k =
          (if entry_at (index E) s k = Some vma \<and> \<not> (start \<le> k \<and> k < fin) then None else view E s k))"
proof (cases r)
  case (Inl e)
  with r vma_shrink_fail [of E vma start fin pgoff s e t] show ?thesis by simp
next
  case (Inr u)
  let ?v = "vma_at s vma" and ?w = "(vma_at s vma)\<lparr>vm_start := start, vm_end := fin, vm_pgoff := pgoff\<rparr>"
  define a where "a = (if vm_start ?v < start then vm_start ?v else fin)"
  define b where "b = (if vm_start ?v < start then start else vm_end ?v)"
  note x = mapped_extent [OF mm_ok_wf [OF ok] p]
  have sh: "vma_shrink E vma start fin pgoff s = (Inr (), t)" using r Inr by (cases u) simp
  note st = vma_shrink_state [OF sh, folded a_def b_def]
  have ab: "a < b" using cut by (auto simp: a_def b_def split: if_splits)
  have e: "entry_at (index E) t k = (if a \<le> k \<and> k < b then None else entry_at (index E) s k)" for k
    using ab by (simp add: st(2) maple_store [OF env_maple [OF E]] le_below_end)
  have rng: "(vm_start ?v \<le> k \<and> k < vm_end ?v) = ((a \<le> k \<and> k < b) \<or> (start \<le> k \<and> k < fin))"
    "\<not> ((a \<le> k \<and> k < b) \<and> start \<le> k \<and> k < fin)" for k
    using cut al(1) by (auto simp: a_def b_def split: if_splits)
  have al': "4096 dvd unat (vm_start ?v)" using mm_ok_aligned [OF ok] p by (simp add: vmas_aligned_def)
  have "vm_start ?v \<le> start" using cut by (auto split: if_splits)
  then have con: "content ?w k = content ?v k" if "start \<le> k" for k
    using page_at_extend [OF _ that al(2) al'] off by (simp add: content_def page_at_def)
  have t: "mm_ok E t" "view E t k = (if a \<le> k \<and> k < b then None else view E s k)" for k
    by (rule trims_ok [OF ok p e, of ?w]; use st al rng con in simp)+
  have "(a \<le> k \<and> k < b) = (entry_at (index E) s k = Some vma \<and> \<not> (start \<le> k \<and> k < fin))" for k
    using rng [of k] x(3) [of k] by blast
  with t Inr show ?thesis by simp
qed

theorem shrink_unmaps_the_end_witness:
  "fst (vma_shrink x86_env 2 0x601000 0x603000 0x601 demo_mms) = Inr () \<and>
   view x86_env (snd (vma_shrink x86_env 2 0x601000 0x603000 0x601 demo_mms)) 0x600800 = None"
proof -
  obtain r t where s: "vma_shrink x86_env 2 0x601000 0x603000 0x601 demo_mms = (r, t)" by fastforce
  have "r = Inr ()" using s by (auto simp: vma_shrink_def Let_def demo_heap_def blank_vma_def)
  moreover have "case r of
      Inl e \<Rightarrow> e = ENOMEM \<and> t = demo_mms
    | Inr _ \<Rightarrow> mm_ok x86_env t \<and>
        (\<forall>k. view x86_env t k =
          (if entry_at (index x86_env) demo_mms k = Some 2 \<and> \<not> (0x601000 \<le> k \<and> k < 0x603000) then None
           else view x86_env demo_mms k))"
    by (rule shrink_unmaps_the_end [OF _ _ _ _ _ _ _ _ s])
      (simp_all add: demo_mapped demo_heap_def blank_vma_def drop_bit_eq_div)
  ultimately show ?thesis using s by (simp add: demo_load)
qed

text \<open>
  C21: inserting a mapping.  For a mapping not yet in the address space, with page-aligned bounds,
  \<open>insert_vm_struct\<close> refuses with \<open>-ENOMEM\<close>, changing nothing, when any of its addresses is
  mapped; otherwise it either fails with \<open>-ENOMEM\<close>, the index and counters unchanged and
  every charge given back, or keeps the invariant and maps exactly the addresses of the
  new mapping.  An anonymous mapping gets its address as its page number.
\<close>

theorem insert_maps_free_range:
  assumes E: "env_ok E" and ok: "mm_ok E s" and l: "linkable E s p"
    and i: "insert_vm_struct E p s = Done (r, t)"
  defines "v \<equiv> vma_at s p"
  defines "v' \<equiv> (if vma_is_anonymous E v then v\<lparr>vm_pgoff := drop_bit 12 (vm_start v)\<rparr> else v)"
  shows "if \<exists>k. vm_start v \<le> k \<and> k < vm_end v \<and> entry_at (index E) s k \<noteq> None
    then r = Inl ENOMEM \<and> t = s
    else case r of
        Inl e \<Rightarrow> e = ENOMEM \<and> cur_mm t = cur_mm s \<and>
          (trace t = trace s \<or> trace t = trace s @ [Charge (vma_pages E v), Unacct (vma_pages E v)])
      | Inr _ \<Rightarrow> mm_ok E t \<and> mapped (index E) t = insert p (mapped (index E) s) \<and>
          (\<forall>k. view E t k = (if vm_start v \<le> k \<and> k < vm_end v then Some (content v' k) else view E s k))"
proof -
  let ?M = "index E"
  have sh: "PAGE_SHIFT E = 12" using E by (simp add: env_hdr hdr_simps)
  have se: "vm_start v < vm_end v" and live: "vmas s p = Some v"
    using l by (auto simp: linkable_def v_def vma_at_def)
  have free: "find_vma_intersection E s (vm_start v) (vm_end v) = None \<longleftrightarrow>
      \<not> (\<exists>k. vm_start v \<le> k \<and> k < vm_end v \<and> entry_at ?M s k \<noteq> None)"
    using find_intersection_free [OF E] le_below_end [OF se] by auto
  show ?thesis
  proof (cases "find_vma_intersection E s (vm_start v) (vm_end v) = None")
    case False
    with i free show ?thesis by (auto simp: insert_vm_struct_def Let_def v_def)
  next
    case True
    let ?c = "vma_pages E v" and ?acc = "flag E v VM_ACCOUNT"
    obtain no s1 where ch: "(if ?acc then charge_memory E ?c s else (False, s)) = (no, s1)" by fastforce
    then have s1: "same_mm s1 s" "trace s1 = trace s @ (if ?acc \<and> \<not> no then [Charge ?c] else [])"
      by (auto simp: charge_memory_def split: if_splits)
    define s2 where "s2 = (if vma_is_anonymous E v
        then upd_vma p (\<lambda>v. v\<lparr>vm_pgoff := drop_bit (PAGE_SHIFT E) (vm_start v)\<rparr>) s1 else s1)"
    have v1: "vma_at s1 = vma_at s" "vmas s1 = vmas s" "cur_mm s1 = cur_mm s" using same_mmD [OF s1(1)] by auto
    have s2: "vmas s2 = (vmas s)(p \<mapsto> v')" "cur_mm s2 = cur_mm s" "trace s2 = trace s1"
      using v1 live sh by (auto simp: s2_def upd_vma_def v'_def v_def fun_eq_iff)
    have a2: "vma_at s2 p = v'" "vm_start v' = vm_start v" "vm_end v' = vm_end v"
      using s2(1) by (simp_all add: vma_at_def v'_def)
    show ?thesis
    proof (cases no)
      case True': True
      with i True ch have "r = Inl ENOMEM" "t = s1"
        unfolding insert_vm_struct_def Let_def v_def [symmetric] by simp_all
      with True True' free s1 v1 show ?thesis by auto
    next
      case no: False
      obtain r' t' where lk: "vma_link E p s2 = (r', t')" by fastforce
      have res: "(r, t) = (case r' of Inl _ \<Rightarrow> (Inl ENOMEM, if ?acc then emit (Unacct ?c) t' else t')
          | Inr _ \<Rightarrow> (Inr (), t'))"
        using i True ch no lk v1 unfolding insert_vm_struct_def Let_def v_def [symmetric] s2_def
        by (auto split: if_splits sum.splits)
      show ?thesis
      proof (cases r')
        case (Inl e)
        with vma_link_state(1) [of E p s2 e t'] lk have "t' = s2" by simp
        with Inl res True free s1 s2 no show ?thesis by auto
      next
        case (Inr u)
        with lk have lk': "vma_link E p s2 = (Inr (), t')" by (cases u) simp
        have mp: "mapped ?M s2 = mapped ?M s" by (simp add: mapped_def s2(2))
        then have l2: "linkable E s2 p" using l a2 s2 by (simp add: linkable_def v_def)
        have fr: "entry_at ?M s2 k = None" if "vm_start (vma_at s2 p) \<le> k" "k < vm_end (vma_at s2 p)" for k
          using that True free unfolding a2 s2(2) by blast
        note st = stores_fresh [OF env_maple [OF E] l2 fr vma_link_state(2) [OF lk'], unfolded a2]
        have "covers E s (vm_start v') (vm_end v') p {}"
          using st(1) unfolding a2 covers_def mp s2(2) .
        moreover have "stores E p v' {} s t'"
        proof -
          have "vmas s2 q = vmas s q" if "q \<noteq> p" for q using that by (simp add: s2(1))
          with st(2) show ?thesis unfolding stores_def mp s2(2) by simp
        qed
        ultimately have "mm_ok E t'" "mapped ?M t' = insert p (mapped ?M s - {})"
          "view E t' k = (if vm_start v' \<le> k \<and> k < vm_end v' then Some (content v' k) else view E s k)" for k
          using stores_ok [OF ok] by blast+
        with Inr res True free a2 show ?thesis by auto
      qed
    qed
  qed
qed

definition demo_new :: "wlog mm_state" where
  "demo_new = put_vma 9 (blank_vma\<lparr>vm_start := 0x700000, vm_end := 0x701000, vm_flags := 0x100073\<rparr>) demo_mms"

lemma demo_new_ok [simp]: "mm_ok x86_env demo_new" "mapped log_maple demo_new = {1, 2, 3}"
proof -
  have "tree demo_new = tree demo_mms" by (simp add: demo_new_def)
  then have "mm_wf log_maple demo_new"
    unfolding mm_wf_def log_maple_sel by (simp only: demo_load)
      (auto simp: demo_new_def demo_defs split: if_splits dest: demo_apart)
  moreover show m: "mapped log_maple demo_new = {1, 2, 3}"
    using demo_mapped by (simp add: mapped_def demo_new_def)
  moreover have "count_ok log_maple demo_new" "vmas_aligned log_maple demo_new"
    using demo_count demo_aligned unfolding count_ok_def vmas_aligned_def m demo_mapped
    by (simp_all add: demo_new_def)
  ultimately show "mm_ok x86_env demo_new" by (simp add: mm_ok_def)
qed

theorem insert_maps_free_range_witness:
  "\<exists>t. insert_vm_struct x86_env 9 demo_new = Done (Inr (), t) \<and>
     mapped log_maple t = {1, 2, 3, 9} \<and> map_count (cur_mm t) = 4"
proof -
  have v: "vma_at demo_new 9 = blank_vma\<lparr>vm_start := 0x700000, vm_end := 0x701000, vm_flags := 0x100073\<rparr>"
    by (simp add: demo_new_def)
  have free: "log_load (tree demo_new) k = None" if "0x700000 \<le> k" "k < 0x701000" for k
    using that by (simp add: demo_new_def demo_load word_le_nat_alt word_less_nat_alt)
  then have "find_vma_intersection x86_env demo_new 0x700000 0x701000 = None"
    using find_intersection_free [of x86_env demo_new "0x700000" "0x701000"] by (simp add: le_below)
  then obtain t where i: "insert_vm_struct x86_env 9 demo_new = Done (Inr (), t)"
    by (auto simp: insert_vm_struct_def v Let_def charge_memory_def blank_vma_def vma_link_def
        split: option.splits)
  have l: "linkable x86_env demo_new 9"
    by (simp add: linkable_def v blank_vma_def) (simp add: demo_new_def)
  have "\<not> (\<exists>k. vm_start (vma_at demo_new 9) \<le> k \<and> k < vm_end (vma_at demo_new 9) \<and>
      entry_at (index x86_env) demo_new k \<noteq> None)"
    using free by (auto simp: v blank_vma_def)
  from insert_maps_free_range [OF _ _ l i, unfolded if_not_P [OF this]]
  have "mm_ok x86_env t" "mapped log_maple t = {1, 2, 3, 9}" by auto
  with i show ?thesis by (auto simp: mm_ok_def count_ok_def)
qed

end
