(* ===== verification/Vma_Locks.thy ===== *)
theory Vma_Locks
  imports Vma_Ops
begin

text \<open>
  The lock discipline of the operations of \<open>Vma_Ops\<close>: \<open>lock_step\<close> follows the locks from one
  state to a later one and composes; \<open>vma_prepare\<close> takes the locks of the change,
  \<open>vma_complete\<close> releases them, and every operation leaves the locks as it found them.
\<close>

definition lock_step :: "lock list \<Rightarrow> 't mm_state \<Rightarrow> lock list \<Rightarrow> 't mm_state \<Rightarrow> bool" where
  "lock_step h s h' t \<longleftrightarrow> (\<exists>es. trace t = trace s @ es \<and> lock_run h es = Some h')"

lemma lock_step_refl: "trace t = trace s \<Longrightarrow> lock_step h s h t"
  by (auto simp: lock_step_def)

lemma lock_step_trans [trans]:
  "lock_step h s h' t \<Longrightarrow> lock_step h' t h'' u \<Longrightarrow> lock_step h s h'' u"
  by (auto simp: lock_step_def lock_run_append)

fun is_lock_event :: "event \<Rightarrow> bool" where
  "is_lock_event (Lock l) = True"
| "is_lock_event (Unlock l) = True"
| "is_lock_event Mmap_downgrade = True"
| "is_lock_event _ = False"

lemma lock_run_other: "\<not> is_lock_event e \<Longrightarrow> lock_run h (e # es) = lock_run h es"
  by (cases e) auto

lemma lock_run_others: "(\<And>e. e \<in> set es \<Longrightarrow> \<not> is_lock_event e) \<Longrightarrow> lock_run h es = Some h"
  by (induction es) (auto simp: lock_run_other)

lemma lock_step_emit:
  "\<not> is_lock_event e \<Longrightarrow> lock_step h s h' t \<Longrightarrow> lock_step h s h' (emit e t)"
  "lock_step h s h' t \<Longrightarrow> l \<notin> set h' \<Longrightarrow> lock_step h s (l # h') (emit (Lock l) t)"
  "lock_step h s (l # h') t \<Longrightarrow> lock_step h s h' (emit (Unlock l) t)"
  by (auto simp: lock_step_def lock_run_append lock_run_other split: option.splits)

lemma lock_step_state:
  "lock_step h s h' t \<Longrightarrow> trace u = trace t \<Longrightarrow> lock_step h s h' u"
  by (simp add: lock_step_def)

lemma trace_ops [simp]:
  "trace (emits es s) = trace s @ es" "trace (upd_vma p f s) = trace s"
  "trace (add_map_count n s) = trace s" "trace (vma_iter_store E p s) = trace s"
  "trace (vma_iter_clear E a b s) = trace s" "trace (put_vma p v s) = trace s"
  by (simp_all add: emits_def upd_vma_def add_map_count_def vma_iter_store_def vma_iter_clear_def)

lemma trace_free [simp]: "trace (vm_area_free p s) = trace s @ [Free (Vma_obj p)]"
  by (simp add: vm_area_free_def)

lemma lock_step_emits:
  assumes "lock_step h s h' t" "\<And>e. e \<in> set es \<Longrightarrow> \<not> is_lock_event e"
  shows "lock_step h s h' (emits es t)"
  using assms lock_run_others [of es h'] by (auto simp: lock_step_def lock_run_append)

lemma lock_step_flush:
  assumes "Flush_dcache m \<notin> set h'" "lock_step h s h' t" "\<not> is_lock_event e"
  shows "lock_step h s h' (emits [Lock (Flush_dcache m), e, Unlock (Flush_dcache m)] t)"
  using assms by (auto simp: lock_step_def lock_run_append lock_run_other)

lemma lock_step_anon:
  "lock_step h s h' t \<Longrightarrow> lock_step h s h' (anon_vma_interval_tree_pre_update_vma p t)"
  "lock_step h s h' t \<Longrightarrow> lock_step h s h' (anon_vma_interval_tree_post_update_vma p t)"
  unfolding anon_vma_interval_tree_pre_update_vma_def anon_vma_interval_tree_post_update_vma_def
  by (rule lock_step_emits; auto)+

lemma lock_step_opt_do:
  "lock_step h s h' t \<Longrightarrow> (\<And>y. x = Some y \<Longrightarrow> lock_step h s h' (f y t)) \<Longrightarrow> lock_step h s h' (opt_do x f t)"
  by (cases x) (auto simp: opt_do_def)

lemma lock_step_link_file:
  assumes "Flush_dcache m \<notin> set h'" "lock_step h s h' t"
  shows "lock_step h s h' (vma_link_file E p m t)" "lock_step h s h' (remove_shared_vm_struct E p m t)"
  unfolding vma_link_file_def remove_shared_vm_struct_def Let_def
  by (rule lock_step_flush; use assms in \<open>simp add: lock_step_emit(1)\<close>)+

text \<open>Only the locks of the memory map itself, none of a file or an \<open>anon_vma\<close>.\<close>

definition only_mm_locks :: "lock list \<Rightarrow> bool" where
  "only_mm_locks h \<longleftrightarrow> set h \<subseteq> {Memory_list_mutex, Mmap_write_lock, Mmap_read_lock, Page_table_lock, Task_lock}"

lemma only_mm_locksD:
  "only_mm_locks h \<Longrightarrow> Flush_dcache m \<notin> set h" "only_mm_locks h \<Longrightarrow> Anon_vma_lock av \<notin> set h"
  "only_mm_locks h \<Longrightarrow> I_mmap_rwsem m \<notin> set h"
  by (auto simp: only_mm_locks_def)

lemma lock_step_uprobe: "lock_step h s h' t \<Longrightarrow> lock_step h s h' (uprobe_munmap p t)"
  by (simp add: uprobe_munmap_def lock_step_emit)

lemma lock_step_same_trace:
  "lock_step h s h' t \<Longrightarrow> lock_step h s h' (add_map_count n t)"
  "lock_step h s h' t \<Longrightarrow> lock_step h s h' (vma_iter_store E p t)"
  "lock_step h s h' t \<Longrightarrow> lock_step h s h' (vma_iter_clear E a b t)"
  "lock_step h s h' t \<Longrightarrow> lock_step h s h' (upd_vma p f t)"
  by (simp_all add: lock_step_def)

lemma lock_step_free: "lock_step h s h' t \<Longrightarrow> lock_step h s h' (vm_area_free p t)"
  by (auto simp: lock_step_def lock_run_append lock_run_other)

lemmas lock_step_intros = lock_step_opt_do lock_step_uprobe lock_step_link_file lock_step_anon
  lock_step_same_trace lock_step_free lock_step_emit(1)

definition file_lock :: "vma_prepare \<Rightarrow> lock list" where
  "file_lock vp = (if vp_file vp = None then [] else [I_mmap_rwsem (vp_mapping vp)])"

definition anon_lock :: "vma_prepare \<Rightarrow> lock list" where
  "anon_lock vp = (case vp_anon_vma vp of None \<Rightarrow> [] | Some av \<Rightarrow> [Anon_vma_lock av])"

definition flush_lock :: "vma_prepare \<Rightarrow> lock list" where
  "flush_lock vp = (if vp_file vp = None then [] else [Flush_dcache (vp_mapping vp)])"

lemma prepare_locks:
  assumes h: "only_mm_locks h" and t: "lock_step h s h t"
  shows "lock_step h s (flush_lock vp @ anon_lock vp @ file_lock vp @ h) (do_vma_prepare E vp t)"
proof -
  note n = only_mm_locksD [OF h]
  have 1: "lock_step h s (file_lock vp @ h) (prepare_file E vp t)"
  proof (cases "vp_file vp")
    case None
    with t show ?thesis by (simp add: prepare_file_def file_lock_def)
  next
    case (Some f)
    have "lock_step h s h (opt_do (vp_adj_next vp) uprobe_munmap (uprobe_munmap (vp_vma vp) t))"
      by (intro lock_step_intros t)
    then have "lock_step h s (I_mmap_rwsem (vp_mapping vp) # h) (emit (Lock (I_mmap_rwsem (vp_mapping vp)))
        (opt_do (vp_adj_next vp) uprobe_munmap (uprobe_munmap (vp_vma vp) t)))"
      using n by (intro lock_step_emit)
    with Some n show ?thesis
      by (auto simp: prepare_file_def file_lock_def Let_def intro!: lock_step_opt_do lock_step_link_file
          split: option.split)
  qed
  have 2: "lock_step h s (anon_lock vp @ file_lock vp @ h) (prepare_anon vp u)"
    if u: "lock_step h s (file_lock vp @ h) u" for u
  proof (cases "vp_anon_vma vp")
    case None
    with u show ?thesis by (simp add: prepare_anon_def anon_lock_def)
  next
    case (Some av)
    have "Anon_vma_lock av \<notin> set (file_lock vp @ h)" using n by (simp add: file_lock_def)
    with u have "lock_step h s (Anon_vma_lock av # file_lock vp @ h) (emit (Lock (Anon_vma_lock av)) u)"
      by (intro lock_step_emit)
    with Some show ?thesis by (auto simp: prepare_anon_def anon_lock_def Let_def intro!: lock_step_intros)
  qed
  have 3: "lock_step h s (flush_lock vp @ anon_lock vp @ file_lock vp @ h) (prepare_flush vp u)"
    if u: "lock_step h s (anon_lock vp @ file_lock vp @ h) u" for u
  proof (cases "vp_file vp")
    case None
    with u show ?thesis by (simp add: prepare_flush_def flush_lock_def)
  next
    case (Some f)
    have "Flush_dcache (vp_mapping vp) \<notin> set (anon_lock vp @ file_lock vp @ h)"
      using n by (auto simp: file_lock_def anon_lock_def split: option.split)
    with u have "lock_step h s (Flush_dcache (vp_mapping vp) # anon_lock vp @ file_lock vp @ h)
        (emits [Lock (Flush_dcache (vp_mapping vp)), I_mmap_remove (vp_mapping vp) (vp_vma vp)] u)"
      by (auto simp: lock_step_def lock_run_append lock_run_other)
    with Some show ?thesis by (auto simp: prepare_flush_def flush_lock_def Let_def intro!: lock_step_intros)
  qed
  show ?thesis unfolding do_vma_prepare_def by (rule 3 [OF 2 [OF 1]])
qed

lemma complete_remove_locks: "lock_step h s h' t \<Longrightarrow> lock_step h s h' (complete_remove vp r t)"
  unfolding complete_remove_def Let_def
  by (auto intro!: lock_step_intros split: option.split)

lemma complete_locks:
  assumes h: "only_mm_locks h"
    and t: "lock_step h s (flush_lock vp @ anon_lock vp @ file_lock vp @ h) t"
  shows "lock_step h s h (vma_complete E vp t)"
proof -
  note n = only_mm_locksD [OF h]
  have 1: "lock_step h s (anon_lock vp @ file_lock vp @ h) (complete_flush vp t)"
  proof (cases "vp_file vp")
    case None
    with t show ?thesis by (simp add: complete_flush_def flush_lock_def)
  next
    case (Some f)
    let ?u = "opt_do (vp_adj_next vp) (\<lambda>n. emit (I_mmap_insert (vp_mapping vp) n)) t"
    have "lock_step h s (Flush_dcache (vp_mapping vp) # anon_lock vp @ file_lock vp @ h) ?u"
      using t Some by (auto simp: flush_lock_def intro!: lock_step_intros)
    then have "lock_step h s (anon_lock vp @ file_lock vp @ h)
        (emits [I_mmap_insert (vp_mapping vp) (vp_vma vp), Unlock (Flush_dcache (vp_mapping vp))] ?u)"
      by (auto simp: lock_step_def lock_run_append lock_run_other)
    with Some show ?thesis by (simp add: complete_flush_def Let_def)
  qed
  have "Flush_dcache (vp_mapping vp) \<notin> set (anon_lock vp @ file_lock vp @ h)"
    using n by (auto simp: file_lock_def anon_lock_def split: option.split)
  with 1 have 2: "lock_step h s (anon_lock vp @ file_lock vp @ h) (complete_links E vp (complete_flush vp t))"
    by (auto simp: complete_links_def intro!: lock_step_intros)
  have 3: "lock_step h s (file_lock vp @ h) (complete_anon vp u)"
    if u: "lock_step h s (anon_lock vp @ file_lock vp @ h) u" for u
  proof (cases "vp_anon_vma vp")
    case None
    with u show ?thesis by (simp add: complete_anon_def anon_lock_def)
  next
    case (Some av)
    with u show ?thesis
      by (auto simp: complete_anon_def anon_lock_def Let_def intro!: lock_step_emit(3) lock_step_opt_do lock_step_anon)
  qed
  have 4: "lock_step h s h (complete_file vp u)" if u: "lock_step h s (file_lock vp @ h) u" for u
  proof (cases "vp_file vp")
    case None
    with u show ?thesis by (simp add: complete_file_def file_lock_def)
  next
    case (Some f)
    with u have "lock_step h s h (emits [Unlock (I_mmap_rwsem (vp_mapping vp)), Uprobe_mmap (vp_vma vp)] u)"
      by (auto simp: lock_step_def lock_run_append lock_run_other file_lock_def)
    with Some show ?thesis by (auto simp: complete_file_def Let_def intro!: lock_step_intros)
  qed
  have "lock_step h s h (complete_removes vp (complete_file vp (complete_anon vp (complete_links E vp (complete_flush vp t)))))"
    using 4 [OF 3 [OF 2]]
    by (auto simp: complete_removes_def intro!: lock_step_opt_do complete_remove_locks split: option.split)
  then show ?thesis by (auto simp: vma_complete_def Let_def intro!: lock_step_intros)
qed

section \<open>Steps that touch no lock\<close>

lemma lock_step_self [simp]: "lock_step h s h s"
  by (simp add: lock_step_refl)

declare lock_step_emit(1) [simp] lock_step_same_trace [simp] lock_step_free [simp]

lemma lock_step_put [simp]: "lock_step h s h' t \<Longrightarrow> lock_step h s h' (put_vma p v t)"
  by (simp add: lock_step_def)

section \<open>The operations leave the locks as they found them\<close>

text \<open>A change that is prepared, made without touching a lock, and completed.\<close>

lemma change_locks:
  assumes "only_mm_locks h" "lock_step h s h t" "trace w = trace (do_vma_prepare E vp t) @ es"
    "\<And>e. e \<in> set es \<Longrightarrow> \<not> is_lock_event e"
  shows "lock_step h s h (vma_complete E vp w)"
proof -
  have "lock_step h s (flush_lock vp @ anon_lock vp @ file_lock vp @ h) (emits es (do_vma_prepare E vp t))"
    by (intro lock_step_emits prepare_locks assms)
  then have "lock_step h s (flush_lock vp @ anon_lock vp @ file_lock vp @ h) w"
    by (rule lock_step_state) (simp add: assms(3))
  then show ?thesis by (rule complete_locks [OF assms(1)])
qed

lemma dup_anon_locks:
  assumes "dup_anon_vma E dst src s = (r, t)" "lock_step h u h' s"
  shows "lock_step h u h' t"
  using assms by (auto simp: dup_anon_vma_def Let_def
      split: if_splits prod.splits option.splits)

lemma unlink_anon_locks: "lock_step h s h' t \<Longrightarrow> lock_step h s h' (do_unlink_anon_vmas E p t)"
  by (auto simp: do_unlink_anon_vmas_def intro!: lock_step_intros split: prod.split)

lemma vma_expand_locks:
  assumes "only_mm_locks h" "vma_expand E vma start fin pgoff nxt s = (r, t)"
  shows "lock_step h s h t"
proof -
  let ?s0 = "emit (Vma_write vma) s"
  let ?rm = "case nxt of None \<Rightarrow> None
      | Some n \<Rightarrow> if vma \<noteq> n \<and> fin = vm_end (vma_at ?s0 n) then Some n else None"
  obtain x u where x: "(case ?rm of None \<Rightarrow> (Inr False, ?s0)
      | Some n \<Rightarrow> dup_anon_vma E vma n (emit (Vma_write n) ?s0)) = (x, u)" by fastforce
  have u: "lock_step h s h u"
    using x by (auto elim: dup_anon_locks split: option.splits)
  let ?vp = "init_multi_vma_prep E u vma None ?rm None"
  have "lock_step h s h (vma_complete E ?vp (vma_iter_store E vma
      (upd_vma vma (\<lambda>v. v\<lparr>vm_start := start, vm_end := fin, vm_pgoff := pgoff\<rparr>)
        (emit (Trans_huge vma start fin 0) (do_vma_prepare E ?vp u)))))"
    by (rule change_locks [OF assms(1) u, where es = "[Trans_huge vma start fin 0]"]) simp_all
  then show ?thesis
    using assms(2) u unlink_anon_locks [OF u]
    unfolding vma_expand_def Let_def x by (auto split: sum.splits if_splits)
qed

lemma vma_shrink_locks:
  assumes "only_mm_locks h" "vma_shrink E vma start fin pgoff s = (r, t)"
  shows "lock_step h s h t"
proof -
  let ?s0 = "emit (Vma_write vma) s" let ?vp = "init_vma_prep E (emit (Vma_write vma) s) vma"
  have u: "lock_step h s h ?s0" by simp
  have "lock_step h s h (vma_complete E ?vp
      (upd_vma vma (\<lambda>v. v\<lparr>vm_start := start, vm_end := fin, vm_pgoff := pgoff\<rparr>)
        (vma_iter_clear E a b (emit (Trans_huge vma start fin 0) (do_vma_prepare E ?vp ?s0)))))" for a b
    by (rule change_locks [OF assms(1) u, where es = "[Trans_huge vma start fin 0]"]) simp_all
  then show ?thesis
    using assms(2) lock_step_refl [of s s h]
    by (auto simp: vma_shrink_def Let_def split: if_splits prod.splits)
qed

lemma split_finish_locks:
  assumes h: "only_mm_locks h" and t: "lock_step h s h t"
  shows "lock_step h s h (split_finish E vma addr below new t)"
proof -
  let ?a = "case vm_file (vma_at t new) of Some f \<Rightarrow> emit (Get_file f) t | None \<Rightarrow> t"
  let ?b = "case vm_ops (vma_at ?a new) of
      Some ops \<Rightarrow> if op_open ops then emit (Vma_open new) ?a else ?a | None \<Rightarrow> ?a"
  let ?c = "emits [Vma_write vma, Vma_write new] ?b"
  have a: "lock_step h s h ?a" using t by (simp split: option.split)
  then have b: "lock_step h s h ?b" by (simp split: option.split)
  then have c: "lock_step h s h ?c" by (rule lock_step_emits) auto
  show ?thesis
    unfolding split_finish_def Let_def
    by (rule change_locks [OF h c, where es = "[Trans_huge vma _ addr 0]"]) auto
qed

lemma split_vma_nocheck_locks:
  assumes h: "only_mm_locks h" and r: "split_vma_nocheck E vma addr below s = (r, t)"
  shows "lock_step h s h t"
  using r unfolding split_vma_nocheck_def Let_def
  by (auto intro!: split_finish_locks [OF h] split: option.splits if_splits sum.splits prod.splits)

lemma vma_link_locks:
  assumes h: "only_mm_locks h" and t: "lock_step h s h t" and r: "vma_link E p t = (r, u)"
  shows "lock_step h s h u"
proof -
  let ?t = "vma_iter_store E p (emit (Vma_write p) t)"
  have 1: "lock_step h s h ?t" using t by simp
  have "lock_step h s h (emit (Unlock (I_mmap_rwsem m)) (vma_link_file E p m (emit (Lock (I_mmap_rwsem m)) ?t)))" for m
  proof (rule lock_step_emit(3))
    have "lock_step h s (I_mmap_rwsem m # h) (emit (Lock (I_mmap_rwsem m)) ?t)"
      using 1 only_mm_locksD [OF h] by (intro lock_step_emit)
    then show "lock_step h s (I_mmap_rwsem m # h) (vma_link_file E p m (emit (Lock (I_mmap_rwsem m)) ?t))"
      using only_mm_locksD [OF h] by (intro lock_step_link_file) auto
  qed
  with 1 t r show ?thesis
    by (auto simp: vma_link_def Let_def split: if_splits option.splits)
qed

lemma insert_vm_struct_locks:
  assumes h: "only_mm_locks h" and r: "insert_vm_struct E p s = Done (r, t)"
  shows "lock_step h s h t"
proof -
  have l: "lock_step h s h u \<Longrightarrow> vma_link E p u = (x, w) \<Longrightarrow> lock_step h s h w" for u x w
    by (rule vma_link_locks [OF h])
  show ?thesis
    using r unfolding insert_vm_struct_def Let_def charge_memory_def
    by (auto split: if_splits prod.splits sum.splits dest!: l [rotated])
qed

text \<open>
  C22: the operations on mappings balance their locks.  Started with at most locks of the memory map held,
  every run of \<open>vma_expand\<close>, \<open>vma_shrink\<close>, \<open>split_vma\<close> and \<open>insert_vm_struct\<close>, failed or
  not, takes no lock it holds, releases none it does not hold, and ends with the locks it
  started with: the file's, the \<open>anon_vma\<close>'s and the cache lock are all released.
\<close>

theorem mapping_changes_balance_locks:
  assumes h: "only_mm_locks h"
  shows "(vma_expand E vma start fin pgoff nxt s = (r, t) \<longrightarrow> lock_step h s h t) \<and>
    (vma_shrink E vma start fin pgoff s = (r, t) \<longrightarrow> lock_step h s h t) \<and>
    (split_vma E vma addr below s = (r, t) \<longrightarrow> lock_step h s h t) \<and>
    (insert_vm_struct E vma s = Done (r, t) \<longrightarrow> lock_step h s h t)"
  using vma_expand_locks [OF h, of E vma start fin pgoff nxt s r t]
    vma_shrink_locks [OF h, of E vma start fin pgoff s r t]
    split_vma_nocheck_locks [OF h, of E vma addr below s r t]
    insert_vm_struct_locks [OF h, of E vma s r t]
  by (auto simp: split_vma_def split: if_splits)

theorem mapping_changes_balance_locks_witness:
  "\<exists>r t. split_vma x86_env 1 0x401000 True demo_mms = (r, t) \<and>
     lock_step [Mmap_write_lock] demo_mms [Mmap_write_lock] t"
proof -
  obtain r t where s: "split_vma x86_env 1 0x401000 True demo_mms = (r, t)" by fastforce
  have "only_mm_locks [Mmap_write_lock]" by (simp add: only_mm_locks_def)
  with mapping_changes_balance_locks [of "[Mmap_write_lock]" x86_env 1 0 0 0 None demo_mms r t "0x401000" True] s
  show ?thesis by blast
qed

end
