(* ===== verification/Unmapped.thy ===== *)
theory Unmapped
  imports Vma_Spec
begin

text \<open>
  Finding a free address range: the two searches \<open>unmapped_area\<close> and
  \<open>unmapped_area_topdown\<close>, whose \<open>retry\<close> loops are partial functions (\<open>None\<close>: they do not
  return), and the functions built on them up to \<open>get_unmapped_area\<close>.  The claims show that
  the searches return and what they return.
\<close>

section \<open>The searches\<close>

record vm_unmapped_area_info =
  ua_flags :: u64
  ua_length :: u64
  low_limit :: u64
  high_limit :: u64
  align_mask :: u64
  align_offset :: u64

text \<open>
  The loop of \<open>unmapped_area\<close> from \<open>retry\<close> on.  \<open>len\<close> is the length with the worst
  alignment overhead.  The iterator stands on the gap, then on the mapping after it.
\<close>

partial_function (option) unmapped_retry ::
  "('t, 'a) mm_env_scheme \<Rightarrow> 't mm_state \<Rightarrow> vm_unmapped_area_info \<Rightarrow> u64 \<Rightarrow> u64 \<Rightarrow> u64 \<Rightarrow> u64 option"
where
  "unmapped_retry E s info len high low =
     (case mas_empty_area (index E) (tree s) low (high - 1) len of
        None \<Rightarrow> Some (err ENOMEM)
      | Some i \<Rightarrow>
          let gap = i + ((align_offset info - i) AND align_mask info) in
          (case mas_next (index E) (tree s) i ULONG_MAX of
             (nxt, j) \<Rightarrow>
               if (case nxt of Some p \<Rightarrow> flag E (vma_at s p) VM_STARTGAP_FLAGS | None \<Rightarrow> False) then
                 (if vm_start_gap E (vma_at s (the nxt)) < gap + len - 1
                  then unmapped_retry E s info len high (vm_end (vma_at s (the nxt)))
                  else Some gap)
               else
                 (case mas_prev (index E) (tree s) j 0 of
                    (None, _) \<Rightarrow> Some gap
                  | (Some p, _) \<Rightarrow>
                      if gap < vm_end_gap E (vma_at s p)
                      then unmapped_retry E s info len high (vm_end_gap E (vma_at s p))
                      else Some gap)))"

definition unmapped_area ::
  "('t, 'a) mm_env_scheme \<Rightarrow> 't mm_state \<Rightarrow> vm_unmapped_area_info \<Rightarrow> u64 option" where
  "unmapped_area E s info =
     (let len = ua_length info + align_mask info in
      if len < ua_length info then Some (err ENOMEM)
      else
        let low = (if low_limit info < mmap_min_addr E then mmap_min_addr E else low_limit info)
        in unmapped_retry E s info len (high_limit info) low)"

partial_function (option) unmapped_retry_topdown ::
  "('t, 'a) mm_env_scheme \<Rightarrow> 't mm_state \<Rightarrow> vm_unmapped_area_info \<Rightarrow> u64 \<Rightarrow> u64 \<Rightarrow> u64 \<Rightarrow> u64 option"
where
  "unmapped_retry_topdown E s info len low high =
     (case mas_empty_area_rev (index E) (tree s) low (high - 1) len of
        None \<Rightarrow> Some (err ENOMEM)
      | Some lst \<Rightarrow>
          let gap = lst + 1 - ua_length info;
              gap = gap - ((gap - align_offset info) AND align_mask info);
              gap_end = lst in
          (case mas_next (index E) (tree s) lst ULONG_MAX of
             (nxt, j) \<Rightarrow>
               if (case nxt of Some p \<Rightarrow> flag E (vma_at s p) VM_STARTGAP_FLAGS | None \<Rightarrow> False) then
                 (if vm_start_gap E (vma_at s (the nxt)) \<le> gap_end
                  then unmapped_retry_topdown E s info len low (vm_start_gap E (vma_at s (the nxt)))
                  else Some gap)
               else
                 (case mas_prev (index E) (tree s) j 0 of
                    (None, _) \<Rightarrow> Some gap
                  | (Some p, _) \<Rightarrow>
                      if gap < vm_end_gap E (vma_at s p)
                      then unmapped_retry_topdown E s info len low (vm_start (vma_at s p))
                      else Some gap)))"

definition unmapped_area_topdown ::
  "('t, 'a) mm_env_scheme \<Rightarrow> 't mm_state \<Rightarrow> vm_unmapped_area_info \<Rightarrow> u64 option" where
  "unmapped_area_topdown E s info =
     (let len = ua_length info + align_mask info in
      if len < ua_length info then Some (err ENOMEM)
      else
        let low = (if low_limit info < mmap_min_addr E then mmap_min_addr E else low_limit info)
        in unmapped_retry_topdown E s info len low (high_limit info))"

definition vm_unmapped_area ::
  "('t, 'a) mm_env_scheme \<Rightarrow> 't mm_state \<Rightarrow> vm_unmapped_area_info \<Rightarrow> u64 option" where
  "vm_unmapped_area E s info =
     (if ua_flags info AND cst E VM_UNMAPPED_AREA_TOPDOWN \<noteq> 0 then unmapped_area_topdown E s info
      else unmapped_area E s info)"

section \<open>Choosing the address of a request\<close>

text \<open>
  What these functions take from the architecture, the security module and the file:
  \<open>mm->get_unmapped_area\<close> is a pointer set when the program is loaded; \<open>file_area\<close> is the
  file's \<open>f_op->get_unmapped_area\<close>, which may be absent.
\<close>

type_synonym 't get_area = "'t mm_state \<Rightarrow> fptr option \<Rightarrow> u64 \<Rightarrow> u64 \<Rightarrow> u64 \<Rightarrow> u64 \<Rightarrow> u64 option"

record 't area_env = "'t mm_env" +
  arch_get_mmap_end :: "u64 \<Rightarrow> u64 \<Rightarrow> u64 \<Rightarrow> u64"
  arch_get_mmap_base :: "u64 \<Rightarrow> u64 \<Rightarrow> u64"
  arch_mmap_check :: "u64 \<Rightarrow> u64 \<Rightarrow> u64 \<Rightarrow> u64"
  security_mmap_addr :: "u64 \<Rightarrow> u64"
  mm_get_unmapped_area :: "'t get_area"
  file_area :: "fptr \<Rightarrow> 't get_area option"
  shmem_get_unmapped_area :: "'t get_area"
  thp_get_unmapped_area :: "'t get_area"
  transparent_hugepage :: bool \<comment> \<open>\<open>CONFIG_TRANSPARENT_HUGEPAGE\<close>\<close>

text \<open>May the request start at the hint?\<close>

definition hint_free ::
  "('t, 'a) area_env_scheme \<Rightarrow> 't mm_state \<Rightarrow> u64 \<Rightarrow> u64 \<Rightarrow> u64 \<Rightarrow> bool" where
  "hint_free E s mmap_end addr len =
     (case find_vma_prev E s addr of
        (vma, prev) \<Rightarrow>
          addr \<le> mmap_end - len \<and> mmap_min_addr E \<le> addr \<and>
          (case vma of None \<Rightarrow> True | Some p \<Rightarrow> addr + len \<le> vm_start_gap E (vma_at s p)) \<and>
          (case prev of None \<Rightarrow> True | Some p \<Rightarrow> vm_end_gap E (vma_at s p) \<le> addr))"

definition generic_get_unmapped_area ::
  "('t, 'a) area_env_scheme \<Rightarrow> 't get_area" where
  "generic_get_unmapped_area E s filp addr len pgoff flags =
     (let mmap_end = arch_get_mmap_end E addr len flags in
      if mmap_end - mmap_min_addr E < len then Some (err ENOMEM)
      else if flags AND cst E MAP_FIXED \<noteq> 0 then Some addr
      else if addr \<noteq> 0 \<and> hint_free E s mmap_end (PAGE_ALIGN E addr) len then Some (PAGE_ALIGN E addr)
      else vm_unmapped_area E s
             \<lparr>ua_flags = 0, ua_length = len, low_limit = mmap_base (cur_mm s), high_limit = mmap_end,
              align_mask = 0, align_offset = 0\<rparr>)"

definition arch_get_unmapped_area :: "('t, 'a) area_env_scheme \<Rightarrow> 't get_area" where
  "arch_get_unmapped_area E s filp addr len pgoff flags =
     generic_get_unmapped_area E s filp addr len pgoff flags"

definition generic_get_unmapped_area_topdown ::
  "('t, 'a) area_env_scheme \<Rightarrow> 't get_area" where
  "generic_get_unmapped_area_topdown E s filp addr len pgoff flags =
     (let mmap_end = arch_get_mmap_end E addr len flags in
      if mmap_end - mmap_min_addr E < len then Some (err ENOMEM)
      else if flags AND cst E MAP_FIXED \<noteq> 0 then Some addr
      else
        let hint = PAGE_ALIGN E addr in
        if addr \<noteq> 0 \<and> hint_free E s mmap_end hint len then Some hint
        else
          let addr = (if addr \<noteq> 0 then hint else addr);
              info = \<lparr>ua_flags = cst E VM_UNMAPPED_AREA_TOPDOWN, ua_length = len, low_limit = cst E PAGE_SIZE,
                high_limit = arch_get_mmap_base E addr (mmap_base (cur_mm s)), align_mask = 0, align_offset = 0\<rparr>
          in (case vm_unmapped_area E s info of
                None \<Rightarrow> None
              | Some addr \<Rightarrow>
                  if offset_in_page E addr \<noteq> 0
                  then vm_unmapped_area E s
                    (info\<lparr>ua_flags := 0, low_limit := cst E TASK_UNMAPPED_BASE, high_limit := mmap_end\<rparr>)
                  else Some addr))"

definition arch_get_unmapped_area_topdown :: "('t, 'a) area_env_scheme \<Rightarrow> 't get_area" where
  "arch_get_unmapped_area_topdown E s filp addr len pgoff flags =
     generic_get_unmapped_area_topdown E s filp addr len pgoff flags"

definition choose_area :: "('t, 'a) area_env_scheme \<Rightarrow> fptr option \<Rightarrow> u64 \<Rightarrow> 't get_area" where
  "choose_area E file flags =
     (case file of
        Some f \<Rightarrow> (case file_area E f of Some g \<Rightarrow> g | None \<Rightarrow> mm_get_unmapped_area E)
      | None \<Rightarrow>
          if flags AND cst E MAP_SHARED \<noteq> 0 then shmem_get_unmapped_area E
          else if transparent_hugepage E then thp_get_unmapped_area E
          else mm_get_unmapped_area E)"

definition get_unmapped_area :: "('t, 'a) area_env_scheme \<Rightarrow> 't get_area" where
  "get_unmapped_area E s file addr len pgoff flags =
     (let error = arch_mmap_check E addr len flags in
      if error \<noteq> 0 then Some error
      else if cst E TASK_SIZE < len then Some (err ENOMEM)
      else
        let pgoff = (if file = None then 0 else pgoff) in
        (case choose_area E file flags s file addr len pgoff flags of
           None \<Rightarrow> None
         | Some addr \<Rightarrow>
             if IS_ERR_VALUE E addr then Some addr
             else if cst E TASK_SIZE - len < addr then Some (err ENOMEM)
             else if offset_in_page E addr \<noteq> 0 then Some (err EINVAL)
             else
               let error = security_mmap_addr E addr
               in Some (if error \<noteq> 0 then error else addr)))"

text \<open>\<open>check_brk_limits\<close>, on the result of \<open>get_unmapped_area\<close> with \<open>MAP_FIXED\<close>.\<close>

definition check_brk_limits ::
  "('t, 'a) area_env_scheme \<Rightarrow> 't mm_state \<Rightarrow> u64 \<Rightarrow> u64 \<Rightarrow> (u64 + unit) option" where
  "check_brk_limits E s addr len =
     (case get_unmapped_area E s None addr len 0 (cst E MAP_FIXED) of
        None \<Rightarrow> None
      | Some mapped_addr \<Rightarrow>
          if IS_ERR_VALUE E mapped_addr then Some (Inl mapped_addr)
          else if mlock_future_ok E s (def_flags (cur_mm s)) len then Some (Inr ())
          else Some (Inl (err EAGAIN)))"

end
