(* ===== verification/Munmap.thy ===== *)
theory Munmap
  imports Vma_Spec Unmapped
begin

text \<open>
  Unmapping a range of addresses: splitting the mappings at its ends, detaching the mappings
  in it, clearing the index, and freeing them (\<open>do_vmi_align_munmap\<close>), with its callers up to
  the system call \<open>munmap\<close>.  A mapping that is being unmapped is in the list of the detached
  ones, which the code keeps in a second maple tree.
\<close>

section \<open>What the code takes from its callees\<close>

record 't unmap_env = "'t area_env" +
  detach_fails :: "'t mm_state \<Rightarrow> vptr \<Rightarrow> errno option" \<comment> \<open>\<open>mas_store_gfp\<close> into the tree of the detached\<close>
  clear_fails :: "'t mm_state \<Rightarrow> errno option" \<comment> \<open>\<open>vma_iter_clear_gfp\<close>\<close>
  uffd_unmap_prep :: "'t mm_state \<Rightarrow> vptr \<Rightarrow> u64 \<Rightarrow> u64 \<Rightarrow> errno option" \<comment> \<open>\<open>userfaultfd_unmap_prep\<close>\<close>
  arch_unmap :: "u64 \<Rightarrow> u64 \<Rightarrow> 't mm_state \<Rightarrow> 't mm_state"
  untagged_addr :: "u64 \<Rightarrow> u64"

section \<open>Freeing\<close>

text \<open>
  \<open>remove_mt\<close>: the statistics of each detached mapping, then the mapping itself.  The high
  watermarks are statistics the model leaves out.
\<close>

definition remove_one ::
  "('t, 'a) mm_env_scheme \<Rightarrow> vptr \<Rightarrow> u64 \<times> 't mm_state \<Rightarrow> u64 \<times> 't mm_state" where
  "remove_one E vma acc =
     (case acc of (nr_accounted, s) \<Rightarrow>
        let v = vma_at s vma;
            nrpages = vma_pages E v;
            nr_accounted = (if flag E v VM_ACCOUNT then nr_accounted + nrpages else nr_accounted)
        in (nr_accounted, remove_vma vma False (vm_stat_account E (vm_flags v) (- nrpages) s)))"

definition remove_mt :: "('t, 'a) mm_env_scheme \<Rightarrow> vptr list \<Rightarrow> 't mm_state \<Rightarrow> 't mm_state" where
  "remove_mt E detached s =
     (case fold (remove_one E) detached (0, s) of
        (nr_accounted, s) \<Rightarrow> emit (Unacct nr_accounted) s)"

definition unmap_region ::
  "('t, 'a) mm_env_scheme \<Rightarrow> vptr option \<Rightarrow> vptr option \<Rightarrow> u64 \<Rightarrow> u64 \<Rightarrow> bool \<Rightarrow> 't mm_state \<Rightarrow> 't mm_state"
where
  "unmap_region E prev nxt start fin mm_wr_locked s =
     emits [Unmap_vmas start fin mm_wr_locked,
        Free_pgtables
          (case prev of Some p \<Rightarrow> vm_end (vma_at s p) | None \<Rightarrow> cst E FIRST_USER_ADDRESS)
          (case nxt of Some p \<Rightarrow> vm_start (vma_at s p) | None \<Rightarrow> cst E USER_PGTABLES_CEILING)] s"

section \<open>Detaching\<close>

text \<open>
  The body of the loop for the mapping \<open>nxt\<close>: the result is an error or the pages of locked
  memory so far, and the list of the mappings detached so far.
\<close>

definition detach_one ::
  "('t, 'a) unmap_env_scheme \<Rightarrow> u64 \<Rightarrow> u64 \<Rightarrow> bool \<Rightarrow> vptr \<Rightarrow> vptr list \<Rightarrow> u64 \<Rightarrow> 't mm_state \<Rightarrow>
     (errno + u64) \<times> vptr list \<times> 't mm_state" where
  "detach_one E start fin uf nxt detached locked s =
     (let (r, s) = (if fin < vm_end (vma_at s nxt) then split_vma_nocheck E nxt fin False s else (Inr (), s))
      in case r of
           Inl e \<Rightarrow> (Inl e, detached, s)
         | Inr _ \<Rightarrow>
             let s = emit (Vma_write nxt) s in
             (case detach_fails E s nxt of
                Some e \<Rightarrow> (Inl e, detached, s)
              | None \<Rightarrow>
                  let detached = detached @ [nxt];
                      s = emit (Vma_detached nxt True) s;
                      locked = (if flag E (vma_at s nxt) VM_LOCKED then locked + vma_pages E (vma_at s nxt) else locked)
                  in (case (if uf then uffd_unmap_prep E s nxt start fin else None) of
                        Some e \<Rightarrow> (Inl e, detached, s)
                      | None \<Rightarrow> (Inr locked, detached, s))))"

text \<open>
  The loop.  The iterator stands on \<open>nxt\<close>, at the address \<open>i\<close>; the test \<open>i < j\<close> is the
  progress of the iterator, which \<open>maple_ok\<close> promises.
\<close>

function detach_loop ::
  "('t, 'a) unmap_env_scheme \<Rightarrow> u64 \<Rightarrow> u64 \<Rightarrow> bool \<Rightarrow> u64 \<Rightarrow> vptr \<Rightarrow> vptr list \<Rightarrow> u64 \<Rightarrow> 't mm_state \<Rightarrow>
     (errno + u64) \<times> vptr list \<times> 't mm_state" where
  "detach_loop E start fin uf i nxt detached locked s =
     (case detach_one E start fin uf nxt detached locked s of
        (Inl e, detached, s) \<Rightarrow> (Inl e, detached, s)
      | (Inr locked, detached, s) \<Rightarrow>
          (case mas_next (index E) (tree s) (vm_end (vma_at s nxt) - 1) (fin - 1) of
             (None, _) \<Rightarrow> (Inr locked, detached, s)
           | (Some p, j) \<Rightarrow>
               if i < j then detach_loop E start fin uf j p detached locked s
               else (Inr locked, detached, s)))"
  by pat_completeness auto
termination
  by (relation "measure (\<lambda>(E, start, fin, uf, i, _). 2 ^ 64 - unat i)")
    (auto simp: word_less_nat_alt intro!: diff_less_mono2)

declare detach_loop.simps [simp del]

text \<open>The error path: the detached mappings are put back in use.\<close>

definition detach_undo :: "vptr list \<Rightarrow> 't mm_state \<Rightarrow> 't mm_state" where
  "detach_undo detached s = emits (map (\<lambda>p. Vma_detached p False) detached) s"

section \<open>Unmapping\<close>

text \<open>After the point of no return.\<close>

definition munmap_finish ::
  "('t, 'a) unmap_env_scheme \<Rightarrow> u64 \<Rightarrow> u64 \<Rightarrow> bool \<Rightarrow> vptr list \<Rightarrow> u64 \<Rightarrow> 't mm_state \<Rightarrow> 't mm_state" where
  "munmap_finish E start fin unlock detached locked s =
     (let s = upd_mm (\<lambda>mm. mm\<lparr>locked_vm := locked_vm mm - locked\<rparr>) s;
          s = add_map_count (- int (length detached)) s;
          s = (if unlock then emit Mmap_downgrade s else s);
          prev = fst (mas_prev (index E) (tree s) start 0);
          nxt = fst (mas_next (index E) (tree s) (fin - 1) ULONG_MAX);
          s = unmap_region E prev nxt start fin (\<not> unlock) s;
          s = remove_mt E detached s
      in if unlock then emit (Unlock Mmap_read_lock) s else s)"

definition munmap_split_start ::
  "('t, 'a) unmap_env_scheme \<Rightarrow> vptr \<Rightarrow> u64 \<Rightarrow> u64 \<Rightarrow> 't mm_state \<Rightarrow> (errno + unit) \<times> 't mm_state" where
  "munmap_split_start E vma start fin s =
     (if vm_start (vma_at s vma) < start then
        (if fin < vm_end (vma_at s vma) \<and> sysctl_max_map_count E \<le> map_count (cur_mm s) then (Inl ENOMEM, s)
         else split_vma_nocheck E vma start True s)
      else (Inr (), s))"

definition do_vmi_align_munmap ::
  "('t, 'a) unmap_env_scheme \<Rightarrow> vptr \<Rightarrow> u64 \<Rightarrow> u64 \<Rightarrow> bool \<Rightarrow> bool \<Rightarrow> 't mm_state \<Rightarrow> (errno + unit) \<times> 't mm_state"
where
  "do_vmi_align_munmap E vma start fin uf unlock s =
     (case munmap_split_start E vma start fin s of
        (Inl e, s) \<Rightarrow> (Inl e, s)
      | (Inr _, s) \<Rightarrow>
          (case detach_loop E start fin uf (max start (vm_start (vma_at s vma))) vma [] 0 s of
             (Inl e, detached, s) \<Rightarrow> (Inl e, detach_undo detached s)
           | (Inr locked, detached, s) \<Rightarrow>
               (case clear_fails E s of
                  Some e \<Rightarrow> (Inl e, detach_undo detached s)
                | None \<Rightarrow>
                    (Inr (), munmap_finish E start fin unlock detached locked (vma_iter_clear E start fin s)))))"

definition do_vmi_munmap ::
  "('t, 'a) unmap_env_scheme \<Rightarrow> u64 \<Rightarrow> u64 \<Rightarrow> bool \<Rightarrow> bool \<Rightarrow> 't mm_state \<Rightarrow> (errno + unit) \<times> 't mm_state"
where
  "do_vmi_munmap E start len uf unlock s =
     (if offset_in_page E start \<noteq> 0 \<or> cst E TASK_SIZE < start \<or> cst E TASK_SIZE - start < len then (Inl EINVAL, s)
      else
        let fin = start + PAGE_ALIGN E len in
        if fin = start then (Inl EINVAL, s)
        else
          let s = arch_unmap E start fin s in
          (case mt_find (index E) (tree s) start (fin - 1) of
             None \<Rightarrow> (Inr (), if unlock then emit (Unlock Mmap_write_lock) s else s)
           | Some vma \<Rightarrow> do_vmi_align_munmap E vma start fin uf unlock s))"

definition do_munmap ::
  "('t, 'a) unmap_env_scheme \<Rightarrow> u64 \<Rightarrow> u64 \<Rightarrow> bool \<Rightarrow> 't mm_state \<Rightarrow> (errno + unit) \<times> 't mm_state" where
  "do_munmap E start len uf s = do_vmi_munmap E start len uf False s"

definition do_vma_munmap ::
  "('t, 'a) unmap_env_scheme \<Rightarrow> vptr \<Rightarrow> u64 \<Rightarrow> u64 \<Rightarrow> bool \<Rightarrow> bool \<Rightarrow> 't mm_state \<Rightarrow> (errno + unit) \<times> 't mm_state"
where
  "do_vma_munmap E vma start fin uf unlock s =
     do_vmi_align_munmap E vma start fin uf unlock (arch_unmap E start fin s)"

text \<open>\<open>__vm_munmap\<close>, \<open>vm_munmap\<close> and the system call \<open>munmap\<close>.\<close>

definition vm_munmap_unlock ::
  "('t, 'a) unmap_env_scheme \<Rightarrow> u64 \<Rightarrow> u64 \<Rightarrow> bool \<Rightarrow> 't mm_state \<Rightarrow> (errno + unit) \<times> 't mm_state" where
  "vm_munmap_unlock E start len unlock s =
     (if write_lock_killed E s then (Inl EINTR, s)
      else
        let (ret, s) = do_vmi_munmap E start len True unlock (emit (Lock Mmap_write_lock) s);
            s = (if ret \<noteq> Inr () \<or> \<not> unlock then emit (Unlock Mmap_write_lock) s else s)
        in (ret, emit Uffd_unmap_complete s))"

definition vm_munmap :: "('t, 'a) unmap_env_scheme \<Rightarrow> u64 \<Rightarrow> u64 \<Rightarrow> 't mm_state \<Rightarrow> (errno + unit) \<times> 't mm_state" where
  "vm_munmap E start len s = vm_munmap_unlock E start len False s"

definition sys_munmap :: "('t, 'a) unmap_env_scheme \<Rightarrow> u64 \<Rightarrow> u64 \<Rightarrow> 't mm_state \<Rightarrow> (errno + unit) \<times> 't mm_state" where
  "sys_munmap E addr len s = vm_munmap_unlock E (untagged_addr E addr) len True s"

end
