(* ===== verification/Unmapped_Props.thy ===== *)
theory Unmapped_Props
  imports Unmapped Mm_Demo
begin

text \<open>
  The searches of \<open>Unmapped\<close> return, and what they return: facts on the mappings around a gap,
  alignment inside a gap, the two loops by induction on the bound that moves, the contract of
  a \<open>get_unmapped_area\<close> callback as a locale with both generic functions as instances, and
  a run in which the downward search leaves its limits.
\<close>

section \<open>Around a gap\<close>

lemma at_or_after_first:
  assumes wf: "mm_wf M s" and r: "at_or_after M s a (Some p)"
  obtains i where "a \<le> i" "entry_at M s i = Some p" "\<And>k. a \<le> k \<Longrightarrow> k < i \<Longrightarrow> entry_at M s k = None"
proof -
  have p: "p \<in> mapped M s" "a < vm_end (vma_at s p)"
    and free: "\<And>k. a \<le> k \<Longrightarrow> k < vm_start (vma_at s p) \<Longrightarrow> entry_at M s k = None"
    using r by (auto simp: at_or_after_def)
  note x = mapped_extent [OF wf p(1)]
  show thesis
  proof (cases "a \<le> vm_start (vma_at s p)")
    case True
    show ?thesis by (rule that [OF True _ free]) (use x(2) x(3) [of "vm_start (vma_at s p)"] in auto)
  next
    case False
    then have "entry_at M s a = Some p" using x(3) [of a] p(2) by simp
    then show ?thesis by (rule that [of a, OF order_refl]) auto
  qed
qed

lemma at_or_after_unique:
  assumes wf: "mm_wf M s" and r: "at_or_after M s a (Some p)" "at_or_after M s a (Some q)"
  shows "p = q"
proof -
  obtain i where i: "a \<le> i" "entry_at M s i = Some p" "\<And>k. a \<le> k \<Longrightarrow> k < i \<Longrightarrow> entry_at M s k = None"
    using at_or_after_first [OF wf r(1)] by blast
  obtain j where j: "a \<le> j" "entry_at M s j = Some q" "\<And>k. a \<le> k \<Longrightarrow> k < j \<Longrightarrow> entry_at M s k = None"
    using at_or_after_first [OF wf r(2)] by blast
  have "\<not> i < j" "\<not> j < i" using i j by force+
  then have "i = j" by simp
  with i(2) j(2) show ?thesis by simp
qed

lemma last_before_last:
  assumes wf: "mm_wf M s" and r: "last_before M s a (Some p)"
  obtains i where "i < a" "entry_at M s i = Some p"
    "\<And>k. i < k \<Longrightarrow> k < a \<Longrightarrow> entry_at M s k = None \<or> entry_at M s k = entry_at M s a"
proof -
  let ?e = "vm_end (vma_at s p)"
  have p: "p \<in> mapped M s" "?e \<le> a"
    and free: "\<And>k. ?e \<le> k \<Longrightarrow> k < a \<Longrightarrow> entry_at M s k = None \<or> entry_at M s k = entry_at M s a"
    using r by (auto simp: last_before_def)
  note x = mapped_extent [OF wf p(1)]
  have lt: "k \<le> ?e - 1 \<longleftrightarrow> k < ?e" for k by (rule le_below_end [OF x(2)])
  have e: "?e - 1 < ?e" using lt [of "?e - 1"] by simp
  have "entry_at M s (?e - 1) = Some p" using x(2) x(3) [of "?e - 1"] e lt by simp
  moreover have "?e - 1 < a" using e p(2) by (rule less_le_trans)
  moreover have "?e \<le> k" if "?e - 1 < k" for k using that lt [of k] by (simp add: not_less [symmetric])
  ultimately show thesis using free by (intro that) auto
qed

lemma last_before_unique:
  assumes wf: "mm_wf M s" and free: "entry_at M s a = None"
    and r: "last_before M s a (Some p)" "last_before M s a (Some q)"
  shows "p = q"
proof -
  obtain i where i: "i < a" "entry_at M s i = Some p" "\<And>k. i < k \<Longrightarrow> k < a \<Longrightarrow> entry_at M s k = None"
    using last_before_last [OF wf r(1)] free by metis
  obtain j where j: "j < a" "entry_at M s j = Some q" "\<And>k. j < k \<Longrightarrow> k < a \<Longrightarrow> entry_at M s k = None"
    using last_before_last [OF wf r(2)] free by metis
  have "\<not> i < j" "\<not> j < i" using i j by force+
  then have "i = j" by simp
  with i(2) j(2) show ?thesis by simp
qed

lemma at_or_after_det:
  assumes "mm_wf M s" "at_or_after M s a r" "at_or_after M s a r'"
  shows "r = r'"
proof -
  have no: False if "at_or_after M s a None" "at_or_after M s a (Some p)" for p
    using at_or_after_first [OF assms(1) that(2)] that(1) by (auto simp: at_or_after_def)
  show ?thesis using assms no at_or_after_unique [OF assms(1)] by (cases r; cases r') auto
qed

lemma last_before_det:
  assumes "mm_wf M s" "entry_at M s a = None" "last_before M s a r" "last_before M s a r'"
  shows "r = r'"
proof -
  have no: False if "last_before M s a None" "last_before M s a (Some p)" for p
    using last_before_last [OF assms(1) that(2)] that(1) assms(2) by (auto simp: last_before_def)
  show ?thesis using assms no last_before_unique [OF assms(1,2)] by (cases r; cases r') auto
qed

text \<open>The same gap seen from two of its addresses.\<close>

lemma gap_shift:
  assumes wf: "mm_wf M s" and ia: "i \<le> a" and free: "\<And>k. i \<le> k \<Longrightarrow> k \<le> a \<Longrightarrow> entry_at M s k = None"
  shows "at_or_after M s i r \<Longrightarrow> at_or_after M s a r" "at_or_after M s a r \<Longrightarrow> at_or_after M s i r"
    "last_before M s i r \<Longrightarrow> last_before M s a r"
proof -
  have low: "entry_at M s k = None" if "i \<le> k" "k < a" for k using free [of k] that by simp
  show "at_or_after M s a r" if r: "at_or_after M s i r"
  proof (cases r)
    case None
    with r ia show ?thesis by (auto simp: at_or_after_def dest: order_trans)
  next
    case (Some p)
    obtain j where j: "i \<le> j" "entry_at M s j = Some p" "\<And>k. i \<le> k \<Longrightarrow> k < j \<Longrightarrow> entry_at M s k = None"
      using at_or_after_first [OF wf r [unfolded Some]] by blast
    have "\<not> j \<le> a" using free [of j] j(1,2) by auto
    then have "a \<le> j" by simp
    then show ?thesis unfolding Some
      by (rule at_or_afterI [OF wf _ j(2)]) (use j(3) ia in \<open>auto dest: order_trans\<close>)
  qed
  show "at_or_after M s i r" if r: "at_or_after M s a r"
  proof (cases r)
    case None
    then show ?thesis using r low by (auto simp: at_or_after_def not_le) (metis not_le)
  next
    case (Some p)
    obtain j where j: "a \<le> j" "entry_at M s j = Some p" "\<And>k. a \<le> k \<Longrightarrow> k < j \<Longrightarrow> entry_at M s k = None"
      using at_or_after_first [OF wf r [unfolded Some]] by blast
    show ?thesis unfolding Some
      by (rule at_or_afterI [OF wf order_trans [OF ia j(1)] j(2)]) (use j(3) low in \<open>metis not_le\<close>)
  qed
  show "last_before M s a r" if r: "last_before M s i r"
  proof (cases r)
    case None
    with r free [of i] ia have "entry_at M s k = None" if "k < i" for k using that by (auto simp: last_before_def)
    with None low show ?thesis by (auto simp: last_before_def) (metis not_le)
  next
    case (Some p)
    obtain j where j: "j < i" "entry_at M s j = Some p" "\<And>k. j < k \<Longrightarrow> k < i \<Longrightarrow> entry_at M s k = None"
      using last_before_last [OF wf r [unfolded Some]] free [of i] ia by (metis order_refl)
    show ?thesis unfolding Some
    proof (rule last_beforeI [OF wf _ j(2)])
      show "j < a" using j(1) ia by (rule less_le_trans)
      show "entry_at M s a \<noteq> Some p" using free [of a] ia by simp
      show "entry_at M s k = None \<or> entry_at M s k = entry_at M s a" if "j < k" "k < a" for k
        using that j(3) [of k] low [of k] by (cases "k < i") auto
    qed
  qed
qed

text \<open>The mapping after a gap, found from inside it, and then the one before it.\<close>

lemma around_gap:
  assumes M: "maple_ok M" and wf: "mm_wf M s" and i: "entry_at M s i = None"
    and n: "mas_next M (tree s) i ULONG_MAX = (nxt, j)" and p: "mas_prev M (tree s) j 0 = (prv, j')"
  shows "at_or_after M s i nxt" "last_before M s i prv"
proof -
  have up: "i \<le> j" "entry_at M s k = None" if "i \<le> k" "k < j" for k
    using that next_Some(5) [OF M, of "tree s" i _ _ j k] next_None(2) [OF M, of "tree s" i _ j k] n i
    by (cases nxt; cases "k = i"; auto dest: order.not_eq_order_implies_strict)+
  have ij: "i \<le> j"
    using next_Some(1) [OF M] next_None(1) [OF M] n by (cases nxt) (auto intro: less_imp_le)
  show "at_or_after M s i nxt"
  proof (cases nxt)
    case None
    then have "entry_at M s k = None" if "i \<le> k" for k
      using that next_None(2) [OF M n [unfolded None], of k] i by (cases "k = i") auto
    with None show ?thesis by (simp add: at_or_after_def)
  next
    case (Some q)
    note x = next_Some [OF M n [unfolded Some]]
    show ?thesis unfolding Some by (rule at_or_afterI [OF wf ij x(3)]) (use up in auto)
  qed
  have jq: "entry_at M s k = None" if "k < i" "entry_at M s k = entry_at M s j" for k
  proof (cases "entry_at M s j")
    case (Some q)
    then show ?thesis
      using mm_wf_convex [OF wf] that ij i unfolding convex_def by (metis less_imp_le option.distinct(1))
  qed (use that in simp)
  show "last_before M s i prv"
  proof (cases prv)
    case None
    have "entry_at M s k = None" if "k < i" for k
      using prev_None(2) [OF M p [unfolded None], of k] less_le_trans [OF that ij] that jq [of k] by auto
    with None show ?thesis by (simp add: last_before_def)
  next
    case (Some q)
    note x = prev_Some [OF M p [unfolded Some]]
    have "j' < i" using up [of j'] x(2,3) by (metis not_le option.distinct(1))
    moreover have "entry_at M s k = None" if "j' < k" "k < i" for k
      using x(5) [OF that(1)] less_le_trans [OF that(2) ij] that(2) jq [of k] by auto
    ultimately show ?thesis unfolding Some using i x(3) by (intro last_beforeI [OF wf]) auto
  qed
qed

section \<open>What the searches return\<close>

text \<open>
  The address \<open>a\<close> answers the request: \<open>ua_length\<close> free bytes in the bounds, at the alignment
  asked for, clear of the guard gap of a stack that starts above it, or, below any other
  mapping, of the gap of one that grows up below it.
\<close>

definition area_ok ::
  "('t, 'a) mm_env_scheme \<Rightarrow> 't mm_state \<Rightarrow> vm_unmapped_area_info \<Rightarrow> u64 \<Rightarrow> u64 \<Rightarrow> u64 \<Rightarrow> bool" where
  "area_ok E s info low high a \<longleftrightarrow>
     low \<le> a \<and> a + (ua_length info - 1) \<le> high - 1 \<and>
     free_at (entry_at (index E) s) a (ua_length info) \<and>
     a AND align_mask info = align_offset info AND align_mask info \<and>
     (\<forall>n. at_or_after (index E) s a (Some n) \<longrightarrow> flag E (vma_at s n) VM_STARTGAP_FLAGS \<longrightarrow>
        a + (ua_length info - 1) \<le> vm_start_gap E (vma_at s n)) \<and>
     (\<forall>n p. at_or_after (index E) s a n \<longrightarrow> last_before (index E) s a (Some p) \<longrightarrow>
        (case n of Some q \<Rightarrow> \<not> flag E (vma_at s q) VM_STARTGAP_FLAGS | None \<Rightarrow> True) \<longrightarrow>
        vm_end_gap E (vma_at s p) \<le> a)"

text \<open>The requests the searches are made for: not empty, no overflow, a mask of low bits.\<close>

definition request_ok :: "vm_unmapped_area_info \<Rightarrow> u64 \<Rightarrow> bool" where
  "request_ok info len \<longleftrightarrow>
     ua_length info \<noteq> 0 \<and> len = ua_length info + align_mask info \<and> ua_length info \<le> len \<and>
     (\<exists>k. align_mask info = mask k)"

lemma unat_minus_one_pos: "(n :: u64) \<noteq> 0 \<Longrightarrow> unat (n - 1) = unat n - 1"
  by (rule unat_minus_one)

lemma take_bit_add_right: "take_bit k (a + take_bit k b) = take_bit k (a + b :: u64)"
proof (cases "k \<le> 64")
  case True
  then have d: "(2 :: nat) ^ k dvd 2 ^ 64" by (rule le_imp_power_dvd)
  have t: "unat (take_bit k w) = unat w mod 2 ^ k" for w :: u64
    by (simp only: unsigned_take_bit_eq take_bit_eq_mod [of k "unat w"])
  have u: "unat (take_bit k (x + y)) = (unat x + unat y) mod 2 ^ k" for x y :: u64
  proof -
    have "unat (take_bit k (x + y)) = ((unat x + unat y) mod 2 ^ 64) mod 2 ^ k"
      by (simp add: t unat_word_ariths)
    then show ?thesis by (simp only: mod_mod_cancel [OF d])
  qed
  have "unat (take_bit k (a + take_bit k b)) = unat (take_bit k (a + b))"
    by (simp only: u t [of b] mod_add_right_eq)
  then show ?thesis by (simp only: word_unat_eq_iff)
next
  case False
  then have "take_bit k x = x" for x :: u64 by (intro bit_word_eqI) (auto simp: bit_simps)
  then show ?thesis by simp
qed

lemma align_up:
  assumes "m = mask k"
  shows "(i + ((off - i) AND m)) AND m = off AND (m :: u64)"
  using take_bit_add_right [of k i "off - i"] by (simp add: assms flip: take_bit_eq_mask)

lemma align_down:
  assumes "m = mask k"
  shows "(g - ((g - off) AND m)) AND m = off AND (m :: u64)"
proof -
  let ?d = "(g - off) AND NOT m"
  have "g - ((g - off) AND m) = off + ?d" using and_split_mask [of "g - off" m] by (simp add: algebra_simps)
  moreover have "take_bit k ?d = 0" unfolding assms by (rule bit_word_eqI) (auto simp: bit_simps)
  then have "take_bit k (off + ?d) = take_bit k off" using take_bit_add_right [of k off ?d] by simp
  ultimately show ?thesis by (simp add: assms flip: take_bit_eq_mask)
qed

text \<open>A part of a free range.\<close>

lemma aligned_in_gap:
  fixes i a len L adj m :: u64
  assumes fit: "i \<le> i + (len - 1)" and L: "L \<noteq> 0" "len = L + m" "L \<le> len" and adj: "adj \<le> m"
  shows "i \<le> i + adj" "i + adj \<le> (i + adj) + (L - 1)" "(i + adj) + (L - 1) \<le> i + (len - 1)"
proof -
  have m: "unat len = unat L + unat m" using unat_add_le [of L m] L by simp
  have l0: "len \<noteq> 0" using L by auto
  have u: "unat (len - 1) = unat len - 1" "unat (L - 1) = unat L - 1" "0 < unat L"
    using L(1) l0 by (simp_all add: unat_minus_one unat_gt_0)
  have f: "unat (i + (len - 1)) = unat i + (unat len - 1)" using unat_add_le [OF fit] u by simp
  have b: "unat i + (unat len - 1) < 2 ^ 64" using unat_bound64 [of "i + (len - 1)"] f by simp
  have a: "unat adj \<le> unat m" using adj by (simp add: word_le_nat_alt)
  have 1: "unat (i + adj) = unat i + unat adj"
    by (rule unat_add_nowrap) (use a b m u(3) in linarith)
  have 2: "unat ((i + adj) + (L - 1)) = unat i + unat adj + (unat L - 1)"
    using unat_add_nowrap [of "i + adj" "L - 1"] 1 u a b m by simp
  show "i \<le> i + adj" "i + adj \<le> (i + adj) + (L - 1)" "(i + adj) + (L - 1) \<le> i + (len - 1)"
    unfolding word_le_nat_alt 1 2 f using a m u(3) by simp_all
qed

lemma and_mask_le: "x AND m \<le> (m :: u64)"
  by (metis and.commute word_and_le1)

text \<open>The requests: the start of the gap the code picks inside the free range \<open>i\<close>.\<close>

lemma free_at_part:
  "free_at ld i len \<Longrightarrow> i \<le> a \<Longrightarrow> a \<le> a + (n - 1) \<Longrightarrow> a + (n - 1) \<le> i + (len - 1) \<Longrightarrow> free_at ld a n"
  by (auto simp: free_at_def dest: order_trans)

text \<open>The tests of the code on the neighbours of its choice are those of \<open>area_ok\<close>.\<close>

lemma area_okI:
  assumes wf: "mm_wf (index E) s" and n: "at_or_after (index E) s a nxt" and p: "last_before (index E) s a prv"
    and L: "ua_length info \<noteq> 0" and fit: "low \<le> a" "a + (ua_length info - 1) \<le> high - 1"
      "free_at (entry_at (index E) s) a (ua_length info)"
      "a AND align_mask info = align_offset info AND align_mask info"
    and up: "\<And>q. nxt = Some q \<Longrightarrow> flag E (vma_at s q) VM_STARTGAP_FLAGS \<Longrightarrow>
      a + (ua_length info - 1) \<le> vm_start_gap E (vma_at s q)"
    and down: "\<And>q. prv = Some q \<Longrightarrow>
      (case nxt of Some q \<Rightarrow> \<not> flag E (vma_at s q) VM_STARTGAP_FLAGS | None \<Rightarrow> True) \<Longrightarrow>
      vm_end_gap E (vma_at s q) \<le> a"
  shows "area_ok E s info low high a"
proof -
  have a: "entry_at (index E) s a = None" using fit(3) by (simp add: free_at_def)
  have 1: "r = nxt" if "at_or_after (index E) s a r" for r by (rule at_or_after_det [OF wf that n])
  have 2: "r = prv" if "last_before (index E) s a r" for r by (rule last_before_det [OF wf a that p])
  show ?thesis unfolding area_ok_def
  proof (intro conjI allI impI fit)
    fix q assume "at_or_after (index E) s a (Some q)" and "flag E (vma_at s q) VM_STARTGAP_FLAGS"
    then show "a + (ua_length info - 1) \<le> vm_start_gap E (vma_at s q)" using 1 up by metis
  next
    fix r q assume "at_or_after (index E) s a r" "last_before (index E) s a (Some q)"
      and "case r of Some q \<Rightarrow> \<not> flag E (vma_at s q) VM_STARTGAP_FLAGS | None \<Rightarrow> True"
    then show "vm_end_gap E (vma_at s q) \<le> a" using 1 2 down by metis
  qed
qed

lemma area_ok_mono: "area_ok E s info l h a \<Longrightarrow> l' \<le> l \<Longrightarrow> h - 1 \<le> h' - 1 \<Longrightarrow> area_ok E s info l' h' a"
  unfolding area_ok_def by (meson order_trans)

lemma less_diff64: "(a :: u64) < b \<Longrightarrow> 2 ^ 64 - unat b < 2 ^ 64 - unat a"
  unfolding word_less_nat_alt using unat_bound64 [of b] by linarith

lemma gap_end_below:
  fixes a len L :: u64
  assumes "a + (L - 1) \<le> h - 1" "a \<le> a + (L - 1)" "L \<noteq> 0" "L \<le> len" "h \<noteq> 0" "h \<le> 0x8000000000000000" "len \<le> h"
  shows "a + (L - 1) \<le> a + len - 1"
proof -
  have n: "unat (h - 1) = unat h - 1" "unat (L - 1) = unat L - 1" "0 < unat L" "unat h \<le> 2 ^ 63"
    using assms by (simp_all add: unat_minus_one unat_gt_0 word_le_nat_alt)
  have a: "unat (a + (L - 1)) = unat a + (unat L - 1)" using unat_add_le [OF assms(2)] n by simp
  have l: "unat L \<le> unat len" "unat len \<le> 2 ^ 63" using assms(4,7) n(4) by (simp_all add: word_le_nat_alt)
  have "unat a \<le> unat (h - 1)" using order_trans [OF assms(2,1)] by (simp only: word_le_nat_alt)
  then have a63: "unat a < 2 ^ 63" using n(1,4) assms(5) unat_gt_0 [of h] by linarith
  have "len \<noteq> 0" using l(1) n(3) by auto
  then have "unat (len - 1) = unat len - 1" by (rule unat_minus_one)
  then have "unat (a + (len - 1)) = unat a + (unat len - 1)"
    using unat_add_nowrap [of a "len - 1"] a63 l by simp
  with a l(1) have "a + (L - 1) \<le> a + (len - 1)" by (simp add: word_le_nat_alt)
  then show ?thesis by (simp add: add_diff_eq)
qed

lemma length_below:
  fixes i len h :: u64
  assumes "i \<le> i + (len - 1)" "i + (len - 1) \<le> h - 1" "h \<noteq> 0" "len \<noteq> 0"
  shows "len \<le> h"
proof -
  have "unat (len - 1) = unat len - 1" "unat (h - 1) = unat h - 1" "0 < unat len" "0 < unat h"
    using assms(3,4) by (simp_all add: unat_minus_one unat_gt_0)
  moreover have "unat i + unat (len - 1) \<le> unat (h - 1)"
    using assms(2) unat_add_le [OF assms(1)] by (simp add: word_le_nat_alt)
  ultimately show ?thesis unfolding word_le_nat_alt by linarith
qed

lemma unmapped_retry_returns:
  assumes E: "env_ok E" and wf: "mm_wf (index E) s" and rq: "request_ok info len"
    and hi: "high \<noteq> 0" "high \<le> 0x8000000000000000"
  shows "\<exists>a. unmapped_retry E s info len high low = Some a \<and>
    (a = err ENOMEM \<or> area_ok E s info low high a)"
proof (induction "2 ^ 64 - unat low" arbitrary: low rule: less_induct)
  case less
  note M = env_maple [OF E]
  note g = gaps_okD [OF env_gaps [OF E]]
  from rq obtain k where L: "ua_length info \<noteq> 0" "len = ua_length info + align_mask info"
    "ua_length info \<le> len" "align_mask info = mask k"
    by (auto simp: request_ok_def)
  have l0: "len \<noteq> 0" using L(1,3) by auto
  note gap = maple_gap [OF M l0, of "tree s" low "high - 1"]
  have again: "\<exists>a. unmapped_retry E s info len high low' = Some a \<and>
      (a = err ENOMEM \<or> area_ok E s info low high a)" if "low < low'" for low'
    using less(1) [OF less_diff64 [OF that]] area_ok_mono [OF _ less_imp_le [OF that] order_refl] by blast
  show ?case
  proof (cases "mas_empty_area (index E) (tree s) low (high - 1) len")
    case None
    then show ?thesis by (simp add: unmapped_retry.simps)
  next
    case (Some i)
    define a where "a = i + ((align_offset info - i) AND align_mask info)"
    have i: "low \<le> i" "i + (len - 1) \<le> high - 1" "free_at (entry_at (index E) s) i len"
      using gap Some by (auto simp: gap_law_def fits_def)
    then have fit: "i \<le> i + (len - 1)" by (simp add: free_at_def)
    note al = aligned_in_gap [OF fit L(1-3) and_mask_le [of "align_offset info - i"], folded a_def]
    have fa: "free_at (entry_at (index E) s) a (ua_length info)"
      by (rule free_at_part [OF i(3) al])
    obtain nxt j where n: "mas_next (index E) (tree s) i ULONG_MAX = (nxt, j)" by fastforce
    obtain prv j' where p: "mas_prev (index E) (tree s) j 0 = (prv, j')" by fastforce
    have free: "entry_at (index E) s k = None" if "i \<le> k" "k \<le> a" for k
      using i(3) that al(2,3) unfolding free_at_def by (meson order_trans)
    note ar = around_gap [OF M wf free [OF order_refl al(1)] n p]
    have na: "at_or_after (index E) s a nxt" by (rule gap_shift(1) [OF wf al(1) free ar(1)])
    have pa: "last_before (index E) s a prv" by (rule gap_shift(3) [OF wf al(1) free ar(2)])
    have ok: "area_ok E s info low high a"
      if "\<And>q. nxt = Some q \<Longrightarrow> flag E (vma_at s q) VM_STARTGAP_FLAGS \<Longrightarrow>
          a + (ua_length info - 1) \<le> vm_start_gap E (vma_at s q)"
        "\<And>q. prv = Some q \<Longrightarrow>
          (case nxt of Some q \<Rightarrow> \<not> flag E (vma_at s q) VM_STARTGAP_FLAGS | None \<Rightarrow> True) \<Longrightarrow>
          vm_end_gap E (vma_at s q) \<le> a"
      by (rule area_okI [OF wf na pa L(1) order_trans [OF i(1) al(1)] order_trans [OF al(3) i(2)] fa _ that])
        (simp_all add: a_def align_up [OF L(4)])
    have eq: "unmapped_retry E s info len high low =
       (if (case nxt of Some p \<Rightarrow> flag E (vma_at s p) VM_STARTGAP_FLAGS | None \<Rightarrow> False) then
          (if vm_start_gap E (vma_at s (the nxt)) < a + len - 1
           then unmapped_retry E s info len high (vm_end (vma_at s (the nxt))) else Some a)
        else (case prv of None \<Rightarrow> Some a
          | Some p \<Rightarrow> if a < vm_end_gap E (vma_at s p)
              then unmapped_retry E s info len high (vm_end_gap E (vma_at s p)) else Some a))"
      by (subst unmapped_retry.simps) (simp add: Some n p a_def split: option.split)
    show ?thesis
    proof (cases "case nxt of Some p \<Rightarrow> flag E (vma_at s p) VM_STARTGAP_FLAGS | None \<Rightarrow> False")
      case True
      then obtain q where q: "nxt = Some q" "flag E (vma_at s q) VM_STARTGAP_FLAGS"
        by (auto split: option.splits)
      show ?thesis
      proof (cases "vm_start_gap E (vma_at s q) < a + len - 1")
        case True
        have "i < vm_end (vma_at s q)" using ar(1) q(1) by (simp add: at_or_after_def)
        with again [of "vm_end (vma_at s q)"] i(1) show ?thesis unfolding eq using q True by simp
      next
        case False
        have "len \<le> high" by (rule length_below [OF fit i(2) hi(1) l0])
        then have "a + (ua_length info - 1) \<le> a + len - 1"
          by (intro gap_end_below [of _ _ high]) (use al i(2) L hi in auto)
        with False have "area_ok E s info low high a" by (intro ok) (use q in auto)
        then show ?thesis unfolding eq using q False by simp
      qed
    next
      case no: False
      show ?thesis
      proof (cases "\<exists>q. prv = Some q \<and> a < vm_end_gap E (vma_at s q)")
        case True
        then obtain q where q: "prv = Some q" "a < vm_end_gap E (vma_at s q)" by blast
        have "low < vm_end_gap E (vma_at s q)" using i(1) al(1) q(2) by (meson order_trans order_le_less_trans)
        from again [OF this] show ?thesis unfolding eq using no q by simp
      next
        case False
        have "area_ok E s info low high a" by (rule ok) (use no False in auto)
        moreover have "unmapped_retry E s info len high low = Some a"
          unfolding eq using no False by (auto split: option.splits)
        ultimately show ?thesis by blast
      qed
    qed
  qed
qed

lemma gap_shift_down:
  assumes E: "env_ok E" and wf: "mm_wf (index E) s" and ia: "i \<le> a"
    and free: "\<And>k. i \<le> k \<Longrightarrow> k \<le> a \<Longrightarrow> entry_at (index E) s k = None"
    and r: "last_before (index E) s a r"
  shows "last_before (index E) s i r"
proof -
  have i: "last_before (index E) s i (snd (find_vma_prev E s i))" by (rule find_vma_prev_spec(2) [OF E wf])
  have "last_before (index E) s a (snd (find_vma_prev E s i))" by (rule gap_shift(3) [OF wf ia free i])
  from last_before_det [OF wf free [OF ia order_refl] r this] i show ?thesis by simp
qed

text \<open>
  Downwards the bound moves to the start of a guard gap, or of a mapping.  Were that start
  0, \<open>high_limit - 1\<close> would wrap.
\<close>

definition guards_above_zero :: "('t, 'a) mm_env_scheme \<Rightarrow> 't mm_state \<Rightarrow> bool" where
  "guards_above_zero E s \<longleftrightarrow> (\<forall>p \<in> mapped (index E) s. vm_start_gap E (vma_at s p) \<noteq> 0)"

lemma unmapped_retry_topdown_returns:
  assumes E: "env_ok E" and wf: "mm_wf (index E) s" and rq: "request_ok info len"
    and z: "guards_above_zero E s" and hi: "high \<noteq> 0"
  shows "\<exists>a. unmapped_retry_topdown E s info len low high = Some a \<and>
    (a = err ENOMEM \<or> area_ok E s info low high a)"
  using hi
proof (induction "unat high" arbitrary: high rule: less_induct)
  case less
  note M = env_maple [OF E]
  note g = gaps_okD [OF env_gaps [OF E]]
  from rq obtain k where L: "ua_length info \<noteq> 0" "len = ua_length info + align_mask info"
    "ua_length info \<le> len" "align_mask info = mask k"
    by (auto simp: request_ok_def)
  have l0: "len \<noteq> 0" using L(1,3) by auto
  have h0: "0 < high" using less(2) by (simp add: word_gt_0)
  note gap = maple_gap_rev [OF M l0, of "tree s" low "high - 1"]
  have again: "\<exists>a. unmapped_retry_topdown E s info len low high' = Some a \<and>
      (a = err ENOMEM \<or> area_ok E s info low high a)" if h: "high' < high" "high' \<noteq> 0" for high'
  proof -
    have "high' - 1 \<le> high - 1"
      using h le_minus_one64 [of high "high' - 1"] le_minus_one64 [of high' "high' - 1"] h0
      by (metis less_trans order_refl word_gt_0)
    with less(1) [OF _ h(2)] h(1) area_ok_mono [OF _ order_refl this] show ?thesis
      by (simp add: word_less_nat_alt) blast
  qed
  show ?case
  proof (cases "mas_empty_area_rev (index E) (tree s) low (high - 1) len")
    case None
    then show ?thesis by (simp add: unmapped_retry_topdown.simps)
  next
    case (Some l)
    define i where "i = l - (len - 1)"
    define adj where "adj = ((l + 1 - ua_length info) - align_offset info) AND align_mask info"
    define a where "a = i + (align_mask info - adj)"
    have a: "l + 1 - ua_length info - adj = a" by (simp add: a_def i_def L(2))
    have i: "low \<le> i" "i + (len - 1) \<le> high - 1" "free_at (entry_at (index E) s) i len" "i + (len - 1) = l"
      using gap Some by (auto simp: gap_rev_law_def fits_def i_def)
    then have fit: "i \<le> i + (len - 1)" by (simp add: free_at_def)
    have "align_mask info - adj \<le> align_mask info"
      using and_mask_le [of _ "align_mask info"] by (simp add: adj_def word_le_nat_alt unat_sub)
    note al = aligned_in_gap [OF fit L(1-3) this, folded a_def]
    have aligned: "a AND align_mask info = align_offset info AND align_mask info"
      using align_down [OF L(4), of "l + 1 - ua_length info" "align_offset info"] a by (simp add: adj_def)
    have fa: "free_at (entry_at (index E) s) a (ua_length info)"
      by (rule free_at_part [OF i(3) al])
    obtain nxt j where n: "mas_next (index E) (tree s) l ULONG_MAX = (nxt, j)" by fastforce
    obtain prv j' where p: "mas_prev (index E) (tree s) j 0 = (prv, j')" by fastforce
    have al': "a \<le> l" using al(2,3) i(4) by (simp add: order_trans)
    have free: "entry_at (index E) s k = None" if "a \<le> k" "k \<le> l" for k
      using i(3,4) that al(1) unfolding free_at_def by (metis order_trans)
    note ar = around_gap [OF M wf free [OF al' order_refl] n p]
    have na: "at_or_after (index E) s a nxt" by (rule gap_shift(2) [OF wf al' free ar(1)])
    have pa: "last_before (index E) s a prv" by (rule gap_shift_down [OF E wf al' free ar(2)])
    have ok: "area_ok E s info low high a"
      if "\<And>q. nxt = Some q \<Longrightarrow> flag E (vma_at s q) VM_STARTGAP_FLAGS \<Longrightarrow>
          a + (ua_length info - 1) \<le> vm_start_gap E (vma_at s q)"
        "\<And>q. prv = Some q \<Longrightarrow>
          (case nxt of Some q \<Rightarrow> \<not> flag E (vma_at s q) VM_STARTGAP_FLAGS | None \<Rightarrow> True) \<Longrightarrow>
          vm_end_gap E (vma_at s q) \<le> a"
      by (rule area_okI [OF wf na pa L(1) order_trans [OF i(1) al(1)] order_trans [OF al(3) i(2)] fa aligned that])
    have eq: "unmapped_retry_topdown E s info len low high =
       (if (case nxt of Some p \<Rightarrow> flag E (vma_at s p) VM_STARTGAP_FLAGS | None \<Rightarrow> False) then
          (if vm_start_gap E (vma_at s (the nxt)) \<le> l
           then unmapped_retry_topdown E s info len low (vm_start_gap E (vma_at s (the nxt))) else Some a)
        else (case prv of None \<Rightarrow> Some a
          | Some p \<Rightarrow> if a < vm_end_gap E (vma_at s p)
              then unmapped_retry_topdown E s info len low (vm_start (vma_at s p)) else Some a))"
      by (subst unmapped_retry_topdown.simps) (simp add: Some n p a [unfolded adj_def] split: option.split)
    have below: "x < high" if "x \<le> l" for x
      using that i(2,4) le_minus_one64 [OF h0] by (metis order_trans)
    show ?thesis
    proof (cases "case nxt of Some p \<Rightarrow> flag E (vma_at s p) VM_STARTGAP_FLAGS | None \<Rightarrow> False")
      case True
      then obtain q where q: "nxt = Some q" "flag E (vma_at s q) VM_STARTGAP_FLAGS"
        by (auto split: option.splits)
      show ?thesis
      proof (cases "vm_start_gap E (vma_at s q) \<le> l")
        case True
        have "q \<in> mapped (index E) s" using ar(1) q(1) by (simp add: at_or_after_def)
        then have "vm_start_gap E (vma_at s q) \<noteq> 0" using z by (simp add: guards_above_zero_def)
        from again [OF below [OF True] this] show ?thesis unfolding eq using q True by simp
      next
        case False
        have "a + (ua_length info - 1) \<le> vm_start_gap E (vma_at s q)"
          using al(3) i(4) False by simp
        then have "area_ok E s info low high a" by (intro ok) (use q in auto)
        then show ?thesis unfolding eq using q False by simp
      qed
    next
      case no: False
      show ?thesis
      proof (cases "\<exists>q. prv = Some q \<and> a < vm_end_gap E (vma_at s q)")
        case True
        then obtain q where q: "prv = Some q" "a < vm_end_gap E (vma_at s q)" by blast
        have m: "q \<in> mapped (index E) s" and e: "vm_end (vma_at s q) \<le> l"
          using ar(2) q(1) by (simp_all add: last_before_def)
        have "vm_start (vma_at s q) \<le> l" using mapped_extent(2) [OF wf m] e by simp
        moreover have "vm_start (vma_at s q) \<noteq> 0"
          using z m g(1) [of "vma_at s q"] by (auto simp: guards_above_zero_def)
        ultimately show ?thesis unfolding eq using no q again [OF below] by simp
      next
        case False
        have "area_ok E s info low high a" by (rule ok) (use no False in auto)
        moreover have "unmapped_retry_topdown E s info len low high = Some a"
          unfolding eq using no False by (auto split: option.splits)
        ultimately show ?thesis by blast
      qed
    qed
  qed
qed

lemma vm_unmapped_area_exists:
  assumes "env_ok E" "mm_wf (index E) s" "guards_above_zero E s"
    and "ua_length info \<noteq> 0" "align_mask info = mask k"
    and "high_limit info \<noteq> 0" "high_limit info \<le> 0x8000000000000000"
  shows "\<exists>a. vm_unmapped_area E s info = Some a \<and>
    (a = err ENOMEM \<or> area_ok E s info (max (low_limit info) (mmap_min_addr E)) (high_limit info) a)"
proof (cases "ua_length info + align_mask info < ua_length info")
  case True
  then show ?thesis by (simp add: vm_unmapped_area_def unmapped_area_def unmapped_area_topdown_def)
next
  case False
  then have rq: "request_ok info (ua_length info + align_mask info)"
    using assms(4,5) by (auto simp: request_ok_def)
  have low: "(if low_limit info < mmap_min_addr E then mmap_min_addr E else low_limit info) =
      max (low_limit info) (mmap_min_addr E)"
    by (auto simp: max_def)
  show ?thesis
    using unmapped_retry_returns [OF assms(1,2) rq assms(6,7)]
      unmapped_retry_topdown_returns [OF assms(1,2) rq assms(3,6)] False
    by (simp add: vm_unmapped_area_def unmapped_area_def unmapped_area_topdown_def low Let_def)
qed


lemma mm_env_extend_sel [simp]:
  "index (mm_env.extend E m) = index E" "mmap_min_addr (mm_env.extend E m) = mmap_min_addr E"
  "vm_start_gap (mm_env.extend E m) = vm_start_gap E" "vm_end_gap (mm_env.extend E m) = vm_end_gap E"
  "cst (mm_env.extend E m) = cst E" "PAGE_SHIFT (mm_env.extend E m) = PAGE_SHIFT E"
  "PAGE_ALIGN (mm_env.extend E m) = PAGE_ALIGN E" "offset_in_page (mm_env.extend E m) = offset_in_page E"
  "IS_ERR_VALUE (mm_env.extend E m) = IS_ERR_VALUE E" "vma_pages (mm_env.extend E m) = vma_pages E"
  "vma_alloc (mm_env.extend E m) = vma_alloc E"
  by (simp_all add: mm_env.extend_def)

lemma env_ok_extend [simp]: "env_ok (mm_env.extend E m) = env_ok E"
  by (simp add: env_ok_def hdr_ok_def gaps_ok_def)

section \<open>The generic searches keep the contract of a \<open>get_unmapped_area\<close> callback\<close>

text \<open>What a caller relies on: the layout of the address space, and a well-formed index.\<close>

definition area_state :: "('t, 'a) area_env_scheme \<Rightarrow> 't mm_state \<Rightarrow> bool" where
  "area_state E s \<longleftrightarrow>
     env_ok E \<and> mm_wf (index E) s \<and> guards_above_zero E s \<and>
     (\<forall>a n f. let e = arch_get_mmap_end E a n f in e \<noteq> 0 \<and> e \<le> 0x8000000000000000 \<and> mmap_min_addr E \<le> e) \<and>
     (\<forall>a. let b = arch_get_mmap_base E a (mmap_base (cur_mm s)) in b \<noteq> 0 \<and> b \<le> 0x8000000000000000)"

definition area_answer ::
  "('t, 'a) area_env_scheme \<Rightarrow> 't mm_state \<Rightarrow> u64 \<Rightarrow> u64 \<Rightarrow> u64 \<Rightarrow> u64 \<Rightarrow> bool" where
  "area_answer E s addr len flags a \<longleftrightarrow>
     a = err ENOMEM \<or>
     (if flags AND cst E MAP_FIXED \<noteq> 0 then a = addr
      else mmap_min_addr E \<le> a \<and> free_at (entry_at (index E) s) a len)"

lemma no_wrap_below:
  fixes a n e :: u64
  assumes "a \<le> e - n" "n \<le> e" "n \<noteq> 0"
  shows "a \<le> a + (n - 1)" "a + (n - 1) < a + n"
proof -
  have 1: "unat (n - 1) = unat n - 1" "0 < unat n" using assms(3) by (simp_all add: unat_minus_one unat_gt_0)
  have 2: "unat a + unat n \<le> unat e" using assms(1,2) by (simp add: word_le_nat_alt unat_sub)
  then have "unat a + unat n < 2 ^ 64" using unat_bound64 [of e] by linarith
  then have "unat (a + n) = unat a + unat n" "unat (a + (n - 1)) = unat a + (unat n - 1)"
    using unat_add_nowrap [of a n] unat_add_nowrap [of a "n - 1"] 1 by auto
  then show "a \<le> a + (n - 1)" "a + (n - 1) < a + n"
    using 1(2) by (simp_all add: word_le_nat_alt word_less_nat_alt)
qed

lemma hint_free_ok:
  assumes E: "env_ok E" and wf: "mm_wf (index E) s"
    and n: "len \<noteq> 0" "len \<le> e" and h: "hint_free E s e a len"
  shows "mmap_min_addr E \<le> a \<and> free_at (entry_at (index E) s) a len"
proof -
  note g = gaps_okD [OF env_gaps [OF E]]
  obtain nxt prv where p: "find_vma_prev E s a = (nxt, prv)" by fastforce
  have a: "a \<le> e - len" "mmap_min_addr E \<le> a"
    and up: "\<And>q. nxt = Some q \<Longrightarrow> a + len \<le> vm_start_gap E (vma_at s q)"
    using h p by (auto simp: hint_free_def)
  note w = no_wrap_below [OF a(1) n(2,1)]
  have r: "at_or_after (index E) s a nxt" using find_vma_prev_spec(1) [OF E wf, of a] p by simp
  have "entry_at (index E) s k = None" if "a \<le> k" "k \<le> a + (len - 1)" for k
  proof (cases nxt)
    case None
    then show ?thesis using r that by (simp add: at_or_after_def)
  next
    case (Some q)
    have "k < vm_start (vma_at s q)"
      using that(2) w(2) up [OF Some] g(1) [of "vma_at s q"] by (meson less_le_trans order_le_less_trans order_trans)
    then show ?thesis using r that Some by (simp add: at_or_after_def)
  qed
  with a(2) w(1) show ?thesis by (auto simp: free_at_def)
qed

lemma search_answer:
  assumes st: "area_state E s" and n: "ua_length info \<noteq> 0" and i: "align_mask info = 0"
    and hi: "high_limit info \<noteq> 0" "high_limit info \<le> 0x8000000000000000"
  obtains a where "vm_unmapped_area E s info = Some a"
    "a = err ENOMEM \<or> mmap_min_addr E \<le> a \<and> free_at (entry_at (index E) s) a (ua_length info)"
proof -
  have "env_ok E" "mm_wf (index E) s" "guards_above_zero E s" using st by (auto simp: area_state_def)
  moreover have "align_mask info = mask 0" using i by simp
  ultimately obtain a where "vm_unmapped_area E s info = Some a"
    "a = err ENOMEM \<or> area_ok E s info (max (low_limit info) (mmap_min_addr E)) (high_limit info) a"
    using vm_unmapped_area_exists [OF _ _ _ n _ hi] by blast
  then show thesis using that [of a] by (auto simp: area_ok_def)
qed

lemma layoutD:
  assumes "area_state E s"
  shows "arch_get_mmap_end E a n f \<noteq> 0" "arch_get_mmap_end E a n f \<le> 0x8000000000000000"
    "mmap_min_addr E \<le> arch_get_mmap_end E a n f"
    "arch_get_mmap_base E a (mmap_base (cur_mm s)) \<noteq> 0"
    "arch_get_mmap_base E a (mmap_base (cur_mm s)) \<le> 0x8000000000000000"
  using assms unfolding area_state_def Let_def by blast+

lemma fits_end: "\<not> e - m < (n :: u64) \<Longrightarrow> m \<le> e \<Longrightarrow> n \<le> e"
  by (simp add: word_less_nat_alt word_le_nat_alt unat_sub)

lemma generic_answers:
  assumes st: "area_state E s" and n: "len \<noteq> 0"
  shows "\<exists>a. generic_get_unmapped_area E s filp addr len pgoff flags = Some a \<and>
    area_answer E s addr len flags a"
proof -
  let ?e = "arch_get_mmap_end E addr len flags"
  note l = layoutD [OF st]
  have E: "env_ok E" "mm_wf (index E) s" using st by (auto simp: area_state_def)
  show ?thesis
  proof (cases "?e - mmap_min_addr E < len \<or> flags AND cst E MAP_FIXED \<noteq> 0")
    case True
    then show ?thesis
      by (cases "?e - mmap_min_addr E < len") (auto simp: generic_get_unmapped_area_def area_answer_def Let_def)
  next
    case False
    then have le: "len \<le> ?e" using fits_end l(3) by blast
    show ?thesis
    proof (cases "addr \<noteq> 0 \<and> hint_free E s ?e (PAGE_ALIGN E addr) len")
      case True
      then show ?thesis using False hint_free_ok [OF E n le]
        by (auto simp: generic_get_unmapped_area_def area_answer_def)
    next
      case no: False
      let ?info = "\<lparr>ua_flags = 0, ua_length = len, low_limit = mmap_base (cur_mm s), high_limit = ?e,
              align_mask = 0, align_offset = 0\<rparr>"
      obtain a where "vm_unmapped_area E s ?info = Some a"
        "a = err ENOMEM \<or> mmap_min_addr E \<le> a \<and> free_at (entry_at (index E) s) a len"
        using search_answer [OF st, of ?info] n l(1,2) by auto
      with no False show ?thesis by (auto simp: generic_get_unmapped_area_def area_answer_def)
    qed
  qed
qed

lemma generic_topdown_answers:
  assumes st: "area_state E s" and n: "len \<noteq> 0"
  shows "\<exists>a. generic_get_unmapped_area_topdown E s filp addr len pgoff flags = Some a \<and>
    area_answer E s addr len flags a"
proof -
  let ?e = "arch_get_mmap_end E addr len flags"
  note l = layoutD [OF st]
  have E: "env_ok E" "mm_wf (index E) s" using st by (auto simp: area_state_def)
  show ?thesis
  proof (cases "?e - mmap_min_addr E < len \<or> flags AND cst E MAP_FIXED \<noteq> 0")
    case True
    then show ?thesis
      by (cases "?e - mmap_min_addr E < len") (auto simp: generic_get_unmapped_area_topdown_def area_answer_def Let_def)
  next
    case False
    then have le: "len \<le> ?e" using fits_end l(3) by blast
    show ?thesis
    proof (cases "addr \<noteq> 0 \<and> hint_free E s ?e (PAGE_ALIGN E addr) len")
      case True
      then show ?thesis using False hint_free_ok [OF E n le]
        by (auto simp: generic_get_unmapped_area_topdown_def area_answer_def Let_def)
    next
      case no: False
      let ?addr = "if addr \<noteq> 0 then PAGE_ALIGN E addr else addr"
      let ?info = "\<lparr>ua_flags = cst E VM_UNMAPPED_AREA_TOPDOWN, ua_length = len, low_limit = cst E PAGE_SIZE,
        high_limit = arch_get_mmap_base E ?addr (mmap_base (cur_mm s)), align_mask = 0, align_offset = 0\<rparr>"
      let ?again = "?info\<lparr>ua_flags := 0, low_limit := cst E TASK_UNMAPPED_BASE, high_limit := ?e\<rparr>"
      obtain a where a: "vm_unmapped_area E s ?info = Some a"
        "a = err ENOMEM \<or> mmap_min_addr E \<le> a \<and> free_at (entry_at (index E) s) a len"
        using search_answer [OF st, of ?info] n l(4,5) by (auto split: if_splits)
      obtain b where b: "vm_unmapped_area E s ?again = Some b"
        "b = err ENOMEM \<or> mmap_min_addr E \<le> b \<and> free_at (entry_at (index E) s) b len"
        using search_answer [OF st, of ?again] n l(1,2) by auto
      have "generic_get_unmapped_area_topdown E s filp addr len pgoff flags =
          Some (if offset_in_page E a \<noteq> 0 then b else a)"
        using no False a(1) b(1) by (auto simp: generic_get_unmapped_area_topdown_def Let_def)
      with a(2) b(2) False show ?thesis by (auto simp: area_answer_def)
    qed
  qed
qed

text \<open>A callback that keeps the contract, and what \<open>get_unmapped_area\<close> makes of it.\<close>

locale area_provider =
  fixes get :: "('t, 'a) area_env_scheme \<Rightarrow> 't get_area"
  assumes answers: "area_state E s \<Longrightarrow> len \<noteq> 0 \<Longrightarrow>
    \<exists>a. get E s filp addr len pgoff flags = Some a \<and> area_answer E s addr len flags a"
begin

lemma placed:
  assumes st: "area_state P s" "index P = index E" "cst P = cst E" "mmap_min_addr P = mmap_min_addr E"
    and E: "hdr_ok E" and ch: "choose_area E file flags = get P" and n: "len \<noteq> 0"
    and checks: "arch_mmap_check E addr len flags = 0 \<or> IS_ERR_VALUE E (arch_mmap_check E addr len flags)"
      "\<And>a. security_mmap_addr E a = 0 \<or> IS_ERR_VALUE E (security_mmap_addr E a)"
  shows "\<exists>a. get_unmapped_area E s file addr len pgoff flags = Some a \<and>
    (IS_ERR_VALUE E a \<or>
      4096 dvd unat a \<and> len \<le> cst E TASK_SIZE \<and> a \<le> cst E TASK_SIZE - len \<and> area_answer E s addr len flags a)"
proof -
  have en: "IS_ERR_VALUE E (err ENOMEM)" "IS_ERR_VALUE E (err EINVAL)"
    by (simp_all add: hdr_simps [OF E] err_def)
  obtain a where a: "get P s file addr len (if file = None then 0 else pgoff) flags = Some a"
    "area_answer P s addr len flags a"
    using answers [OF st(1) n] by blast
  have a': "area_answer E s addr len flags a" using a(2) st(2-4) by (auto simp: area_answer_def)
  have al: "4096 dvd unat a" if "offset_in_page E a = 0"
    using that by (simp add: hdr_simps [OF E] dvd_eq_mod_eq_0 flip: unat_and_4095)
  show ?thesis
    using checks(1) checks(2) [of a] en a(1) a' al
    by (auto simp: get_unmapped_area_def ch Let_def)
qed

end

interpretation bottom_up: area_provider generic_get_unmapped_area
  by unfold_locales (rule generic_answers)

interpretation top_down: area_provider generic_get_unmapped_area_topdown
  by unfold_locales (rule generic_topdown_answers)

section \<open>The claims\<close>

text \<open>
  C29: \<open>vm_unmapped_area\<close> returns, although its searches jump back to \<open>retry\<close>, and what it
  returns is \<open>-ENOMEM\<close> or an address that answers the request: the range lies between the
  limits and above \<open>mmap_min_addr\<close>, overlaps no mapping, starts at the alignment asked for,
  and respects the guard gap of the stack above it, or, where there is none above, of the
  mapping below it.  The hypotheses are a length above 0, a mask of low bits, an upper limit
  in the user half, and that no guard gap reaches down to address 0.
\<close>

theorem vm_unmapped_area_returns:
  assumes "env_ok E" "mm_wf (index E) s" "guards_above_zero E s"
    and "ua_length info \<noteq> 0" "align_mask info = mask k"
    and "high_limit info \<noteq> 0" "high_limit info \<le> 0x8000000000000000"
  shows "\<exists>a. vm_unmapped_area E s info = Some a \<and>
    (a = err ENOMEM \<or> area_ok E s info (max (low_limit info) (mmap_min_addr E)) (high_limit info) a)"
  by (rule vm_unmapped_area_exists [OF assms])

definition demo_request :: vm_unmapped_area_info where
  "demo_request = \<lparr>ua_flags = 1, ua_length = 0x2000, low_limit = 0x1000, high_limit = 0x7fff00000000,
     align_mask = 0xfff, align_offset = 0\<rparr>"

lemma demo_guards [simp]: "guards_above_zero x86_env demo_mms"
  by (simp add: guards_above_zero_def demo_mapped) (simp add: demo_defs x86_start_gap_def)

theorem vm_unmapped_area_returns_witness:
  "\<exists>a. vm_unmapped_area x86_env demo_mms demo_request = Some a \<and>
    (a = err ENOMEM \<or> area_ok x86_env demo_mms demo_request 0x10000 0x7fff00000000 a)"
  using vm_unmapped_area_returns [of x86_env demo_mms demo_request 12]
  by (simp add: demo_request_def mask_eq_exp_minus_1 max_def)

text \<open>
  C30: \<open>get_unmapped_area\<close> with one of the two generic searches as the callback returns an
  error value or a page-aligned address at which the request fits below \<open>TASK_SIZE\<close>.  Without
  \<open>MAP_FIXED\<close> the range it returns is free and above \<open>mmap_min_addr\<close>; with \<open>MAP_FIXED\<close> it is the
  address asked for.  \<open>P\<close> is the environment the search runs in: it shares the index and the
  header constants with \<open>E\<close>, whose \<open>choose_area\<close> picks the search.
\<close>

theorem get_unmapped_area_places:
  assumes "area_state P s" "index P = index E" "cst P = cst E" "mmap_min_addr P = mmap_min_addr E"
    and "hdr_ok E" and "len \<noteq> 0"
    and "choose_area E file flags = generic_get_unmapped_area P \<or>
      choose_area E file flags = generic_get_unmapped_area_topdown P"
    and "arch_mmap_check E addr len flags = 0 \<or> IS_ERR_VALUE E (arch_mmap_check E addr len flags)"
    and "\<And>a. security_mmap_addr E a = 0 \<or> IS_ERR_VALUE E (security_mmap_addr E a)"
  shows "\<exists>a. get_unmapped_area E s file addr len pgoff flags = Some a \<and>
    (IS_ERR_VALUE E a \<or>
      4096 dvd unat a \<and> len \<le> cst E TASK_SIZE \<and> a \<le> cst E TASK_SIZE - len \<and>
      (if flags AND cst E MAP_FIXED \<noteq> 0 then a = addr
       else mmap_min_addr E \<le> a \<and> free_at (entry_at (index E) s) a len))"
proof -
  have "IS_ERR_VALUE E (err ENOMEM)" by (simp add: hdr_simps [OF assms(5)] err_def)
  with assms(7) bottom_up.placed [OF assms(1-5) _ assms(6,8,9)] top_down.placed [OF assms(1-5) _ assms(6,8,9)]
  show ?thesis unfolding area_answer_def by metis
qed

text \<open>An architecture whose loader chose the search downwards.\<close>

definition x86_areas :: "wlog get_area \<Rightarrow> wlog area_env" where
  "x86_areas get = mm_env.extend x86_env
     (area_env.fields (\<lambda>a n f. 0x7ffffffff000) (\<lambda>a b. b) (\<lambda>a n f. 0) (\<lambda>a. 0)
        get (\<lambda>f. None) get get False)"

lemma x86_areas_sel [simp]:
  "arch_get_mmap_end (x86_areas g) = (\<lambda>a n f. 0x7ffffffff000)" "arch_get_mmap_base (x86_areas g) = (\<lambda>a b. b)"
  "arch_mmap_check (x86_areas g) = (\<lambda>a n f. 0)" "security_mmap_addr (x86_areas g) = (\<lambda>a. 0)"
  "mm_get_unmapped_area (x86_areas g) = g" "file_area (x86_areas g) = (\<lambda>f. None)"
  "shmem_get_unmapped_area (x86_areas g) = g" "thp_get_unmapped_area (x86_areas g) = g"
  "transparent_hugepage (x86_areas g) = False"
  "index (x86_areas g) = log_maple" "mmap_min_addr (x86_areas g) = 0x10000" "cst (x86_areas g) = x86_cst"
  "vm_start_gap (x86_areas g) = x86_start_gap" "IS_ERR_VALUE (x86_areas g) = (\<lambda>x. - 4095 \<le> x)"
  by (simp_all add: x86_areas_def mm_env.extend_def area_env.fields_def)
    (simp_all add: x86_env_def hdr.extend_def mm_env.fields_def x86_hdr_def)

lemma x86_areas_ok [simp]: "env_ok (x86_areas g)"
  by (simp add: x86_areas_def)

lemma demo_areas [simp]: "area_state (x86_areas g) demo_mms"
  by (simp add: area_state_def guards_above_zero_def demo_mapped)
    (simp add: demo_defs x86_start_gap_def)

theorem get_unmapped_area_places_witness:
  "\<exists>a. get_unmapped_area (x86_areas (generic_get_unmapped_area_topdown (x86_areas (\<lambda>s f a n p f. None))))
      demo_mms None 0 0x3000 0 0x22 = Some a \<and>
    (- 4095 \<le> a \<or> 4096 dvd unat a \<and> a \<le> 0x7fffffffc000 \<and> 0x10000 \<le> a \<and> free_at (log_load (tree demo_mms)) a 0x3000)"
  using get_unmapped_area_places [of "x86_areas (\<lambda>s f a n p f. None)" demo_mms
      "x86_areas (generic_get_unmapped_area_topdown (x86_areas (\<lambda>s f a n p f. None)))" "0x3000" None "0x22" 0 0]
  by (auto simp: choose_area_def env_hdr)

text \<open>
  The hypothesis on the guard gaps is needed: with a stack whose gap reaches address 0 the
  upper bound of the downward search wraps, and the search leaves its limits.
\<close>

definition low_stack :: "wlog mm_state" where
  "low_stack = demo_mms\<lparr>cur_mm := demo_mm\<lparr>mm_mt := [(0x100000, 0x101fff, Some 3)], map_count := 1\<rparr>,
     vmas := [3 \<mapsto> demo_stack\<lparr>vm_start := 0x100000, vm_end := 0x102000\<rparr>]\<rparr>"

lemma low_stack_index:
  "log_gap_rev (tree low_stack) 0x10000 0xfffff 0x1000 = Some 0xfffff"
  "log_next (tree low_stack) 0xfffff (- 1) = (Some 3, 0x100000)"
  "log_gap_rev (tree low_stack) 0x10000 (- 1) 0x1000 = Some (- 1)"
  "log_next (tree low_stack) (- 1) (- 1) = (None, - 1)"
  "log_prev (tree low_stack) (- 1) 0 = (Some 3, 0x101fff)"
  by code_simp+

lemma low_stack_vma:
  "vm_start (vma_at low_stack 3) = 0x100000" "vm_end (vma_at low_stack 3) = 0x102000"
  "vm_flags (vma_at low_stack 3) = 0x100173"
  by (simp_all add: low_stack_def vma_at_def demo_defs)

lemma low_stack_wraps:
  "unmapped_area_topdown x86_env low_stack
     \<lparr>ua_flags = 1, ua_length = 0x1000, low_limit = 0x1000, high_limit = 0x100000, align_mask = 0, align_offset = 0\<rparr>
   = Some 0xfffffffffffff000"
proof -
  let ?info = "\<lparr>ua_flags = 1, ua_length = 0x1000, low_limit = 0x1000, high_limit = 0x100000,
    align_mask = 0, align_offset = 0\<rparr>"
  have g: "x86_start_gap (vma_at low_stack 3) = 0" by (simp add: x86_start_gap_def low_stack_vma)
  have "unmapped_area_topdown x86_env low_stack ?info =
      unmapped_retry_topdown x86_env low_stack ?info 0x1000 0x10000 0x100000"
    by (simp add: unmapped_area_topdown_def)
  also have "\<dots> = unmapped_retry_topdown x86_env low_stack ?info 0x1000 0x10000 0"
    by (subst unmapped_retry_topdown.simps) (simp add: low_stack_index low_stack_vma g)
  also have "\<dots> = Some 0xfffffffffffff000"
    by (subst unmapped_retry_topdown.simps) (simp add: low_stack_index low_stack_vma)
  finally show ?thesis .
qed

end
