(* ===== verification/Munmap_Props.thy ===== *)
theory Munmap_Props
  imports Munmap Vma_Locks Unmapped_Props
begin

text \<open>
  Unmapping refines its specification: the detaching loop by computation induction (the
  invariant is \<open>detached_upto\<close>), the freeing of the detached mappings, and on top of them what
  \<open>do_vmi_munmap\<close> does to the address space, to \<open>total_vm\<close> and to the locks.
\<close>

section \<open>Detaching one mapping\<close>

lemma split_below:
  assumes E: "env_ok E" and ok: "mm_ok E s" and p: "p \<in> mapped (index E) s"
    and at: "vm_start (vma_at s p) < fin" "fin < vm_end (vma_at s p)" "4096 dvd unat fin"
    and sp: "split_vma_nocheck E p fin False s = (Inr (), t)"
    and k: "k < fin"
  shows "entry_at (index E) t k = entry_at (index E) s k"
proof -
  let ?M = "index E"
  note o = split_nocheck_ok [OF E ok p at sp]
  note wf = mm_ok_wf [OF ok] and wf' = mm_ok_wf [OF o(1)]
  have pv: "vm_start (vma_at t p) = vm_start (vma_at s p)" "vm_end (vma_at t p) = fin"
    using o(4) by (simp_all add: split_rest_def)
  obtain new where new: "new \<notin> mapped ?M s" "mapped ?M t = insert new (mapped ?M s)" "vm_start (vma_at t new) = fin"
    using o(3) by auto
  have ext: "entry_at ?M t k = Some q \<longleftrightarrow> entry_at ?M s k = Some q" if q: "q \<in> mapped ?M s" for q
  proof -
    have qt: "q \<in> mapped ?M t" using q new(2) by simp
    show ?thesis
      using mapped_extent(3) [OF wf q, of k] mapped_extent(3) [OF wf' qt, of k] o(5) [OF q] pv k at(2)
      by (cases "q = p") (auto dest: less_trans)
  qed
  have no: "entry_at ?M t k \<noteq> Some new"
    using mapped_extent(3) [OF wf', of new k] new(2,3) k by auto
  show ?thesis
  proof (cases "entry_at ?M t k")
    case None
    with ext show ?thesis by (cases "entry_at ?M s k") (auto simp: mapped_def)
  next
    case (Some q)
    then have "q \<in> mapped ?M t" by (auto simp: mapped_def)
    with Some no new(2) ext [of q] show ?thesis by auto
  qed
qed

definition locked_pages :: "('t, 'a) mm_env_scheme \<Rightarrow> 't mm_state \<Rightarrow> vptr list \<Rightarrow> u64" where
  "locked_pages E s ps = (\<Sum>p\<leftarrow>ps. if flag E (vma_at s p) VM_LOCKED then vma_pages E (vma_at s p) else 0)"

lemma detach_one_spec:
  assumes E: "env_ok E" and ok: "mm_ok E s" and p: "p \<in> mapped (index E) s"
    and at: "vm_start (vma_at s p) < fin" "4096 dvd unat fin"
    and r: "detach_one E start fin uf p det locked s = (r, det', t)"
  shows "mm_ok E t" "view E t = view E s" "same_counters s t"
    "r = Inr locked' \<Longrightarrow> det' = det @ [p] \<and> p \<in> mapped (index E) t \<and>
       vm_start (vma_at t p) = vm_start (vma_at s p) \<and> vm_end (vma_at t p) = min fin (vm_end (vma_at s p)) \<and>
       locked' = locked + locked_pages E t [p]"
    "r = Inr locked' \<Longrightarrow> q \<in> mapped (index E) s \<Longrightarrow> q \<noteq> p \<Longrightarrow> vma_at t q = vma_at s q"
    "r = Inr locked' \<Longrightarrow> k < fin \<Longrightarrow> entry_at (index E) t k = entry_at (index E) s k"
proof -
  let ?M = "index E"
  obtain x u where x: "(if fin < vm_end (vma_at s p) then split_vma_nocheck E p fin False s else (Inr (), s)) = (x, u)"
    by fastforce
  have u: "mm_ok E u \<and> view E u = view E s \<and> same_counters s u \<and> (x = Inr () \<longrightarrow> p \<in> mapped ?M u \<and>
      vm_start (vma_at u p) = vm_start (vma_at s p) \<and> vm_end (vma_at u p) = min fin (vm_end (vma_at s p)) \<and>
      (\<forall>q \<in> mapped ?M s. q \<noteq> p \<longrightarrow> vma_at u q = vma_at s q) \<and>
      (\<forall>k < fin. entry_at ?M u k = entry_at ?M s k))"
  proof (cases "fin < vm_end (vma_at s p)")
    case False
    then show ?thesis using x ok p by (auto simp: min_def)
  next
    case True
    then have sp: "split_vma_nocheck E p fin False s = (x, u)" using x by simp
    show ?thesis
    proof (cases x)
      case (Inl e)
      have "same_mm u s" using split_nocheck_fail [OF E] sp Inl by blast
      then show ?thesis using ok Inl mm_ok_same [of u s] view_same [of u s]
        by (auto simp: same_mm_def)
    next
      case (Inr y)
      then have sp': "split_vma_nocheck E p fin False s = (Inr (), u)" using sp by simp
      note o = split_nocheck_ok [OF E ok p at(1) True at(2) sp']
      have "same_counters s u"
        using o(6) by auto
      moreover have "p \<in> mapped ?M u" using o(3) p by auto
      ultimately show ?thesis
        using o(1,2,4,5) split_below [OF E ok p at(1) True at(2) sp'] True by (auto simp: split_rest_def)
    qed
  qed
  have t: "same_mm t u" "r = Inr locked' \<longrightarrow> x = Inr () \<and> det' = det @ [p] \<and>
      locked' = locked + locked_pages E u [p]"
    using r x unfolding detach_one_def Let_def
    by (auto simp: locked_pages_def split: sum.splits option.splits if_splits)
  note d = same_mmD [OF t(1)]
  have lp: "locked_pages E t [p] = locked_pages E u [p]" using d by (simp add: locked_pages_def)
  have "mapped ?M t = mapped ?M u" using d by (simp add: mapped_def)
  with u t lp d show "mm_ok E t" "view E t = view E s" "same_counters s t"
    "r = Inr locked' \<Longrightarrow> det' = det @ [p] \<and> p \<in> mapped ?M t \<and>
       vm_start (vma_at t p) = vm_start (vma_at s p) \<and> vm_end (vma_at t p) = min fin (vm_end (vma_at s p)) \<and>
       locked' = locked + locked_pages E t [p]"
    "r = Inr locked' \<Longrightarrow> q \<in> mapped (index E) s \<Longrightarrow> q \<noteq> p \<Longrightarrow> vma_at t q = vma_at s q"
    "r = Inr locked' \<Longrightarrow> k < fin \<Longrightarrow> entry_at (index E) t k = entry_at (index E) s k"
    using mm_ok_same [OF t(1), of E] view_same [OF t(1), of E]
    by (auto simp: same_mm_def)
qed

section \<open>The loop\<close>

text \<open>\<open>det\<close> are the mappings found from \<open>start\<close> to below \<open>b\<close>, each wholly inside.\<close>

definition detached_upto ::
  "('t, 'a) mm_env_scheme \<Rightarrow> 't mm_state \<Rightarrow> u64 \<Rightarrow> vptr list \<Rightarrow> u64 \<Rightarrow> bool" where
  "detached_upto E s start det b \<longleftrightarrow>
     distinct det \<and> set det = {q. \<exists>k. start \<le> k \<and> k < b \<and> entry_at (index E) s k = Some q} \<and>
     (\<forall>q \<in> set det. start \<le> vm_start (vma_at s q) \<and> vm_end (vma_at s q) \<le> b)"

lemma detached_upto_mono:
  assumes "detached_upto E s start det b" "b \<le> c" "\<And>k. b \<le> k \<Longrightarrow> k < c \<Longrightarrow> entry_at (index E) s k = None"
  shows "detached_upto E s start det c"
proof -
  have "(\<exists>k. start \<le> k \<and> k < b \<and> entry_at (index E) s k = Some q) \<longleftrightarrow>
      (\<exists>k. start \<le> k \<and> k < c \<and> entry_at (index E) s k = Some q)" for q
    using assms(2,3) by (metis less_le_trans not_le option.distinct(1))
  with assms(1,2) show ?thesis unfolding detached_upto_def by (auto intro: order_trans)
qed

lemma detached_upto_snoc:
  assumes wf: "mm_wf (index E) s" "mm_wf (index E) t" and d: "detached_upto E s start det (vm_start (vma_at s p))"
    and p: "p \<in> mapped (index E) s" "p \<in> mapped (index E) t" "start \<le> vm_start (vma_at s p)"
    and same: "vm_start (vma_at t p) = vm_start (vma_at s p)" "vm_end (vma_at t p) \<le> fin"
      "\<And>q. q \<in> mapped (index E) s \<Longrightarrow> q \<noteq> p \<Longrightarrow> vma_at t q = vma_at s q"
      "\<And>k. k < fin \<Longrightarrow> entry_at (index E) t k = entry_at (index E) s k"
  shows "detached_upto E t start (det @ [p]) (vm_end (vma_at t p))" "p \<notin> set det"
proof -
  let ?M = "index E" let ?e = "vm_end (vma_at t p)" and ?b = "vm_start (vma_at s p)"
  note x = mapped_extent [OF wf(1) p(1)] and y = mapped_extent [OF wf(2) p(2)]
  have ds: "set det = {q. \<exists>k. start \<le> k \<and> k < ?b \<and> entry_at ?M s k = Some q}" "distinct det"
    and db: "\<And>q. q \<in> set det \<Longrightarrow> start \<le> vm_start (vma_at s q) \<and> vm_end (vma_at s q) \<le> ?b"
    using d unfolding detached_upto_def by blast+
  show np: "p \<notin> set det" using db [of p] x(2) by auto
  have be: "?b < ?e" using y(2) same(1) by simp
  have eq: "entry_at ?M t k = entry_at ?M s k" if "k < ?e" for k
    using same(4) that same(2) by (meson less_le_trans)
  have "set (det @ [p]) = {q. \<exists>k. start \<le> k \<and> k < ?e \<and> entry_at ?M t k = Some q}"
  proof (intro equalityI subsetI)
    fix q assume "q \<in> set (det @ [p])"
    then consider "q \<in> set det" | "q = p" by auto
    then show "q \<in> {q. \<exists>k. start \<le> k \<and> k < ?e \<and> entry_at ?M t k = Some q}"
    proof cases
      case 1
      then obtain k where "start \<le> k" "k < ?b" "entry_at ?M s k = Some q" using ds by auto
      with be eq [of k] show ?thesis by (auto dest: less_trans)
    next
      case 2
      have "entry_at ?M t ?b = Some p" using y(3) [of ?b] same(1) be by simp
      with 2 p(3) be show ?thesis by auto
    qed
  next
    fix q assume "q \<in> {q. \<exists>k. start \<le> k \<and> k < ?e \<and> entry_at ?M t k = Some q}"
    then obtain k where k: "start \<le> k" "k < ?e" "entry_at ?M t k = Some q" by auto
    show "q \<in> set (det @ [p])"
    proof (cases "k < ?b")
      case True
      with k eq [of k] ds show ?thesis by auto
    next
      case False
      then have "entry_at ?M t k = Some p" using y(3) [of k] same(1) k(2) by simp
      with k show ?thesis by simp
    qed
  qed
  moreover have "start \<le> vm_start (vma_at t q) \<and> vm_end (vma_at t q) \<le> ?e" if "q \<in> set (det @ [p])" for q
  proof (cases "q = p")
    case True
    then show ?thesis using p(3) same(1) by simp
  next
    case False
    then have q: "q \<in> set det" using that by simp
    then have "q \<in> mapped ?M s" using ds by (auto simp: mapped_def)
    then show ?thesis using db [OF q] same(3) [of q] False be by (auto intro: order_trans [OF _ less_imp_le])
  qed
  ultimately show "detached_upto E t start (det @ [p]) ?e"
    using np ds(2) unfolding detached_upto_def by simp
qed

lemma locked_pages_append: "locked_pages E s (xs @ ys) = locked_pages E s xs + locked_pages E s ys"
  by (simp add: locked_pages_def)

lemma locked_pages_cong:
  "(\<And>p. p \<in> set ps \<Longrightarrow> vma_at t p = vma_at s p) \<Longrightarrow> locked_pages E t ps = locked_pages E s ps"
  unfolding locked_pages_def by (rule arg_cong [of _ _ sum_list], rule map_cong) simp_all

lemma detach_loop_spec:
  assumes E: "env_ok E" and fin: "4096 dvd unat fin"
    and r: "detach_loop E start fin uf i p det locked s = (r, det', t)"
    and ok: "mm_ok E s" and p: "entry_at (index E) s i = Some p"
    and at: "start \<le> vm_start (vma_at s p)" "i < fin"
    and d: "detached_upto E s start det (vm_start (vma_at s p))" and l: "locked = locked_pages E s det"
  shows "mm_ok E t \<and> view E t = view E s \<and> same_counters s t \<and>
    (\<forall>locked'. r = Inr locked' \<longrightarrow> detached_upto E t start det' fin \<and> locked' = locked_pages E t det')"
  using E fin r ok p at d l
proof (induction E start fin uf i p det locked s rule: detach_loop.induct)
  case (1 E start fin uf i p det locked s)
  let ?M = "index E"
  note E = 1(2) and fin = 1(3) and r = 1(4) and ok = 1(5) and p = 1(6) and st = 1(7) and i = 1(8)
    and d = 1(9) and l = 1(10)
  note wf = mm_ok_wf [OF ok] and M = env_maple [OF E]
  note x = mm_wfD [OF wf p]
  have pm: "p \<in> mapped ?M s" using p by (auto simp: mapped_def)
  have pi: "vm_start (vma_at s p) \<le> i" "i < vm_end (vma_at s p)" using x(3) [of i] p by auto
  then have sf: "vm_start (vma_at s p) < fin" using i by simp
  obtain r1 det1 u where one: "detach_one E start fin uf p det locked s = (r1, det1, u)" by (metis prod_cases3)
  note o = detach_one_spec [OF E ok pm sf fin one]
  show ?case
  proof (cases r1)
    case (Inl e)
    then have "r = Inl e" "t = u" using r one by (simp_all add: detach_loop.simps [of E])
    with o(1-3) show ?thesis by simp
  next
    case (Inr l1)
    note o4 = o(4) [OF Inr] and o5 = o(5) [OF Inr] and o6 = o(6) [OF Inr]
    let ?e = "vm_end (vma_at u p)"
    have det1: "det1 = det @ [p]" and pu: "p \<in> mapped ?M u" and b: "vm_start (vma_at u p) = vm_start (vma_at s p)"
      and e: "?e = min fin (vm_end (vma_at s p))" and l1: "l1 = locked + locked_pages E u [p]"
      using o4 by auto
    note wf' = mm_ok_wf [OF o(1)]
    note y = mapped_extent [OF wf' pu]
    have ef: "?e \<le> fin" using e by simp
    note sn = detached_upto_snoc [OF wf wf' d pm pu st b ef o5 o6]
    have lp: "l1 = locked_pages E u det1"
    proof -
      have "q \<in> mapped ?M s \<and> q \<noteq> p" if "q \<in> set det" for q
        using d that sn(2) by (auto simp: detached_upto_def mapped_def)
      then have "locked_pages E u det = locked_pages E s det" by (intro locked_pages_cong o5) auto
      then show ?thesis by (simp add: l1 det1 l locked_pages_append)
    qed
    have ie: "i < ?e" using pi(2) i e by simp
    have last: "entry_at ?M u (?e - 1) = Some p"
      using y(2) y(3) [of "?e - 1"] le_below_end [OF y(2), of "?e - 1"] le_below_end [OF y(2), of "vm_start (vma_at u p)"]
      by simp
    have gt: "k = ?e - 1 \<or> ?e - 1 < k" if "?e \<le> k" for k
      using le_below_end [OF y(2), of k] that by (auto simp: not_le [symmetric])
    have np: "entry_at ?M u k \<noteq> Some p" if "?e \<le> k" for k using y(3) [of k] that by auto
    have f0: "0 < fin" using i by (meson le_less_trans word_zero_le)
    obtain nx j where n: "mas_next ?M (tree u) (?e - 1) (fin - 1) = (nx, j)" by fastforce
    show ?thesis
    proof (cases nx)
      case None
      then have ru: "r = Inr l1" "det' = det1" "t = u"
        using r one Inr n by (simp_all add: detach_loop.simps [of E])
      have "entry_at ?M u k = None" if "?e \<le> k" "k < fin" for k
      proof -
        have "entry_at ?M u k = None \<or> entry_at ?M u k = entry_at ?M u (?e - 1)"
          using gt [OF that(1)] next_None(2) [OF M n [unfolded None], of k] that(2) le_minus_one64 [OF f0, of k] by auto
        then show ?thesis using np [OF that(1)] last by auto
      qed
      then have "detached_upto E u start det1 fin"
        using detached_upto_mono [OF sn(1) ef] det1 by blast
      then show ?thesis using ru o(1-3) lp by simp
    next
      case (Some q)
      note q = next_Some [OF M n [unfolded Some]]
      have ij: "i < j" using ie q(1) le_below_end [OF y(2), of i] by simp
      then have r': "detach_loop E start fin uf j q det1 l1 u = (r, det', t)"
        using r one Inr n Some by (simp add: detach_loop.simps [of E _ _ _ i])
      have jf: "j < fin" using q(2) le_minus_one64 [OF f0, of j] by simp
      note z = mm_wfD [OF wf' q(3)]
      have zj: "vm_start (vma_at u q) \<le> j" "j < vm_end (vma_at u q)" using z(3) [of j] q(3) by auto
      have qp: "q \<noteq> p" using q(4) last by auto
      have eq: "?e \<le> vm_start (vma_at u q)"
      proof (rule ccontr)
        assume "\<not> ?e \<le> vm_start (vma_at u q)"
        then have "vm_start (vma_at u q) \<le> ?e - 1" using le_below_end [OF y(2)] by simp
        moreover have "?e - 1 < vm_end (vma_at u q)" using q(1) zj(2) by (rule less_trans)
        ultimately have "entry_at ?M u (?e - 1) = Some q" using z(3) by blast
        with last qp show False by simp
      qed
      have "entry_at ?M u k = None" if "?e \<le> k" "k < vm_start (vma_at u q)" for k
      proof -
        have "entry_at ?M u k = None \<or> entry_at ?M u k = entry_at ?M u (?e - 1)"
          using gt [OF that(1)] q(5) [of k] less_le_trans [OF that(2) zj(1)] by auto
        then show ?thesis using np [OF that(1)] last by auto
      qed
      then have dq: "detached_upto E u start det1 (vm_start (vma_at u q))"
        using detached_upto_mono [OF sn(1) eq] det1 by blast
      have sq: "start \<le> vm_start (vma_at u q)" using st b y(2) eq by simp
      note ih = 1(1) [OF one [symmetric] Inr refl n [symmetric] Some ij E fin r' o(1) q(3) sq jf dq lp]
      with o(2,3) show ?thesis by auto
    qed
  qed
qed

section \<open>Freeing the detached mappings\<close>

definition pages_of :: "('t, 'a) mm_env_scheme \<Rightarrow> 't mm_state \<Rightarrow> vptr list \<Rightarrow> u64" where
  "pages_of E s ps = (\<Sum>p\<leftarrow>ps. vma_pages E (vma_at s p))"

lemma pages_of_cong:
  "(\<And>p. p \<in> set ps \<Longrightarrow> vma_at t p = vma_at s p) \<Longrightarrow> pages_of E t ps = pages_of E s ps"
  unfolding pages_of_def by (rule arg_cong [of _ _ sum_list], rule map_cong) simp_all

text \<open>The fields of the \<open>mm_struct\<close> that the statistics leave alone.\<close>

definition layout :: "'t mm_struct \<Rightarrow> 't \<times> int \<times> u64 list" where
  "layout m = (mm_mt m, map_count m, [locked_vm m, start_brk m, brk m, start_data m, end_data m, def_flags m, mmap_base m])"

lemma remove_vma_state [simp]:
  "vmas (remove_vma p b s) = (vmas s)(p := None)" "cur_mm (remove_vma p b s) = cur_mm s"
  by (simp_all add: remove_vma_def vm_area_free_def Let_def split: option.split)

lemma vm_stat_account_state [simp]:
  "vmas (vm_stat_account E f n s) = vmas s" "layout (cur_mm (vm_stat_account E f n s)) = layout (cur_mm s)"
  "total_vm (cur_mm (vm_stat_account E f n s)) = total_vm (cur_mm s) + n"
  by (simp_all add: vm_stat_account_def layout_def Let_def)

lemma remove_fold:
  assumes "fold (remove_one E) ps (n, s) = (n', t)" "distinct ps"
  shows "vmas t = (\<lambda>p. if p \<in> set ps then None else vmas s p) \<and> layout (cur_mm t) = layout (cur_mm s) \<and>
    total_vm (cur_mm t) = total_vm (cur_mm s) - pages_of E s ps"
  using assms
proof (induction ps arbitrary: n s)
  case Nil
  then show ?case by (simp add: pages_of_def)
next
  case (Cons p ps)
  obtain m u where u: "remove_one E p (n, s) = (m, u)" by fastforce
  then have us: "vmas u = (vmas s)(p := None)" "layout (cur_mm u) = layout (cur_mm s)"
    "total_vm (cur_mm u) = total_vm (cur_mm s) - vma_pages E (vma_at s p)"
    by (auto simp: remove_one_def Let_def)
  have "pages_of E u ps = pages_of E s ps"
    using Cons.prems(2) us(1) by (intro pages_of_cong) (auto simp: vma_at_def)
  with Cons.IH [of m u] Cons.prems u us show ?case
    by (auto simp: pages_of_def fun_eq_iff)
qed

lemma remove_mt_state:
  assumes "distinct ps"
  shows "vmas (remove_mt E ps s) = (\<lambda>p. if p \<in> set ps then None else vmas s p)"
    "layout (cur_mm (remove_mt E ps s)) = layout (cur_mm s)"
    "total_vm (cur_mm (remove_mt E ps s)) = total_vm (cur_mm s) - pages_of E s ps"
  using remove_fold [of E ps 0 s, OF prod.collapse [symmetric] assms]
  by (auto simp: remove_mt_def split: prod.split)

lemma munmap_finish_state:
  assumes "distinct det"
  shows "vmas (munmap_finish E start fin unlock det locked s) = (\<lambda>p. if p \<in> set det then None else vmas s p)"
    "layout (cur_mm (munmap_finish E start fin unlock det locked s)) =
       layout ((cur_mm s)\<lparr>locked_vm := locked_vm (cur_mm s) - locked, map_count := map_count (cur_mm s) - int (length det)\<rparr>)"
    "total_vm (cur_mm (munmap_finish E start fin unlock det locked s)) = total_vm (cur_mm s) - pages_of E s det"
proof -
  let ?m = "(cur_mm s)\<lparr>locked_vm := locked_vm (cur_mm s) - locked, map_count := map_count (cur_mm s) - int (length det)\<rparr>"
  define w where "w = add_map_count (- int (length det)) (upd_mm (\<lambda>mm. mm\<lparr>locked_vm := locked_vm mm - locked\<rparr>) s)"
  define w' where "w' = (if unlock then emit Mmap_downgrade w else w)"
  define v where "v = unmap_region E (fst (mas_prev (index E) (tree w') start 0))
      (fst (mas_next (index E) (tree w') (fin - 1) ULONG_MAX)) start fin (\<not> unlock) w'"
  have f: "same_mm (munmap_finish E start fin unlock det locked s) (remove_mt E det v)"
    unfolding munmap_finish_def Let_def v_def w'_def w_def [symmetric] by simp
  have "vmas v = vmas w'" "cur_mm v = cur_mm w'" by (simp_all add: v_def unmap_region_def emits_def)
  then have v: "vmas v = vmas s" "cur_mm v = ?m"
    by (simp_all add: w'_def w_def add_map_count_def)
  have "pages_of E v det = pages_of E s det" using v(1) by (intro pages_of_cong) (simp add: vma_at_def)
  then show "vmas (munmap_finish E start fin unlock det locked s) = (\<lambda>p. if p \<in> set det then None else vmas s p)"
    "layout (cur_mm (munmap_finish E start fin unlock det locked s)) = layout ?m"
    "total_vm (cur_mm (munmap_finish E start fin unlock det locked s)) = total_vm (cur_mm s) - pages_of E s det"
    using remove_mt_state [OF assms, of E v, unfolded v] same_mmD [OF f] by simp_all
qed

section \<open>What unmapping does\<close>

lemma view_mapped: "view E s x = None \<longleftrightarrow> entry_at (index E) s x = None"
  by (simp add: view_def)

lemma count_pages_view:
  assumes E: "env_ok E" and ok: "mm_ok E s" "mm_ok E t" and v: "view E t = view E s"
    and ab: "4096 dvd unat a" "4096 dvd unat b" "a < b"
  shows "count_vma_pages_range E t a b = count_vma_pages_range E s a b"
proof -
  have b: "a \<le> b" "0 < b" using ab(3) by (auto intro: le_less_trans [OF word_zero_le])
  have e: "entry_at (index E) t x \<noteq> None \<longleftrightarrow> entry_at (index E) s x \<noteq> None" for x
    using fun_cong [OF v, of x] view_mapped [of E t x] view_mapped [of E s x] by simp
  have "4096 * unat (count_vma_pages_range E t a b) = card {x. a \<le> x \<and> x < b \<and> entry_at (index E) t x \<noteq> None}"
    by (rule count_bytes [OF E mm_ok_wf [OF ok(2)] mm_ok_aligned [OF ok(2)] ab(1,2) b, symmetric])
  also have "\<dots> = card {x. a \<le> x \<and> x < b \<and> entry_at (index E) s x \<noteq> None}" by (simp only: e)
  also have "\<dots> = 4096 * unat (count_vma_pages_range E s a b)"
    by (rule count_bytes [OF E mm_ok_wf [OF ok(1)] mm_ok_aligned [OF ok(1)] ab(1,2) b])
  finally show ?thesis by (simp add: word_unat_eq_iff)
qed

lemma pages_of_detached:
  assumes E: "env_ok E" and ok: "mm_ok E s" and d: "detached_upto E s start det fin" and ab: "start < fin"
  shows "pages_of E s det = count_vma_pages_range E s start fin"
proof -
  let ?W = "walk (index E) (tree s) start (fin - 1)"
  let ?f = "\<lambda>p. drop_bit (PAGE_SHIFT E) (min fin (vm_end (vma_at s p)) - max start (vm_start (vma_at s p)))"
  note w = walk_spec [OF env_maple [OF E] mm_wf_convex [OF mm_ok_wf [OF ok]], of start "fin - 1"]
  have W: "set ?W = set det" "distinct ?W"
    using w d le_below_end [OF ab] by (auto simp: detached_upto_def intro: sorted_wrt_distinct)
  have "vma_pages E (vma_at s p) = ?f p" if "p \<in> set det" for p
  proof -
    have "start \<le> vm_start (vma_at s p)" "vm_end (vma_at s p) \<le> fin"
      using d that by (auto simp: detached_upto_def)
    then show ?thesis by (simp add: env_pages [OF E] env_hdr [OF E] hdr_simps min_def max_def)
  qed
  then have "pages_of E s det = sum ?f (set det)"
    using d by (simp add: pages_of_def detached_upto_def sum_list_distinct_conv_sum_set)
  also have "\<dots> = count_vma_pages_range E s start fin"
    using W by (simp add: count_eq_sum sum_list_distinct_conv_sum_set)
  finally show ?thesis .
qed

lemma split_start_spec:
  assumes E: "env_ok E" and ok: "mm_ok E s" and al: "4096 dvd unat start" and se: "start < fin"
    and f: "find_law (entry_at (index E) s) start (fin - 1) (Some vma)"
    and r: "munmap_split_start E vma start fin s = (r, t)"
  shows "mm_ok E t \<and> view E t = view E s \<and> same_counters s t \<and>
    (r = Inr () \<longrightarrow> start \<le> vm_start (vma_at t vma) \<and> vm_start (vma_at t vma) < fin \<and>
       entry_at (index E) t (vm_start (vma_at t vma)) = Some vma \<and>
       detached_upto E t start [] (vm_start (vma_at t vma)))"
proof -
  let ?M = "index E"
  note wf = mm_ok_wf [OF ok]
  obtain i where i: "start \<le> i" "i < fin" "entry_at ?M s i = Some vma"
    and free: "\<And>k. start \<le> k \<Longrightarrow> k < i \<Longrightarrow> entry_at ?M s k = None"
    using f le_below_end [OF se] by (auto simp: find_law_def)
  note x = mm_wfD [OF wf i(3)]
  have vm: "vma \<in> mapped ?M s" using i(3) by (auto simp: mapped_def)
  have xi: "vm_start (vma_at s vma) \<le> i" "i < vm_end (vma_at s vma)" using x(3) [of i] i(3) by auto
  show ?thesis
  proof (cases "vm_start (vma_at s vma) < start")
    case False
    then have t: "t = s" "r = Inr ()" using r by (simp_all add: munmap_split_start_def)
    have "detached_upto E s start [] (vm_start (vma_at s vma))"
      using free xi(1) unfolding detached_upto_def by (auto dest: less_le_trans)
    then show ?thesis using t ok False xi i(2) x(2) x(3) [of "vm_start (vma_at s vma)"] by auto
  next
    case True
    show ?thesis
    proof (cases r)
      case (Inl e)
      have "same_mm t s" using r split_nocheck_fail [OF E] Inl True
        by (auto simp: munmap_split_start_def split: if_splits)
      then show ?thesis using ok Inl mm_ok_same [of t s E] view_same [of t s E] by (auto simp: same_mm_def)
    next
      case (Inr y)
      then have sp: "split_vma_nocheck E vma start True s = (Inr (), t)"
        using r True by (auto simp: munmap_split_start_def split: if_splits)
      have lt: "start < vm_end (vma_at s vma)" using i(1) xi(2) by simp
      note o = split_nocheck_ok [OF E ok vm True lt al sp]
      have v: "vm_start (vma_at t vma) = start" "vm_end (vma_at t vma) = vm_end (vma_at s vma)"
        using o(4) by (simp_all add: split_rest_def)
      have "vma \<in> mapped ?M t" using o(3) vm by auto
      then have "entry_at ?M t start = Some vma"
        using mapped_extent(3) [OF mm_ok_wf [OF o(1)], of vma start] v lt by simp
      moreover have "detached_upto E t start [] start" by (auto simp: detached_upto_def)
      ultimately show ?thesis using o(1,2,6) v se by auto
    qed
  qed
qed

lemma detach_undo_same [simp]: "same_mm (detach_undo d s) t \<longleftrightarrow> same_mm s t"
  by (simp add: detach_undo_def)

lemma align_munmap_spec:
  assumes E: "env_ok E" and ok: "mm_ok E s" and al: "4096 dvd unat start" "4096 dvd unat fin" and se: "start < fin"
    and f: "find_law (entry_at (index E) s) start (fin - 1) (Some vma)"
    and r: "do_vmi_align_munmap E vma start fin uf unlock s = (r, t)"
  shows "mm_ok E t \<and>
    (case r of
       Inl e \<Rightarrow> view E t = view E s \<and> same_counters s t
     | Inr _ \<Rightarrow> view E t = (\<lambda>x. if start \<le> x \<and> x < fin then None else view E s x) \<and>
         total_vm (cur_mm t) = total_vm (cur_mm s) - count_vma_pages_range E s start fin \<and>
         start_brk (cur_mm t) = start_brk (cur_mm s) \<and> brk (cur_mm t) = brk (cur_mm s) \<and>
         def_flags (cur_mm t) = def_flags (cur_mm s) \<and> mmap_base (cur_mm t) = mmap_base (cur_mm s))"
proof -
  let ?M = "index E"
  obtain r1 u where u: "munmap_split_start E vma start fin s = (r1, u)" by fastforce
  note a = split_start_spec [OF E ok al(1) se f u]
  show ?thesis
  proof (cases r1)
    case (Inl e)
    then have "r = Inl e" "t = u" using r u by (simp_all add: do_vmi_align_munmap_def)
    with a show ?thesis by simp
  next
    case (Inr y)
    then have b: "start \<le> vm_start (vma_at u vma)" "vm_start (vma_at u vma) < fin"
       "entry_at ?M u (vm_start (vma_at u vma)) = Some vma" "detached_upto E u start [] (vm_start (vma_at u vma))"
      and oku: "mm_ok E u"
      using a by auto
    obtain r2 det w where w: "detach_loop E start fin uf (vm_start (vma_at u vma)) vma [] 0 u = (r2, det, w)"
      by (metis prod_cases3)
    have mx: "max start (vm_start (vma_at u vma)) = vm_start (vma_at u vma)" using b(1) by (simp add: max_def)
    have "0 = locked_pages E u []" by (simp add: locked_pages_def)
    note c = detach_loop_spec [OF E al(2) w oku b(3,1,2,4) this]
    show ?thesis
    proof (cases "r2")
      case (Inl e)
      then have "r = Inl e" "t = detach_undo det w" using r u \<open>r1 = Inr y\<close> w mx by (simp_all add: do_vmi_align_munmap_def)
      moreover have "same_mm (detach_undo det w) w" by simp
      ultimately show ?thesis
        using a c mm_ok_same [of t w E] view_same [of t w E] by (auto simp: same_mm_def)
    next
      case r2: (Inr locked)
      show ?thesis
      proof (cases "clear_fails E w")
        case (Some e)
        then have "r = Inl e" "t = detach_undo det w"
          using r u \<open>r1 = Inr y\<close> w mx r2 by (simp_all add: do_vmi_align_munmap_def)
        moreover have "same_mm (detach_undo det w) w" by simp
        ultimately show ?thesis
          using a c mm_ok_same [of t w E] view_same [of t w E] by (auto simp: same_mm_def)
      next
        case None
        then have rt: "r = Inr ()" "t = munmap_finish E start fin unlock det locked (vma_iter_clear E start fin w)"
          using r u \<open>r1 = Inr y\<close> w mx r2 by (simp_all add: do_vmi_align_munmap_def)
        have okw: "mm_ok E w" and vw: "view E w = view E s" and cw: "same_counters s w"
          and d: "detached_upto E w start det fin"
          using a c r2 by auto
        have dd: "distinct det" and ds: "set det = {q. \<exists>k. start \<le> k \<and> k < fin \<and> entry_at ?M w k = Some q}"
          and db: "\<And>q. q \<in> set det \<Longrightarrow> start \<le> vm_start (vma_at w q) \<and> vm_end (vma_at w q) \<le> fin"
          using d by (auto simp: detached_upto_def)
        define z where "z = vma_iter_clear E start fin w"
        have z: "vmas z = vmas w" "cur_mm z = (cur_mm w)\<lparr>mm_mt := mt_store ?M (tree w) start (fin - 1) None\<rparr>"
          by (simp_all add: z_def vma_iter_clear_def)
        note m = munmap_finish_state [OF dd, of E start fin unlock locked z, folded rt(2) [folded z_def]]
        have lay: "tree t = mt_store ?M (tree w) start (fin - 1) None"
          "map_count (cur_mm t) = map_count (cur_mm w) - int (length det)"
          "start_brk (cur_mm t) = start_brk (cur_mm w)" "brk (cur_mm t) = brk (cur_mm w)"
          "def_flags (cur_mm t) = def_flags (cur_mm w)" "mmap_base (cur_mm t) = mmap_base (cur_mm w)"
          using m(2) by (simp_all add: layout_def z)
        have e: "entry_at ?M t k = (if start \<le> k \<and> k < fin then None else entry_at ?M w k)" for k
          by (simp add: lay maple_store [OF env_maple [OF E]] le_below_end [OF se])
        have R: "set det \<subseteq> mapped ?M w" using ds by (auto simp: mapped_def)
        have hit: "start \<le> k \<and> k < fin \<longleftrightarrow> q \<in> set det" if "entry_at ?M w k = Some q" for k q
          using that ds db [of q] mm_wfD(3) [OF mm_ok_wf [OF okw] that, of k] by (auto intro: order_trans less_le_trans)
        have oth: "vmas t q = vmas w q" if "q \<notin> set det" for q using m(1) that z(1) by simp
        have cnt: "map_count (cur_mm t) = map_count (cur_mm w) - int (card (set det))"
          using lay(2) distinct_card [OF dd] by simp
        note cl = clears_ok [OF okw e R hit oth cnt]
        have "pages_of E z det = pages_of E w det" by (intro pages_of_cong) (simp add: vma_at_def z)
        then have "total_vm (cur_mm t) = total_vm (cur_mm s) - count_vma_pages_range E s start fin"
          using m(3) pages_of_detached [OF E okw d se] count_pages_view [OF E ok okw vw al se] cw
          by (simp add: z counters_def)
        then show ?thesis
          using cl(1,3) vw lay cw rt(1) by (auto simp: counters_def fun_eq_iff)
      qed
    qed
  qed
qed

text \<open>
  What the callers rely on besides \<open>env_ok\<close>: the architecture's hook does nothing to the
  mappings (it is empty on x86), and the address space ends on a page boundary.
\<close>

definition unmap_env_ok :: "('t, 'a) unmap_env_scheme \<Rightarrow> bool" where
  "unmap_env_ok E \<longleftrightarrow>
     env_ok E \<and> (\<forall>a b s. arch_unmap E a b s = s) \<and> 4096 dvd unat (cst E TASK_SIZE)"

lemma unmap_range:
  assumes E: "unmap_env_ok E" and o: "offset_in_page E start = 0" "start \<le> cst E TASK_SIZE"
      "len \<le> cst E TASK_SIZE - start" and ne: "start + PAGE_ALIGN E len \<noteq> start"
  shows "4096 dvd unat start" "4096 dvd unat (start + PAGE_ALIGN E len)" "start < start + PAGE_ALIGN E len"
    "start + PAGE_ALIGN E len \<le> cst E TASK_SIZE"
    "unat (start + PAGE_ALIGN E len) = unat start + unat (PAGE_ALIGN E len)"
proof -
  have H: "hdr_ok E" and T: "4096 dvd unat (cst E TASK_SIZE)" using E by (auto simp: unmap_env_ok_def env_hdr)
  show s: "4096 dvd unat start"
    using o(1) by (simp add: hdr_simps [OF H] dvd_eq_mod_eq_0 flip: unat_and_4095)
  let ?T = "unat (cst E TASK_SIZE)" and ?l = "unat len"
  have l: "?l \<le> ?T - unat start" "unat start \<le> ?T" using o(2,3) by (simp_all add: word_le_nat_alt unat_sub)
  obtain q where q: "?T = 4096 * q" using T by (elim dvdE)
  have "4096 * q < 4096 * 2 ^ 52" using unat_bound64 [of "cst E TASK_SIZE"] q by simp
  then have "q < 2 ^ 52" by (simp only: mult_less_cancel1)
  then have tb: "?T + 4095 < 2 ^ 64" using q by simp
  then have pa: "unat (PAGE_ALIGN E len) = (?l + 4095) div 4096 * 4096"
    using l by (intro PAGE_ALIGN_unat [OF H]) linarith
  obtain b where b: "unat start = 4096 * b" using s by (elim dvdE)
  have "(?l + 4095) div 4096 \<le> q - b" using l q b by linarith
  then have le: "unat start + unat (PAGE_ALIGN E len) \<le> ?T" using pa q b l(2) by linarith
  then have u: "unat (start + PAGE_ALIGN E len) = unat start + unat (PAGE_ALIGN E len)"
    using unat_bound64 [of "cst E TASK_SIZE"] by (intro unat_add_nowrap) linarith
  then show "unat (start + PAGE_ALIGN E len) = unat start + unat (PAGE_ALIGN E len)" .
  show "4096 dvd unat (start + PAGE_ALIGN E len)" unfolding u b pa by simp
  show "start + PAGE_ALIGN E len \<le> cst E TASK_SIZE" using le u by (simp add: word_le_nat_alt)
  have "0 < unat (PAGE_ALIGN E len)" using ne by (simp add: unat_gt_0)
  then show "start < start + PAGE_ALIGN E len" unfolding word_less_nat_alt u by linarith
qed

lemma count_pages_none:
  assumes E: "env_ok E" and ok: "mm_ok E s" and ab: "4096 dvd unat a" "4096 dvd unat b" "a < b"
    and free: "\<And>k. a \<le> k \<Longrightarrow> k < b \<Longrightarrow> entry_at (index E) s k = None"
  shows "count_vma_pages_range E s a b = 0"
proof -
  have b: "a \<le> b" "0 < b" using ab(3) by (auto intro: le_less_trans [OF word_zero_le])
  have none: "{x. a \<le> x \<and> x < b \<and> entry_at (index E) s x \<noteq> None} = {}" using free by auto
  have "4096 * unat (count_vma_pages_range E s a b) = 0"
    using count_bytes [OF E mm_ok_wf [OF ok] mm_ok_aligned [OF ok] ab(1,2) b] unfolding none by simp
  then have "unat (count_vma_pages_range E s a b) = 0" by simp
  then show ?thesis by (rule unat_eq_zero [THEN iffD1])
qed

text \<open>The part of the state that unmapping a range does not touch, and what it subtracts.\<close>

definition unmapped_from ::
  "('t, 'a) mm_env_scheme \<Rightarrow> u64 \<Rightarrow> u64 \<Rightarrow> 't mm_state \<Rightarrow> 't mm_state \<Rightarrow> bool" where
  "unmapped_from E start fin s t \<longleftrightarrow>
     view E t = (\<lambda>x. if start \<le> x \<and> x < fin then None else view E s x) \<and>
     total_vm (cur_mm t) = total_vm (cur_mm s) - count_vma_pages_range E s start fin \<and>
     start_brk (cur_mm t) = start_brk (cur_mm s) \<and> brk (cur_mm t) = brk (cur_mm s) \<and>
     def_flags (cur_mm t) = def_flags (cur_mm s) \<and> mmap_base (cur_mm t) = mmap_base (cur_mm s)"

lemma do_vmi_munmap_spec:
  assumes E: "unmap_env_ok E" and ok: "mm_ok E s" and r: "do_vmi_munmap E start len uf unlock s = (r, t)"
  shows "mm_ok E t \<and>
    (case r of
       Inl e \<Rightarrow> view E t = view E s \<and> same_counters s t
     | Inr _ \<Rightarrow> unmapped_from E start (start + PAGE_ALIGN E len) s t)"
proof (cases "offset_in_page E start \<noteq> 0 \<or> cst E TASK_SIZE < start \<or> cst E TASK_SIZE - start < len \<or>
    start + PAGE_ALIGN E len = start")
  case True
  then have "r = Inl EINVAL" "t = s" using r by (auto simp: do_vmi_munmap_def split: if_splits)
  with ok show ?thesis by simp
next
  case False
  let ?fin = "start + PAGE_ALIGN E len"
  have e: "env_ok E" and a: "arch_unmap E start ?fin s = s" using E by (auto simp: unmap_env_ok_def)
  note rg = unmap_range [OF E, of start len]
  have al: "4096 dvd unat start" "4096 dvd unat ?fin" "start < ?fin" using rg False by auto
  have r': "(case mt_find (index E) (tree s) start (?fin - 1) of
             None \<Rightarrow> (Inr (), if unlock then emit (Unlock Mmap_write_lock) s else s)
           | Some vma \<Rightarrow> do_vmi_align_munmap E vma start ?fin uf unlock s) = (r, t)"
    using r False a by (auto simp: do_vmi_munmap_def Let_def)
  note f = maple_find [OF env_maple [OF e], of "tree s" start "?fin - 1"]
  show ?thesis
  proof (cases "mt_find (index E) (tree s) start (?fin - 1)")
    case (Some vma)
    then have "do_vmi_align_munmap E vma start ?fin uf unlock s = (r, t)" using r' by simp
    from align_munmap_spec [OF e ok al f [unfolded Some] this]
    show ?thesis by (simp add: unmapped_from_def split: sum.splits)
  next
    case None
    then have free: "entry_at (index E) s k = None" if "start \<le> k" "k < ?fin" for k
      using f that le_below_end [OF al(3), of k] by (simp add: find_law_def)
    have t: "r = Inr ()" "same_mm t s" using r' None by auto
    have "view E s = (\<lambda>x. if start \<le> x \<and> x < ?fin then None else view E s x)"
      using free by (auto simp: fun_eq_iff view_def)
    then show ?thesis
      using t ok mm_ok_same [OF t(2), of E] view_same [OF t(2), of E] same_mmD(2) [OF t(2)]
        count_pages_none [OF e ok al free]
      by (simp add: unmapped_from_def)
  qed
qed

section \<open>Accounting\<close>

text \<open>\<open>total_vm\<close> is the number of mapped pages.\<close>

definition total_ok :: "('t, 'a) mm_env_scheme \<Rightarrow> 't mm_state \<Rightarrow> bool" where
  "total_ok E s \<longleftrightarrow> 4096 * unat (total_vm (cur_mm s)) = card {x. view E s x \<noteq> None}"

lemma count_view:
  assumes E: "env_ok E" and ok: "mm_ok E s" and ab: "4096 dvd unat a" "4096 dvd unat b" "a < b"
  shows "card {x. a \<le> x \<and> x < b \<and> view E s x \<noteq> None} = 4096 * unat (count_vma_pages_range E s a b)"
proof -
  have b: "a \<le> b" "0 < b" using ab(3) by (auto intro: le_less_trans [OF word_zero_le])
  show ?thesis
    using count_bytes [OF E mm_ok_wf [OF ok] mm_ok_aligned [OF ok] ab(1,2) b] by (simp add: view_mapped)
qed

lemma unmapped_from_total:
  assumes E: "env_ok E" and ok: "mm_ok E s" and tot: "total_ok E s"
    and ab: "4096 dvd unat a" "4096 dvd unat b" "a < b" and u: "unmapped_from E a b s t"
  shows "total_ok E t"
proof -
  let ?A = "{x. view E s x \<noteq> None}" and ?R = "{x. a \<le> x \<and> x < b \<and> view E s x \<noteq> None}"
  let ?n = "count_vma_pages_range E s a b"
  have R: "card ?R = 4096 * unat ?n" by (rule count_view [OF E ok ab])
  have sub: "?R \<subseteq> ?A" "finite ?A" by auto
  have vt: "view E t x = (if a \<le> x \<and> x < b then None else view E s x)" for x
    using u by (simp add: unmapped_from_def)
  have "{x. view E t x \<noteq> None} = ?A - ?R" by (auto simp: vt split: if_splits)
  moreover have "card (?A - ?R) = card ?A - card ?R" using sub by (intro card_Diff_subset) (auto intro: finite_subset)
  moreover have le: "card ?R \<le> card ?A" using sub by (intro card_mono)
  ultimately have "card {x. view E t x \<noteq> None} = 4096 * unat (total_vm (cur_mm s)) - 4096 * unat ?n"
    using tot R by (simp add: total_ok_def)
  moreover have "unat ?n \<le> unat (total_vm (cur_mm s))" using le R tot by (simp add: total_ok_def)
  then have "unat (total_vm (cur_mm t)) = unat (total_vm (cur_mm s)) - unat ?n"
    using u by (simp add: unmapped_from_def unat_sub word_le_nat_alt)
  ultimately show ?thesis by (simp add: total_ok_def diff_mult_distrib2)
qed

section \<open>Locks\<close>

lemma detach_one_locks:
  assumes h: "only_mm_locks h" and t: "lock_step h s h t" and r: "detach_one E start fin uf p det l t = (r, det', u)"
  shows "lock_step h s h u"
proof -
  obtain x w where x: "(if fin < vm_end (vma_at t p) then split_vma_nocheck E p fin False t else (Inr (), t)) = (x, w)"
    by fastforce
  have "lock_step h t h w"
    using x split_vma_nocheck_locks [OF h] by (auto intro: lock_step_refl split: if_splits)
  with t have "lock_step h s h w" by (rule lock_step_trans)
  with r x show ?thesis
    unfolding detach_one_def Let_def by (auto split: sum.splits option.splits if_splits)
qed

lemma detach_loop_locks:
  assumes "only_mm_locks h" "lock_step h s h t" "detach_loop E start fin uf i p det l t = (r, det', u)"
  shows "lock_step h s h u"
  using assms
proof (induction E start fin uf i p det l t rule: detach_loop.induct)
  case (1 E start fin uf i p det locked t)
  obtain r1 det1 w where one: "detach_one E start fin uf p det locked t = (r1, det1, w)" by (metis prod_cases3)
  note w = detach_one_locks [OF 1(2,3) one]
  obtain nx j where n: "mas_next (index E) (tree w) (vm_end (vma_at w p) - 1) (fin - 1) = (nx, j)" by fastforce
  show ?case
  proof (cases "\<exists>l1 q. r1 = Inr l1 \<and> nx = Some q \<and> i < j")
    case True
    then obtain l1 q where q: "r1 = Inr l1" "nx = Some q" "i < j" by blast
    then have "detach_loop E start fin uf j q det1 l1 w = (r, det', u)"
      using 1(4) one n by (simp add: detach_loop.simps [of E _ _ _ i])
    from 1(1) [OF one [symmetric] q(1) refl n [symmetric] q(2,3) 1(2) w this] show ?thesis .
  next
    case False
    then have "u = w" using 1(4) one n by (cases r1; cases nx) (auto simp: detach_loop.simps [of E _ _ _ i])
    with w show ?thesis by simp
  qed
qed

lemma lock_step_events:
  "lock_step h s h' t \<Longrightarrow> lock_run h' es = Some h'' \<Longrightarrow> trace u = trace t @ es \<Longrightarrow> lock_step h s h'' u"
  by (auto simp: lock_step_def lock_run_append)

lemma remove_vma_locks: "lock_step h s h' t \<Longrightarrow> lock_step h s h' (remove_vma p b t)"
  by (auto simp: remove_vma_def Let_def split: option.split intro!: lock_step_free)

lemma vm_stat_account_trace [simp]: "trace (vm_stat_account E f n s) = trace s"
  by (simp add: vm_stat_account_def)

lemma remove_mt_locks:
  assumes "lock_step h s h' t"
  shows "lock_step h s h' (remove_mt E ps t)"
proof -
  have "lock_step h s h' u" if "fold (remove_one E) ps (n, w) = (m, u)" "lock_step h s h' w" for n m w u
    using that
  proof (induction ps arbitrary: n w)
    case (Cons p ps)
    obtain k v where v: "remove_one E p (n, w) = (k, v)" by fastforce
    have "lock_step h s h' v"
      using v Cons.prems(2) by (auto simp: remove_one_def Let_def intro!: remove_vma_locks elim: lock_step_state)
    with Cons.IH [of k v] Cons.prems(1) v show ?case by simp
  qed simp
  with assms show ?thesis by (auto simp: remove_mt_def split: prod.split)
qed

lemma munmap_finish_locks:
  assumes "lock_step h s [Mmap_write_lock] t"
  shows "lock_step h s (if unlock then [] else [Mmap_write_lock]) (munmap_finish E start fin unlock det l t)"
proof -
  define w where "w = add_map_count (- int (length det)) (upd_mm (\<lambda>mm. mm\<lparr>locked_vm := locked_vm mm - l\<rparr>) t)"
  define w' where "w' = (if unlock then emit Mmap_downgrade w else w)"
  define v where "v = unmap_region E (fst (mas_prev (index E) (tree w') start 0))
      (fst (mas_next (index E) (tree w') (fin - 1) ULONG_MAX)) start fin (\<not> unlock) w'"
  have f: "munmap_finish E start fin unlock det l t =
      (if unlock then emit (Unlock Mmap_read_lock) (remove_mt E det v) else remove_mt E det v)"
    unfolding munmap_finish_def Let_def v_def w'_def w_def [symmetric] by simp
  let ?h = "if unlock then [Mmap_read_lock] else [Mmap_write_lock]"
  have "lock_step h s ?h w'"
    by (rule lock_step_events [OF assms, of "if unlock then [Mmap_downgrade] else []"]) (simp_all add: w'_def w_def)
  then have "lock_step h s ?h v" unfolding v_def unmap_region_def by (rule lock_step_emits) auto
  then have "lock_step h s ?h (remove_mt E det v)" by (rule remove_mt_locks)
  then show ?thesis unfolding f by (cases unlock) (simp_all add: lock_step_emit(3))
qed

lemma do_vmi_align_munmap_locks:
  assumes t: "lock_step h s [Mmap_write_lock] t" and r: "do_vmi_align_munmap E vma start fin uf unlock t = (r, u)"
  shows "lock_step h s (if unlock \<and> r = Inr () then [] else [Mmap_write_lock]) u"
proof -
  let ?h = "[Mmap_write_lock]"
  have h: "only_mm_locks ?h" by (simp add: only_mm_locks_def)
  obtain r1 v where v: "munmap_split_start E vma start fin t = (r1, v)" by fastforce
  have "lock_step ?h t ?h v"
    using v split_vma_nocheck_locks [OF h] by (auto simp: munmap_split_start_def intro: lock_step_refl split: if_splits)
  with t have lv: "lock_step h s ?h v" by (rule lock_step_trans)
  obtain r2 det w where w: "detach_loop E start fin uf (max start (vm_start (vma_at v vma))) vma [] 0 v = (r2, det, w)"
    by (metis prod_cases3)
  have "lock_step ?h v ?h w" by (rule detach_loop_locks [OF h lock_step_refl w]) simp
  with lv have lw: "lock_step h s ?h w" by (rule lock_step_trans)
  have un: "lock_step h s ?h (detach_undo det w)"
    unfolding detach_undo_def by (rule lock_step_emits [OF lw]) auto
  have cl: "lock_step h s ?h (vma_iter_clear E start fin w)" using lw by (simp add: lock_step_same_trace)
  show ?thesis
    using r v w lv un munmap_finish_locks [OF cl, of unlock E start fin det]
    by (cases unlock) (auto simp: do_vmi_align_munmap_def split: sum.splits option.splits)
qed

lemma do_vmi_munmap_locks:
  assumes a: "\<And>a b s. arch_unmap E a b s = s" and t: "lock_step h s [Mmap_write_lock] t"
    and r: "do_vmi_munmap E start len uf unlock t = (r, u)"
  shows "lock_step h s (if unlock \<and> r = Inr () then [] else [Mmap_write_lock]) u"
proof -
  have un: "lock_step h s [] (emit (Unlock Mmap_write_lock) t)" by (rule lock_step_emit(3) [OF t])
  show ?thesis
    using r t un
    by (cases unlock) (auto simp: do_vmi_munmap_def Let_def a split: if_splits option.splits
        dest!: do_vmi_align_munmap_locks [OF t])
qed

section \<open>The system call\<close>

lemma vm_munmap_unlock_spec:
  assumes E: "unmap_env_ok E" and ok: "mm_ok E s" and r: "vm_munmap_unlock E start len unlock s = (r, t)"
  shows "mm_ok E t \<and>
    (case r of
       Inl e \<Rightarrow> view E t = view E s \<and> same_counters s t
     | Inr _ \<Rightarrow> unmapped_from E start (start + PAGE_ALIGN E len) s t)"
proof (cases "write_lock_killed E s")
  case True
  then show ?thesis using r ok by (auto simp: vm_munmap_unlock_def)
next
  case False
  let ?s = "emit (Lock Mmap_write_lock) s"
  obtain x u where u: "do_vmi_munmap E start len True unlock ?s = (x, u)" by fastforce
  have s: "same_mm ?s s" by simp
  have t: "r = x" "same_mm t u" using r u False by (auto simp: vm_munmap_unlock_def Let_def)
  have "mm_ok E ?s" using ok mm_ok_same [OF s, of E] by simp
  note o = do_vmi_munmap_spec [OF E this u]
  have c: "count_vma_pages_range E ?s a b = count_vma_pages_range E s a b" for a b
    by (simp add: count_vma_pages_range_def)
  show ?thesis
    using o t mm_ok_same [OF t(2), of E] view_same [OF t(2), of E] view_same [OF s, of E] same_mmD(2) [OF t(2)]
    by (auto simp: unmapped_from_def c split: sum.splits)
qed

lemma vm_munmap_unlock_locks:
  assumes E: "unmap_env_ok E" and r: "vm_munmap_unlock E start len unlock s = (r, t)"
  shows "lock_step [] s [] t"
proof (cases "write_lock_killed E s")
  case True
  then show ?thesis using r by (auto simp: vm_munmap_unlock_def lock_step_refl)
next
  case False
  let ?s = "emit (Lock Mmap_write_lock) s"
  obtain x u where u: "do_vmi_munmap E start len True unlock ?s = (x, u)" by fastforce
  have "lock_step [] s [Mmap_write_lock] ?s" by (intro lock_step_emit lock_step_refl) simp_all
  then have "lock_step [] s (if unlock \<and> x = Inr () then [] else [Mmap_write_lock]) u"
    using E by (intro do_vmi_munmap_locks [OF _ _ u]) (auto simp: unmap_env_ok_def)
  then show ?thesis
    using r u False by (auto simp: vm_munmap_unlock_def Let_def lock_step_emit split: if_splits)
qed

text \<open>
  C31: the system call \<open>munmap\<close> and \<open>vm_munmap\<close> keep the invariant of the memory manager.  When they succeed, exactly the
  page-aligned range asked for is unmapped: every other address still shows the same page
  of the same file with the same flags, whatever mappings were cut at the two ends, and
  \<open>total_vm\<close> falls by the pages that were mapped in the range.  When they fail, on
  any of their error paths, the address space and the counters are as they were.
\<close>

theorem munmap_unmaps_range:
  assumes "unmap_env_ok E" and "mm_ok E s"
    and "sys_munmap E addr len s = (r, t) \<and> start = untagged_addr E addr \<or> vm_munmap E start len s = (r, t)"
  shows "mm_ok E t \<and>
    (case r of
       Inl e \<Rightarrow> view E t = view E s \<and> same_counters s t
     | Inr _ \<Rightarrow>
         view E t = (\<lambda>x. if start \<le> x \<and> x < start + PAGE_ALIGN E len then None else view E s x) \<and>
         total_vm (cur_mm t) = total_vm (cur_mm s) - count_vma_pages_range E s start (start + PAGE_ALIGN E len))"
  using assms(3) vm_munmap_unlock_spec [OF assms(1,2), of start len _ r t]
  by (auto simp: sys_munmap_def vm_munmap_def unmapped_from_def split: sum.splits)

definition x86_unmap :: "wlog unmap_env" where
  "x86_unmap = area_env.extend (x86_areas (generic_get_unmapped_area_topdown (x86_areas (\<lambda>s f a n p f. None))))
     (unmap_env.fields (\<lambda>s p. None) (\<lambda>s. None) (\<lambda>s p a b. None) (\<lambda>a b s. s) (\<lambda>a. a))"

lemma x86_unmap_sel [simp]:
  "index x86_unmap = log_maple" "cst x86_unmap = x86_cst" "PAGE_SHIFT x86_unmap = 12"
  "PAGE_ALIGN x86_unmap = (\<lambda>x. (x + 4095) AND - 4096)" "offset_in_page x86_unmap = (\<lambda>x. x AND 4095)"
  "IS_ERR_VALUE x86_unmap = (\<lambda>x. - 4095 \<le> x)"
  "vm_start_gap x86_unmap = x86_start_gap" "vm_end_gap x86_unmap = vm_end" "vma_alloc x86_unmap = first_free"
  "vma_pages x86_unmap = (\<lambda>v. drop_bit 12 (vm_end v - vm_start v))"
  "write_lock_killed x86_unmap = (\<lambda>s. False)" "arch_unmap x86_unmap = (\<lambda>a b s. s)" "untagged_addr x86_unmap = (\<lambda>a. a)"
  by (simp_all add: x86_unmap_def area_env.extend_def unmap_env.fields_def)
    (simp_all add: x86_areas_def mm_env.extend_def area_env.fields_def x86_env_def hdr.extend_def mm_env.fields_def x86_hdr_def)

lemma x86_unmap_ok [simp]: "env_ok x86_unmap" "unmap_env_ok x86_unmap"
proof -
  show e: "env_ok x86_unmap"
    by (auto simp: env_ok_def hdr_ok_def gaps_ok_def first_free_fresh x86_start_gap_le) (simp add: x86_start_gap_def)
  show "unmap_env_ok x86_unmap" using e by (simp add: unmap_env_ok_def)
qed

lemma demo_index_ok [simp]: "index E = log_maple \<Longrightarrow> mm_ok E demo_mms"
  by (simp add: mm_ok_def)

theorem munmap_unmaps_range_witness:
  "\<exists>r t. sys_munmap x86_unmap 0x401000 0x100 demo_mms = (r, t) \<and> mm_ok x86_unmap t \<and>
    (case r of
       Inl e \<Rightarrow> view x86_unmap t = view x86_unmap demo_mms \<and> same_counters demo_mms t
     | Inr _ \<Rightarrow>
         view x86_unmap t = (\<lambda>x. if 0x401000 \<le> x \<and> x < 0x402000 then None else view x86_unmap demo_mms x) \<and>
         total_vm (cur_mm t) = total_vm (cur_mm demo_mms) - count_vma_pages_range x86_unmap demo_mms 0x401000 0x402000)"
proof -
  obtain r t where r: "sys_munmap x86_unmap 0x401000 0x100 demo_mms = (r, t)" by fastforce
  have "mm_ok x86_unmap demo_mms" by simp
  from munmap_unmaps_range [OF x86_unmap_ok(2) this, of "0x401000" "0x100" r t "0x401000"] r
  show ?thesis by (intro exI [of _ r] exI [of _ t]) (simp split: sum.splits)
qed

text \<open>
  C32: the system call \<open>munmap\<close>, which asks \<open>do_vmi_munmap\<close> to drop the lock of the memory map, and
  \<open>vm_munmap\<close>, which does not, both return with no lock held, whether they succeed, find
  nothing to unmap or fail half-way; on the way no lock is taken twice or released
  without being held, the downgrade to a read lock included.
\<close>

theorem munmap_drops_map_lock:
  assumes "unmap_env_ok E"
  shows "(sys_munmap E addr len s = (r, t) \<longrightarrow> lock_step [] s [] t) \<and>
    (vm_munmap E addr len s = (r, t) \<longrightarrow> lock_step [] s [] t)"
  using vm_munmap_unlock_locks [OF assms] by (auto simp: sys_munmap_def vm_munmap_def)

theorem munmap_drops_map_lock_witness:
  "\<exists>r t. sys_munmap x86_unmap 0x401000 0x100 demo_mms = (r, t) \<and> lock_step [] demo_mms [] t"
proof -
  obtain r t where r: "sys_munmap x86_unmap 0x401000 0x100 demo_mms = (r, t)" by fastforce
  with munmap_drops_map_lock [OF x86_unmap_ok(2), of "0x401000" "0x100" demo_mms r t]
  show ?thesis by blast
qed

end
