(* ===== verification/Brk.thy ===== *)
theory Brk
  imports Munmap_Props
begin

text \<open>
  The data segment: \<open>do_brk_flags\<close>, which adds a range to the heap or makes a new anonymous
  mapping of it, the system call \<open>brk\<close> with the admission test of the memory limits, and
  \<open>vm_brk_flags\<close>.
\<close>

section \<open>What the code takes from its callees\<close>

record 't brk_env = "'t unmap_env" +
  limits :: "('t mm_state, 't) limit_env" \<comment> \<open>the environment of \<open>is_request_accepted\<close>\<close>
  current_pid :: pid_t
  compat_brk :: bool \<comment> \<open>\<open>CONFIG_COMPAT_BRK\<close>\<close>
  brk_randomized :: bool \<comment> \<open>\<open>current->brk_randomized\<close>\<close>
  check_data_rlimit :: "u64 \<Rightarrow> u64 \<Rightarrow> u64 \<Rightarrow> u64 \<Rightarrow> u64 \<Rightarrow> bool"
    \<comment> \<open>the limit is exceeded by a break, given the start of the heap and the data segment\<close>
  fresh_vma :: vm_area_struct \<comment> \<open>the structure \<open>vm_area_alloc\<close> returns\<close>

section \<open>Extending the heap\<close>

text \<open>May the range at \<open>addr\<close> be added to the mapping that ends there?\<close>

definition brk_extends ::
  "('t, 'a) mm_env_scheme \<Rightarrow> 't mm_state \<Rightarrow> vptr \<Rightarrow> u64 \<Rightarrow> u64 \<Rightarrow> bool" where
  "brk_extends E s vma addr flags \<longleftrightarrow>
     vm_end (vma_at s vma) = addr \<and> vm_policy (vma_at s vma) = None \<and>
     can_vma_merge_after E (vma_at s vma) flags None None (drop_bit (PAGE_SHIFT E) addr) 0 None"

definition set_soft_dirty :: "('t, 'a) mm_env_scheme \<Rightarrow> vptr \<Rightarrow> 't mm_state \<Rightarrow> 't mm_state" where
  "set_soft_dirty E vma s = upd_vma vma (\<lambda>v. v\<lparr>vm_flags := vm_flags v OR cst E VM_SOFTDIRTY\<rparr>) s"

text \<open>The result is the mapping, or nothing when memory for it is missing.\<close>

definition brk_grow_vma ::
  "('t, 'a) mm_env_scheme \<Rightarrow> vptr \<Rightarrow> u64 \<Rightarrow> u64 \<Rightarrow> 't mm_state \<Rightarrow> vptr option \<times> 't mm_state" where
  "brk_grow_vma E vma addr len s =
     (if prealloc_fails E s then (None, s)
      else
        let s = emit (Vma_write vma) s;
            vp = init_vma_prep E s vma;
            s = do_vma_prepare E vp s;
            s = emit (Trans_huge vma (vm_start (vma_at s vma)) (addr + len) 0) s;
            s = upd_vma vma (\<lambda>v. v\<lparr>vm_end := addr + len\<rparr>) s;
            s = set_soft_dirty E vma s;
            s = vma_iter_store E vma s;
            s = vma_complete E vp s
        in (Some vma, emit (Khugepaged vma) s))"

definition brk_new_vma ::
  "('t, 'a) brk_env_scheme \<Rightarrow> u64 \<Rightarrow> u64 \<Rightarrow> u64 \<Rightarrow> 't mm_state \<Rightarrow> vptr option \<times> 't mm_state" where
  "brk_new_vma E addr len flags s =
     (case vma_alloc E s of
        None \<Rightarrow> (None, s)
      | Some vma \<Rightarrow>
          let s = emit (Alloc (Vma_obj vma)) (put_vma vma ((fresh_vma E)
                \<lparr>vm_ops := None, vm_start := addr, vm_end := addr + len,
                 vm_pgoff := drop_bit (PAGE_SHIFT E) addr, vm_flags := flags,
                 vm_page_prot := vm_get_page_prot E flags\<rparr>) s);
              s = emit (Vma_write vma) s
          in if prealloc_fails E s then (None, vm_area_free vma s)
             else (Some vma, emit (Ksm_add vma) (add_map_count 1 (vma_iter_store E vma s))))"

text \<open>The accounting after \<open>out\<close>.\<close>

definition brk_account :: "('t, 'a) mm_env_scheme \<Rightarrow> vptr \<Rightarrow> u64 \<Rightarrow> u64 \<Rightarrow> 't mm_state \<Rightarrow> 't mm_state" where
  "brk_account E vma len flags s =
     (let n = drop_bit (PAGE_SHIFT E) len;
          s = emit (Perf_mmap vma) s;
          s = upd_mm (\<lambda>mm. mm\<lparr>total_vm := total_vm mm + n, data_vm := data_vm mm + n\<rparr>) s;
          s = (if flags AND cst E VM_LOCKED \<noteq> 0 then upd_mm (\<lambda>mm. mm\<lparr>locked_vm := locked_vm mm + n\<rparr>) s else s)
      in set_soft_dirty E vma s)"

definition do_brk_flags ::
  "('t, 'a) brk_env_scheme \<Rightarrow> vptr option \<Rightarrow> u64 \<Rightarrow> u64 \<Rightarrow> u64 \<Rightarrow> 't mm_state \<Rightarrow> (errno + unit) \<times> 't mm_state"
where
  "do_brk_flags E vma addr len flags s =
     (let flags = flags OR cst E VM_DATA_DEFAULT_FLAGS OR cst E VM_ACCOUNT OR def_flags (cur_mm s);
          n = drop_bit (PAGE_SHIFT E) len in
      if \<not> may_expand_vm E s flags n then (Inl ENOMEM, s)
      else if sysctl_max_map_count E < map_count (cur_mm s) then (Inl ENOMEM, s)
      else
        (case charge_memory E n s of
           (True, s) \<Rightarrow> (Inl ENOMEM, s)
         | (False, s) \<Rightarrow>
             (case (case vma of
                      Some p \<Rightarrow> if brk_extends E s p addr flags then brk_grow_vma E p addr len s
                                else brk_new_vma E addr len flags s
                    | None \<Rightarrow> brk_new_vma E addr len flags s) of
                (None, s) \<Rightarrow> (Inl ENOMEM, emit (Unacct n) s)
              | (Some p, s) \<Rightarrow> (Inr (), brk_account E p len flags s))))"

section \<open>The system call \<open>brk\<close>\<close>

definition set_brk :: "u64 \<Rightarrow> 't mm_state \<Rightarrow> 't mm_state" where
  "set_brk b s = upd_mm (\<lambda>mm. mm\<lparr>brk := b\<rparr>) s"

definition min_brk :: "('t, 'a) brk_env_scheme \<Rightarrow> 't mm_state \<Rightarrow> u64" where
  "min_brk E s =
     (if compat_brk E then (if brk_randomized E then start_brk (cur_mm s) else end_data (cur_mm s))
      else start_brk (cur_mm s))"

text \<open>
  The body with the map locked: the state, the range to populate if there is one, and
  whether the lock is already dropped; or \<open>None\<close>, which is \<open>goto out\<close>.  The outer option
  is the search of \<open>get_unmapped_area\<close>, which may not return.
\<close>

definition brk_shrink ::
  "('t, 'a) brk_env_scheme \<Rightarrow> u64 \<Rightarrow> u64 \<Rightarrow> u64 \<Rightarrow> 't mm_state \<Rightarrow> bool \<times> 't mm_state" where
  "brk_shrink E b newbrk oldbrk s =
     (case mt_find (index E) (tree s) newbrk (oldbrk - 1) of
        None \<Rightarrow> (False, s)
      | Some brkvma \<Rightarrow>
          if oldbrk \<le> vm_start (vma_at s brkvma) then (False, s)
          else
            (case do_vma_munmap E brkvma newbrk oldbrk True True (set_brk b s) of
               (Inl _, s) \<Rightarrow> (False, s)
             | (Inr _, s) \<Rightarrow> (True, s)))"

definition brk_grow ::
  "('t, 'a) brk_env_scheme \<Rightarrow> u64 \<Rightarrow> u64 \<Rightarrow> u64 \<Rightarrow> 't mm_state \<Rightarrow> (bool \<times> 't mm_state) option" where
  "brk_grow E b newbrk oldbrk s =
     (case check_brk_limits E s oldbrk (newbrk - oldbrk) of
        None \<Rightarrow> None
      | Some (Inl _) \<Rightarrow> Some (False, s)
      | Some (Inr _) \<Rightarrow>
          if (case mt_find (index E) (tree s) oldbrk (newbrk + cst E PAGE_SIZE + stack_guard_gap E - 1) of
                None \<Rightarrow> False
              | Some nxt \<Rightarrow> vm_start_gap E (vma_at s nxt) < newbrk + cst E PAGE_SIZE)
          then Some (False, s)
          else
            let brkvma = fst (mas_prev (index E) (tree s) oldbrk (start_brk (cur_mm s))) in
            (case do_brk_flags E brkvma oldbrk (newbrk - oldbrk) 0 s of
               (Inl _, s) \<Rightarrow> Some (False, s)
             | (Inr _, s) \<Rightarrow> Some (True, set_brk b s)))"

definition sys_brk ::
  "('t, 'a) brk_env_scheme \<Rightarrow> u64 \<Rightarrow> 't mm_state \<Rightarrow> (u64 \<times> 't mm_state) option" where
  "sys_brk E b s =
     (if write_lock_killed E s then Some (err EINTR, s)
      else
        let s = emit (Lock Mmap_write_lock) s;
            origbrk = brk (cur_mm s);
            out = (\<lambda>s. (origbrk, emit (Unlock Mmap_write_lock) (set_brk origbrk s)));
            newbrk = PAGE_ALIGN E b;
            oldbrk = PAGE_ALIGN E origbrk
        in
        if b < min_brk E s then Some (out s)
        else if check_data_rlimit E (rlimit_data E) b (start_brk (cur_mm s)) (end_data (cur_mm s)) (start_data (cur_mm s))
        then Some (out s)
        else
          (case is_request_accepted (limits E) (current_pid E) (newbrk - oldbrk) s of
             (False, s) \<Rightarrow> Some (out s)
           | (True, s) \<Rightarrow>
               if oldbrk = newbrk then
                 Some (b, emit Uffd_unmap_complete (emit (Unlock Mmap_write_lock) (set_brk b s)))
               else if b \<le> origbrk then
                 (case brk_shrink E b newbrk oldbrk s of
                    (False, s) \<Rightarrow> Some (out s)
                  | (True, s) \<Rightarrow> Some (b, emit Uffd_unmap_complete s))
               else
                 (case brk_grow E b newbrk oldbrk s of
                    None \<Rightarrow> None
                  | Some (False, s) \<Rightarrow> Some (out s)
                  | Some (True, s) \<Rightarrow>
                      let populate = (def_flags (cur_mm s) AND cst E VM_LOCKED \<noteq> 0);
                          s = emit Uffd_unmap_complete (emit (Unlock Mmap_write_lock) s)
                      in Some (b, if populate then emit (Populate oldbrk (newbrk - oldbrk)) s else s))))"

section \<open>\<open>vm_brk_flags\<close>\<close>

text \<open>\<open>check_brk_limits\<close> returns an error as an \<open>int\<close>: an \<open>Inl\<close> holds its value.\<close>

definition vm_brk_flags ::
  "('t, 'a) brk_env_scheme \<Rightarrow> u64 \<Rightarrow> u64 \<Rightarrow> u64 \<Rightarrow> 't mm_state \<Rightarrow> ((u64 + unit) \<times> 't mm_state) option" where
  "vm_brk_flags E addr request flags s =
     (let len = PAGE_ALIGN E request in
      if len < request then Some (Inl (err ENOMEM), s)
      else if len = 0 then Some (Inr (), s)
      else if flags AND NOT (cst E VM_EXEC) \<noteq> 0 then Some (Inl (err EINVAL), s)
      else if write_lock_killed E s then Some (Inl (err EINTR), s)
      else
        let s = emit (Lock Mmap_write_lock) s in
        (case check_brk_limits E s addr len of
           None \<Rightarrow> None
         | Some (Inl e) \<Rightarrow> Some (Inl e, emit (Unlock Mmap_write_lock) s)
         | Some (Inr _) \<Rightarrow>
             (case do_vmi_munmap E addr len True False s of
                (Inl e, s) \<Rightarrow> Some (Inl (err e), emit (Unlock Mmap_write_lock) s)
              | (Inr _, s) \<Rightarrow>
                  (case do_brk_flags E (fst (mas_prev (index E) (tree s) addr 0)) addr len flags s of
                     (ret, s) \<Rightarrow>
                       let populate = (def_flags (cur_mm s) AND cst E VM_LOCKED \<noteq> 0);
                           s = emit Uffd_unmap_complete (emit (Unlock Mmap_write_lock) s);
                           s = (if populate \<and> ret = Inr () then emit (Populate addr len) s else s)
                       in Some (case ret of Inl e \<Rightarrow> Inl (err e) | Inr _ \<Rightarrow> Inr (), s)))))"

end
