(* ===== verification/Brk_Spec.thy ===== *)
theory Brk_Spec
  imports Brk Limits_Spec
begin

text \<open>
  What the data-segment operations do to the address space: the range \<open>do_brk_flags\<close> adds, what
  shrinking and growing leave, and from them the two outcomes of the system call \<open>brk\<close>.
\<close>

section \<open>Adding to the heap\<close>

lemma brk_grow_vma_spec:
  assumes M: "maple_ok (index E)" and wf: "mm_wf (index E) s" and p: "p \<in> mapped (index E) s"
    and lt: "vm_start (vma_at s p) < addr + len" and r: "brk_grow_vma E p addr len s = (x, t)"
  shows "x = None \<Longrightarrow> t = s"
    "x = Some q \<Longrightarrow> q = p \<and> same_counters s t \<and> stores E p ((vma_at s p)\<lparr>vm_end := addr + len,
        vm_flags := vm_flags (vma_at s p) OR cst E VM_SOFTDIRTY\<rparr>) {} s t"
proof -
  show "x = None \<Longrightarrow> t = s" using r by (auto simp: brk_grow_vma_def Let_def split: if_splits)
  assume x: "x = Some q"
  let ?v = "vma_at s p"
  let ?w = "?v\<lparr>vm_end := addr + len, vm_flags := vm_flags ?v OR cst E VM_SOFTDIRTY\<rparr>"
  define a where "a = emit (Vma_write p) s"
  define vp where "vp = init_vma_prep E a p"
  define b where "b = emit (Trans_huge p (vm_start (vma_at (do_vma_prepare E vp a) p)) (addr + len) 0) (do_vma_prepare E vp a)"
  define c where "c = set_soft_dirty E p (upd_vma p (\<lambda>v. v\<lparr>vm_end := addr + len\<rparr>) b)"
  define d where "d = vma_iter_store E p c"
  have t: "t = emit (Khugepaged p) (vma_complete E vp d)" "q = p"
    using r x by (auto simp: brk_grow_vma_def Let_def a_def vp_def b_def c_def d_def split: if_splits)
  have "same_mm b s" using do_vma_prepare_same [of E vp a] by (simp add: b_def a_def same_mm_def)
  note bs = same_mmD [OF this]
  have c: "vmas c = (vmas s)(p \<mapsto> ?w)" "cur_mm c = cur_mm s" "vma_at c p = ?w"
    using bs by (simp_all add: c_def set_soft_dirty_def upd_vma_def)
  then have d: "vmas d = (vmas s)(p \<mapsto> ?w)"
    "cur_mm d = (cur_mm s)\<lparr>mm_mt := mt_store (index E) (tree s) (vm_start ?v) (addr + len - 1) (Some p)\<rparr>"
    by (simp_all add: d_def vma_iter_store_def)
  have "same_mm (vma_complete E vp d) d"
    by (rule vma_complete_plain) (simp_all add: vp_def init_vma_prep_def init_multi_vma_prep_def)
  then have "same_mm t d" by (simp add: t)
  note td = same_mmD [OF this]
  show "q = p \<and> same_counters s t \<and> stores E p ?w {} s t"
    using t(2) p lt by (auto simp: td d stores_def maple_store [OF M] le_below_end)
qed

lemma brk_new_vma_spec:
  assumes E: "env_ok E" and wf: "mm_wf (index E) s" and lt: "addr < addr + len"
    and r: "brk_new_vma E addr len flags s = (x, t)"
  shows "x = None \<Longrightarrow> same_mm t s"
    "x = Some p \<Longrightarrow> p \<notin> mapped (index E) s \<and> same_counters s t \<and> stores E p ((fresh_vma E)
                \<lparr>vm_ops := None, vm_start := addr, vm_end := addr + len,
                 vm_pgoff := drop_bit (PAGE_SHIFT E) addr, vm_flags := flags,
                 vm_page_prot := vm_get_page_prot E flags\<rparr>) {} s t"
proof -
  show "x = None \<Longrightarrow> same_mm t s"
    using r by (auto simp: brk_new_vma_def Let_def put_vma_def emit_def split: option.splits if_splits
        intro!: free_new_same dest: env_fresh [OF E])
  assume x: "x = Some p"
  let ?v = "(fresh_vma E)\<lparr>vm_ops := None, vm_start := addr, vm_end := addr + len,
                 vm_pgoff := drop_bit (PAGE_SHIFT E) addr, vm_flags := flags,
                 vm_page_prot := vm_get_page_prot E flags\<rparr>"
  have p: "vma_alloc E s = Some p"
    using r x by (auto simp: brk_new_vma_def Let_def split: option.splits if_splits)
  define a where "a = emit (Vma_write p) (emit (Alloc (Vma_obj p)) (put_vma p ?v s))"
  have t: "t = emit (Ksm_add p) (add_map_count 1 (vma_iter_store E p a))"
    using r x p by (auto simp: brk_new_vma_def Let_def a_def split: if_splits)
  have a: "vmas a = (vmas s)(p \<mapsto> ?v)" "cur_mm a = cur_mm s" "vma_at a p = ?v"
    by (simp_all add: a_def)
  have n: "p \<notin> mapped (index E) s" using env_fresh [OF E p] mapped_extent(1) [OF wf, of p] by auto
  show "p \<notin> mapped (index E) s \<and> same_counters s t \<and> stores E p ?v {} s t"
    using n lt by (auto simp: t a vma_iter_store_def add_map_count_def stores_def
        maple_store [OF env_maple [OF E]] le_below_end)
qed

lemma brk_account_spec:
  "vmas (brk_account E p len flags s) =
     (vmas s)(p \<mapsto> (vma_at s p)\<lparr>vm_flags := vm_flags (vma_at s p) OR cst E VM_SOFTDIRTY\<rparr>)"
  "tree (brk_account E p len flags s) = tree s"
  "map_count (cur_mm (brk_account E p len flags s)) = map_count (cur_mm s)"
  "total_vm (cur_mm (brk_account E p len flags s)) = total_vm (cur_mm s) + drop_bit (PAGE_SHIFT E) len"
  "start_brk (cur_mm (brk_account E p len flags s)) = start_brk (cur_mm s)"
  "brk (cur_mm (brk_account E p len flags s)) = brk (cur_mm s)"
  "def_flags (cur_mm (brk_account E p len flags s)) = def_flags (cur_mm s)"
  "mmap_base (cur_mm (brk_account E p len flags s)) = mmap_base (cur_mm s)"
  by (simp_all add: brk_account_def set_soft_dirty_def upd_vma_def Let_def vma_at_def fun_eq_iff)

text \<open>What \<open>do_brk_flags\<close> maps: anonymous memory whose pages are numbered by the address.\<close>

definition heap_flags :: "('t, 'a) mm_env_scheme \<Rightarrow> 't mm_state \<Rightarrow> u64 \<Rightarrow> u64" where
  "heap_flags E s flags = flags OR cst E VM_DATA_DEFAULT_FLAGS OR cst E VM_ACCOUNT OR def_flags (cur_mm s)"

definition heap_added ::
  "('t, 'a) mm_env_scheme \<Rightarrow> u64 \<Rightarrow> u64 \<Rightarrow> u64 \<Rightarrow> 't mm_state \<Rightarrow> 't mm_state \<Rightarrow> bool" where
  "heap_added E a b flags s t \<longleftrightarrow>
     seen E t = (\<lambda>x. if a \<le> x \<and> x < b
        then Some (None, drop_bit 12 a + drop_bit 12 (x - a), flags AND NOT (cst E VM_SOFTDIRTY)) else seen E s x) \<and>
     total_vm (cur_mm t) = total_vm (cur_mm s) + drop_bit 12 (b - a) \<and>
     start_brk (cur_mm t) = start_brk (cur_mm s) \<and> brk (cur_mm t) = brk (cur_mm s) \<and>
     def_flags (cur_mm t) = def_flags (cur_mm s) \<and> mmap_base (cur_mm t) = mmap_base (cur_mm s)"

text \<open>
  The mapping \<open>w\<close> stored for the new range \<open>[addr, b)\<close>: it starts with the old part of \<open>q\<close>, if
  there is one, and continues it.
\<close>

definition heap_vma ::
  "('t, 'a) mm_env_scheme \<Rightarrow> 't mm_state \<Rightarrow> vptr \<Rightarrow> u64 \<Rightarrow> u64 \<Rightarrow> u64 \<Rightarrow> vm_area_struct \<Rightarrow> bool" where
  "heap_vma E s q addr b flags w \<longleftrightarrow>
     covers E s (vm_start w) (vm_end w) q {} \<and> vm_start w \<le> addr \<and> vm_end w = b \<and> vm_file w = None \<and>
     vm_flags w AND NOT (cst E VM_SOFTDIRTY) = flags AND NOT (cst E VM_SOFTDIRTY) \<and>
     (\<forall>k. addr \<le> k \<longrightarrow> page_at w k = drop_bit 12 addr + drop_bit 12 (k - addr)) \<and>
     (\<forall>k. vm_start w \<le> k \<longrightarrow> k < addr \<longrightarrow> entry_at (index E) s k = Some q \<and>
        vm_file (vma_at s q) = None \<and> page_at (vma_at s q) k = page_at w k \<and>
        vm_flags (vma_at s q) AND NOT (cst E VM_SOFTDIRTY) = flags AND NOT (cst E VM_SOFTDIRTY))"

lemma brk_vma_spec:
  fixes E :: "('t, 'a) brk_env_scheme"
  assumes E: "env_ok E" and fr: "vm_file (fresh_vma E) = None" and ok: "mm_ok E s"
    and al: "4096 dvd unat addr" "4096 dvd unat (addr + len)" "addr < addr + len"
    and free: "\<And>k. addr \<le> k \<Longrightarrow> k < addr + len \<Longrightarrow> entry_at (index E) s k = None"
    and v: "\<And>p. vma = Some p \<Longrightarrow> p \<in> mapped (index E) s"
    and r: "(case vma of
        Some p \<Rightarrow> if brk_extends E s p addr flags then brk_grow_vma E p addr len s else brk_new_vma E addr len flags s
      | None \<Rightarrow> brk_new_vma E addr len flags s) = (x, t)"
  shows "case x of None \<Rightarrow> same_mm t s
    | Some q \<Rightarrow> same_counters s t \<and> (\<exists>w. stores E q w {} s t \<and> heap_vma E s q addr (addr + len) flags w)"
proof -
  let ?M = "index E" and ?sd = "NOT (cst E VM_SOFTDIRTY)"
  note wf = mm_ok_wf [OF ok] and M = env_maple [OF E]
  have sh: "PAGE_SHIFT E = 12" using E by (simp add: env_hdr hdr_simps)
  consider (grow) p where "vma = Some p" "brk_extends E s p addr flags" "brk_grow_vma E p addr len s = (x, t)"
    | (new) "brk_new_vma E addr len flags s = (x, t)"
    using r by (auto split: option.splits if_splits)
  then show ?thesis
  proof cases
    case (grow p)
    let ?v = "vma_at s p"
    let ?w = "?v\<lparr>vm_end := addr + len, vm_flags := vm_flags ?v OR cst E VM_SOFTDIRTY\<rparr>"
    have p: "p \<in> mapped ?M s" by (rule v [OF grow(1)])
    note xt = mapped_extent [OF wf p]
    have e: "vm_end ?v = addr" and f: "vm_file ?v = None" and fl: "(vm_flags ?v XOR flags) AND ?sd = 0"
      and pg: "vm_pgoff ?v + vma_pages E ?v = drop_bit 12 addr"
      using grow(2) by (auto simp: brk_extends_def can_vma_merge_after_def is_mergeable_vma_def sh split: if_splits)
    have lt: "vm_start ?v < addr" using xt(2) e by simp
    then have lt': "vm_start ?v < addr + len" using al(3) by simp
    have sal: "4096 dvd unat (vm_start ?v)" using mm_ok_aligned [OF ok] p by (simp add: vmas_aligned_def)
    have ep: "entry_at ?M s k = Some p \<longleftrightarrow> vm_start ?v \<le> k \<and> k < addr" for k using xt(3) [of k] e by simp
    have hit: "q = p" if "vm_start ?v \<le> k" "k < addr + len" "entry_at ?M s k = Some q" for k q
      using that ep [of k] free [of k] by (cases "k < addr") auto
    have in_w: "vm_start ?v \<le> k \<and> k < addr + len" if "entry_at ?M s k = Some p" for k
      using that ep [of k] al(3) by (auto dest: less_trans)
    have "covers E s (vm_start ?v) (addr + len) p {}"
      unfolding covers_def using lt' sal al(2) hit in_w by blast
    moreover have "page_at ?w k = drop_bit 12 addr + drop_bit 12 (k - addr)" if "addr \<le> k" for k
    proof -
      have "page_at ?w k = page_at ?v k" by (simp add: page_at_def)
      also have "\<dots> = vm_pgoff ?v + drop_bit 12 (addr - vm_start ?v) + drop_bit 12 (k - addr)"
        using lt by (intro page_at_extend [OF _ that al(1) sal]) simp
      finally show ?thesis using pg by (simp add: env_pages [OF E] e)
    qed
    moreover have "vm_flags ?v AND ?sd = flags AND ?sd" by (rule and_not_eq [OF fl])
    ultimately have "heap_vma E s p addr (addr + len) flags ?w"
      unfolding heap_vma_def using lt f ep by (simp add: or_and_not page_at_def)
    with brk_grow_vma_spec [OF M wf p lt' grow(3)] show ?thesis by (cases x) auto
  next
    case new
    let ?w = "(fresh_vma E)\<lparr>vm_ops := None, vm_start := addr, vm_end := addr + len,
                 vm_pgoff := drop_bit (PAGE_SHIFT E) addr, vm_flags := flags,
                 vm_page_prot := vm_get_page_prot E flags\<rparr>"
    have "heap_vma E s q addr (addr + len) flags ?w" if "q \<notin> mapped ?M s" for q
      unfolding heap_vma_def covers_def using that al free fr sh by (auto simp: mapped_def page_at_def)
    with brk_new_vma_spec [OF E wf al(3) new] show ?thesis by (cases x) auto
  qed
qed

lemma heap_vma_stored:
  assumes ok: "mm_ok E s" and h: "heap_vma E s q addr b flags w" and st: "stores E q w {} s t"
  shows "mm_ok E t" "seen E t = (\<lambda>x. if addr \<le> x \<and> x < b
        then Some (None, drop_bit 12 addr + drop_bit 12 (x - addr), flags AND NOT (cst E VM_SOFTDIRTY)) else seen E s x)"
proof -
  have c: "covers E s (vm_start w) (vm_end w) q {}" and b: "vm_start w \<le> addr" "vm_end w = b" "vm_file w = None"
    and fl: "vm_flags w AND NOT (cst E VM_SOFTDIRTY) = flags AND NOT (cst E VM_SOFTDIRTY)"
    and pg: "\<And>k. addr \<le> k \<Longrightarrow> page_at w k = drop_bit 12 addr + drop_bit 12 (k - addr)"
    and old: "\<And>k. vm_start w \<le> k \<Longrightarrow> k < addr \<Longrightarrow> entry_at (index E) s k = Some q \<and>
        vm_file (vma_at s q) = None \<and> page_at (vma_at s q) k = page_at w k \<and>
        vm_flags (vma_at s q) AND NOT (cst E VM_SOFTDIRTY) = flags AND NOT (cst E VM_SOFTDIRTY)"
    using h by (auto simp: heap_vma_def)
  note o = stores_ok [OF ok c st]
  show "mm_ok E t" by (rule o(1))
  show "seen E t = (\<lambda>x. if addr \<le> x \<and> x < b
        then Some (None, drop_bit 12 addr + drop_bit 12 (x - addr), flags AND NOT (cst E VM_SOFTDIRTY)) else seen E s x)"
  proof
    fix x
    consider "addr \<le> x" "x < b" | "vm_start w \<le> x" "x < addr" "x < b" | "\<not> (vm_start w \<le> x \<and> x < b)"
      by force
    then show "seen E t x = (if addr \<le> x \<and> x < b
        then Some (None, drop_bit 12 addr + drop_bit 12 (x - addr), flags AND NOT (cst E VM_SOFTDIRTY)) else seen E s x)"
    proof cases
      case 1
      then have "vm_start w \<le> x" using b(1) by simp
      with 1 show ?thesis using pg [of x] b fl by (simp add: seen_def o(3) content_def)
    next
      case 2
      then have "view E s x = Some (None, page_at w x, vm_flags (vma_at s q), vm_page_prot (vma_at s q))"
        using old [of x] by (simp add: view_def content_def)
      with 2 old [of x] show ?thesis using b fl by (auto simp: seen_def o(3) content_def)
    next
      case 3
      then have "\<not> (addr \<le> x \<and> x < b)" using b(1) by auto
      with 3 show ?thesis using b(2) by (auto simp: seen_def o(3))
    qed
  qed
qed

lemma heap_vma_same:
  "same_mm s t \<Longrightarrow> heap_vma E s q a b f w = heap_vma E t q a b f w"
proof -
  assume "same_mm s t"
  note d = same_mmD [OF this]
  have c: "covers E s a b p R = covers E t a b p R" for a b p R by (simp add: covers_def mapped_def d)
  show "heap_vma E s q a b f w = heap_vma E t q a b f w" unfolding heap_vma_def c d ..
qed

lemma do_brk_flags_spec:
  fixes E :: "('t, 'a) brk_env_scheme"
  assumes E: "env_ok E" and fr: "vm_file (fresh_vma E) = None" and ok: "mm_ok E s"
    and al: "4096 dvd unat addr" "4096 dvd unat (addr + len)" "addr < addr + len"
    and free: "\<And>k. addr \<le> k \<Longrightarrow> k < addr + len \<Longrightarrow> entry_at (index E) s k = None"
    and v: "\<And>p. vma = Some p \<Longrightarrow> p \<in> mapped (index E) s"
    and r: "do_brk_flags E vma addr len flags s = (r, t)"
  shows "case r of Inl e \<Rightarrow> same_mm t s
    | Inr _ \<Rightarrow> mm_ok E t \<and> heap_added E addr (addr + len) (heap_flags E s flags) s t"
proof -
  let ?f = "heap_flags E s flags" and ?n = "drop_bit (PAGE_SHIFT E) len"
  have sh: "PAGE_SHIFT E = 12" using E by (simp add: env_hdr hdr_simps)
  show ?thesis
  proof (cases "may_expand_vm E s ?f ?n \<and> \<not> sysctl_max_map_count E < map_count (cur_mm s) \<and> \<not> not_enough_memory E s ?n")
    case False
    then show ?thesis using r
      by (auto simp: do_brk_flags_def Let_def charge_memory_def heap_flags_def [symmetric] split: if_splits)
  next
    case True
    define u where "u = emit (Charge ?n) s"
    have us: "same_mm u s" by (simp add: u_def)
    have oku: "mm_ok E u" using ok mm_ok_same [OF us, of E] by simp
    have freeu: "entry_at (index E) u k = None" if "addr \<le> k" "k < addr + len" for k
      using free [OF that] by (simp add: u_def)
    have vu: "p \<in> mapped (index E) u" if "vma = Some p" for p using v [OF that] by (simp add: u_def mapped_def)
    obtain x w where x: "(case vma of
        Some p \<Rightarrow> if brk_extends E u p addr ?f then brk_grow_vma E p addr len u else brk_new_vma E addr len ?f u
      | None \<Rightarrow> brk_new_vma E addr len ?f u) = (x, w)" by fastforce
    note o = brk_vma_spec [OF E fr oku al freeu vu x]
    have r': "(case (x, w) of (None, s) \<Rightarrow> (Inl ENOMEM, emit (Unacct ?n) s)
              | (Some p, s) \<Rightarrow> (Inr (), brk_account E p len ?f s)) = (r, t)"
      using r True x unfolding u_def
      by (simp add: do_brk_flags_def Let_def charge_memory_def heap_flags_def [symmetric])
    show ?thesis
    proof (cases x)
      case None
      then have "same_mm t u" "r = Inl ENOMEM" using r' o by auto
      then show ?thesis using same_mm_trans [OF _ us] by simp
    next
      case (Some q)
      then obtain z where z: "stores E q z {} u w" "heap_vma E u q addr (addr + len) ?f z" and cw: "same_counters u w"
        using o by auto
      have rt: "r = Inr ()" "t = brk_account E q len ?f w" using r' Some by auto
      let ?z = "z\<lparr>vm_flags := vm_flags z OR cst E VM_SOFTDIRTY\<rparr>"
      have "vma_at w q = z" using z(1) by (simp add: stores_def vma_at_def)
      note a = brk_account_spec [of E q len ?f w, folded rt(2), unfolded this]
      have st: "stores E q ?z {} s t"
        by (rule stores_cong [OF stores_from_same [OF z(1) us]]) (simp_all add: a)
      have "heap_vma E s q addr (addr + len) ?f ?z"
        using z(2) unfolding heap_vma_same [OF us] unfolding heap_vma_def
        by (elim conjE) (intro conjI; simp add: or_and_not page_at_def)
      note p = heap_vma_stored [OF ok this st]
      have "addr + len - addr = len" by simp
      then show ?thesis using p a cw rt(1) by (simp add: heap_added_def sh u_def counters_def)
    qed
  qed
qed

section \<open>The break\<close>

text \<open>
  What the callers rely on: a fresh structure has no file, the address space and the guard
  gap leave room below \<open>2 ^ 64\<close>, the hooks return 0 or an error value, and the search for
  an area is one of the generic ones, in an environment \<open>P\<close> with the same index.
\<close>

definition brk_env_ok :: "('t, 'a) brk_env_scheme \<Rightarrow> bool" where
  "brk_env_ok E \<longleftrightarrow>
     unmap_env_ok E \<and> vm_file (fresh_vma E) = None \<and> cst E MAP_FIXED \<noteq> 0 \<and>
     unat (cst E TASK_SIZE) + 4096 + unat (stack_guard_gap E) < 2 ^ 64 \<and>
     (\<forall>a n f. arch_mmap_check E a n f = 0 \<or> IS_ERR_VALUE E (arch_mmap_check E a n f)) \<and>
     (\<forall>a. security_mmap_addr E a = 0 \<or> IS_ERR_VALUE E (security_mmap_addr E a))"

definition searches_in ::
  "('t, 'a) area_env_scheme \<Rightarrow> ('t, 'b) area_env_scheme \<Rightarrow> 't mm_state \<Rightarrow> bool" where
  "searches_in E P s \<longleftrightarrow>
     area_state P s \<and> index P = index E \<and> cst P = cst E \<and> mmap_min_addr P = mmap_min_addr E \<and>
     (choose_area E None (cst E MAP_FIXED) = generic_get_unmapped_area P \<or>
      choose_area E None (cst E MAP_FIXED) = generic_get_unmapped_area_topdown P)"

lemma area_state_same: "same_mm s t \<Longrightarrow> area_state P s \<longleftrightarrow> area_state P t"
proof -
  assume "same_mm s t"
  note d = same_mmD [OF this]
  show ?thesis by (simp add: area_state_def mm_wf_def guards_above_zero_def mapped_def d)
qed

lemma searches_in_same: "same_mm s t \<Longrightarrow> searches_in E P s \<longleftrightarrow> searches_in E P t"
  using area_state_same [of s t P] by (simp add: searches_in_def)

lemma check_brk_limits_spec:
  fixes E :: "('t, 'a) brk_env_scheme"
  assumes E: "brk_env_ok E" and P: "searches_in E P s" and n: "len \<noteq> 0"
  obtains c where "check_brk_limits E s addr len = Some c"
    "c = Inr () \<Longrightarrow> len \<le> cst E TASK_SIZE \<and> addr \<le> cst E TASK_SIZE - len"
proof -
  have H: "hdr_ok E" using E by (simp add: brk_env_ok_def unmap_env_ok_def env_hdr)
  have fx: "cst E MAP_FIXED AND cst E MAP_FIXED \<noteq> 0" using E by (simp add: brk_env_ok_def)
  have st: "area_state P s" "index P = index E" "cst P = cst E" "mmap_min_addr P = mmap_min_addr E"
    using P by (auto simp: searches_in_def)
  have ck: "arch_mmap_check E addr len (cst E MAP_FIXED) = 0 \<or> IS_ERR_VALUE E (arch_mmap_check E addr len (cst E MAP_FIXED))"
    "\<And>a. security_mmap_addr E a = 0 \<or> IS_ERR_VALUE E (security_mmap_addr E a)"
    using E by (auto simp: brk_env_ok_def)
  have en: "IS_ERR_VALUE E (err ENOMEM)" by (simp add: hdr_simps [OF H] err_def)
  obtain a where a: "get_unmapped_area E s None addr len 0 (cst E MAP_FIXED) = Some a"
    "IS_ERR_VALUE E a \<or> len \<le> cst E TASK_SIZE \<and> a \<le> cst E TASK_SIZE - len \<and> a = addr"
    using P bottom_up.placed [OF st H _ n ck, of None 0] top_down.placed [OF st H _ n ck, of None 0] en fx
    unfolding searches_in_def area_answer_def by metis
  show thesis
    by (rule that [of "if IS_ERR_VALUE E a then Inl a
        else if mlock_future_ok E s (def_flags (cur_mm s)) len then Inr () else Inl (err EAGAIN)"])
      (use a in \<open>auto simp: check_brk_limits_def split: if_splits\<close>)
qed

text \<open>Moving the break down, and up.\<close>

lemma set_brk_same:
  "vmas (set_brk b s) = vmas s" "tree (set_brk b s) = tree s" "view E (set_brk b s) = view E s"
  "mm_ok E (set_brk b s) = mm_ok E s" "brk (cur_mm (set_brk b s)) = b"
  "total_vm (cur_mm (set_brk b s)) = total_vm (cur_mm s)" "start_brk (cur_mm (set_brk b s)) = start_brk (cur_mm s)"
  "count_vma_pages_range E (set_brk b s) x y = count_vma_pages_range E s x y"
  by (simp_all add: set_brk_def view_def fun_eq_iff mm_ok_def mm_wf_def count_ok_def vmas_aligned_def
      mapped_def count_vma_pages_range_def)

lemma brk_shrink_spec:
  assumes E: "unmap_env_ok E" and ok: "mm_ok E s" and al: "4096 dvd unat newbrk" "4096 dvd unat oldbrk" "newbrk < oldbrk"
    and r: "brk_shrink E b newbrk oldbrk s = (x, t)"
  shows "mm_ok E t \<and> (if x then view E t = (\<lambda>k. if newbrk \<le> k \<and> k < oldbrk then None else view E s k) \<and>
      total_vm (cur_mm t) = total_vm (cur_mm s) - count_vma_pages_range E s newbrk oldbrk \<and>
      brk (cur_mm t) = b \<and> start_brk (cur_mm t) = start_brk (cur_mm s)
    else view E t = view E s \<and> total_vm (cur_mm t) = total_vm (cur_mm s))"
proof -
  have e: "env_ok E" and a: "\<And>a b s. arch_unmap E a b s = s" using E by (auto simp: unmap_env_ok_def)
  note f = maple_find [OF env_maple [OF e], of "tree s" newbrk "oldbrk - 1"]
  show ?thesis
  proof (cases "mt_find (index E) (tree s) newbrk (oldbrk - 1)")
    case None
    then show ?thesis using r ok by (simp add: brk_shrink_def)
  next
    case (Some v)
    show ?thesis
    proof (cases "oldbrk \<le> vm_start (vma_at s v)")
      case True
      then show ?thesis using r ok Some by (simp add: brk_shrink_def)
    next
      case False
      obtain y u where u: "do_vmi_align_munmap E v newbrk oldbrk True True (set_brk b s) = (y, u)" by fastforce
      have ok': "mm_ok E (set_brk b s)" using ok by (simp add: set_brk_same)
      have f': "find_law (entry_at (index E) (set_brk b s)) newbrk (oldbrk - 1) (Some v)"
        using f Some by (simp add: set_brk_same)
      note o = align_munmap_spec [OF e ok' al f' u]
      have "x = isr y" "t = u" if "\<And>y. isr y = (case y of Inl _ \<Rightarrow> False | Inr _ \<Rightarrow> True)" for isr
        using r Some False u that by (auto simp: brk_shrink_def do_vma_munmap_def a split: sum.splits)
      then show ?thesis
        using o by (auto simp: set_brk_same counters_def split: sum.splits)
    qed
  qed
qed

lemma below_task_size:
  fixes a n T :: u64
  assumes "n \<le> T" "a \<le> T - n" "n \<noteq> 0"
  shows "unat (a + n) = unat a + unat n" "a < a + n" "a + n \<le> T"
proof -
  have 1: "unat a + unat n \<le> unat T" using assms(1,2) by (simp add: word_le_nat_alt unat_sub)
  then show u: "unat (a + n) = unat a + unat n" using unat_bound64 [of T] by (intro unat_add_nowrap) linarith
  have "0 < unat n" using assms(3) by (simp add: unat_gt_0)
  then show "a < a + n" unfolding word_less_nat_alt u by linarith
  show "a + n \<le> T" unfolding word_le_nat_alt u by (rule 1)
qed

lemma brk_grow_spec:
  fixes E :: "('t, 'a) brk_env_scheme"
  assumes E: "brk_env_ok E" and P: "searches_in E P s" and ok: "mm_ok E s"
    and al: "4096 dvd unat newbrk" "4096 dvd unat oldbrk" "newbrk \<noteq> oldbrk"
  obtains x t where "brk_grow E b newbrk oldbrk s = Some (x, t)" "mm_ok E t"
    "x \<Longrightarrow> oldbrk < newbrk \<and> newbrk \<le> cst E TASK_SIZE \<and> brk (cur_mm t) = b \<and>
      heap_added E oldbrk newbrk (heap_flags E s 0) (set_brk b s) t"
    "\<not> x \<Longrightarrow> same_mm t s"
proof -
  have u: "unmap_env_ok E" "env_ok E" and fr: "vm_file (fresh_vma E) = None"
    and room: "unat (cst E TASK_SIZE) + 4096 + unat (stack_guard_gap E) < 2 ^ 64"
    using E by (auto simp: brk_env_ok_def unmap_env_ok_def)
  note M = env_maple [OF u(2)] and g = gaps_okD [OF env_gaps [OF u(2)]]
  have ps: "cst E PAGE_SIZE = 4096" by (rule hdr_simps(2) [OF env_hdr [OF u(2)]])
  obtain c where c: "check_brk_limits E s oldbrk (newbrk - oldbrk) = Some c"
    "c = Inr () \<Longrightarrow> newbrk - oldbrk \<le> cst E TASK_SIZE \<and> oldbrk \<le> cst E TASK_SIZE - (newbrk - oldbrk)"
    using check_brk_limits_spec [OF E P, of "newbrk - oldbrk" oldbrk] al(3) by auto
  let ?hi = "newbrk + cst E PAGE_SIZE + stack_guard_gap E"
  let ?near = "case mt_find (index E) (tree s) oldbrk (?hi - 1) of
                None \<Rightarrow> False
              | Some nxt \<Rightarrow> vm_start_gap E (vma_at s nxt) < newbrk + cst E PAGE_SIZE"
  show thesis
  proof (cases "c = Inr () \<and> \<not> ?near")
    case False
    then have "brk_grow E b newbrk oldbrk s = Some (False, s)"
      using c(1) by (auto simp: brk_grow_def split: sum.splits)
    then show thesis using ok by (intro that [of False s]) simp_all
  next
    case True
    then have near: "\<not> ?near" and b: "newbrk - oldbrk \<le> cst E TASK_SIZE" "oldbrk \<le> cst E TASK_SIZE - (newbrk - oldbrk)"
      using c(2) by auto
    have "newbrk - oldbrk \<noteq> 0" using al(3) by simp
    note bt = below_task_size [OF b this]
    have lt: "oldbrk < newbrk" and top: "newbrk \<le> cst E TASK_SIZE" using bt(2,3) by simp_all
    have hi: "unat ?hi = unat newbrk + 4096 + unat (stack_guard_gap E)"
      and mid: "unat (newbrk + 4096) = unat newbrk + 4096"
      using room top by (simp_all add: ps word_le_nat_alt unat_add_nowrap)
    have free: "entry_at (index E) s k = None" if k: "oldbrk \<le> k" "k < newbrk" for k
    proof (cases "mt_find (index E) (tree s) oldbrk (?hi - 1)")
      case None
      have "k < ?hi" using k(2) hi by (simp add: word_less_nat_alt)
      moreover have "0 < ?hi" using hi by (simp add: word_less_nat_alt)
      ultimately show ?thesis
        using maple_find [OF M, of "tree s" oldbrk "?hi - 1"] None k(1) le_minus_one64 [of ?hi k]
        by (simp add: find_law_def)
    next
      case (Some q)
      then obtain i where i: "oldbrk \<le> i" "entry_at (index E) s i = Some q"
        and no: "\<And>k. oldbrk \<le> k \<Longrightarrow> k < i \<Longrightarrow> entry_at (index E) s k = None"
        using maple_find [OF M, of "tree s" oldbrk "?hi - 1"] by (auto simp: find_law_def)
      have "newbrk + 4096 \<le> vm_start (vma_at s q)" using near Some g(1) [of "vma_at s q"] ps by (auto intro: order_trans)
      moreover have "vm_start (vma_at s q) \<le> i" using mm_wfD(3) [OF mm_ok_wf [OF ok] i(2), of i] i(2) by simp
      moreover have "k < newbrk + 4096" using k(2) mid by (simp add: word_less_nat_alt)
      ultimately show ?thesis using no [OF k(1)] by (meson less_le_trans)
    qed
    let ?v = "fst (mas_prev (index E) (tree s) oldbrk (start_brk (cur_mm s)))"
    have v: "p \<in> mapped (index E) s" if "?v = Some p" for p
    proof -
      obtain a j where a: "mas_prev (index E) (tree s) oldbrk (start_brk (cur_mm s)) = (a, j)" by fastforce
      with that have "mas_prev (index E) (tree s) oldbrk (start_brk (cur_mm s)) = (Some p, j)" by simp
      from prev_Some(3) [OF M this] show ?thesis by (auto simp: mapped_def)
    qed
    obtain y w where y: "do_brk_flags E ?v oldbrk (newbrk - oldbrk) 0 s = (y, w)" by fastforce
    have sum: "oldbrk + (newbrk - oldbrk) = newbrk" by simp
    note o = do_brk_flags_spec [OF u(2) fr ok al(2), of "newbrk - oldbrk", unfolded sum, OF al(1) lt free v y]
    have res: "brk_grow E b newbrk oldbrk s = Some (case y of Inl _ \<Rightarrow> (False, w) | Inr _ \<Rightarrow> (True, set_brk b w))"
      using c(1) True y near by (simp add: brk_grow_def Let_def split: sum.splits)
    show thesis
    proof (cases y)
      case (Inl e)
      then have "same_mm w s" using o by simp
      then show thesis using res Inl ok mm_ok_same [of w s E] by (intro that [of False w]) simp_all
    next
      case (Inr z)
      then have w: "mm_ok E w" "heap_added E oldbrk newbrk (heap_flags E s 0) s w" using o by auto
      have "heap_added E oldbrk newbrk (heap_flags E s 0) (set_brk b s) (set_brk b w)"
        using w(2) by (simp add: heap_added_def seen_def set_brk_same fun_eq_iff) (simp add: set_brk_def)
      then show thesis using res Inr w(1) lt top
        by (intro that [of True "set_brk b w"]) (simp_all add: set_brk_same)
    qed
  qed
qed


text \<open>The system call.  \<open>brk_done\<close> and \<open>brk_failed\<close> are its two outcomes.\<close>

definition brk_done :: "('t, 'a) brk_env_scheme \<Rightarrow> u64 \<Rightarrow> u64 \<Rightarrow> u64 \<Rightarrow> 't mm_state \<Rightarrow> 't mm_state \<Rightarrow> bool" where
  "brk_done E b newbrk oldbrk s t \<longleftrightarrow>
     brk (cur_mm t) = b \<and> start_brk (cur_mm t) = start_brk (cur_mm s) \<and>
     (if oldbrk \<le> newbrk
      then seen E t = (\<lambda>x. if oldbrk \<le> x \<and> x < newbrk
             then Some (None, drop_bit 12 oldbrk + drop_bit 12 (x - oldbrk), heap_flags E s 0 AND NOT (cst E VM_SOFTDIRTY))
             else seen E s x) \<and>
           total_vm (cur_mm t) = total_vm (cur_mm s) + drop_bit 12 (newbrk - oldbrk)
      else view E t = (\<lambda>x. if newbrk \<le> x \<and> x < oldbrk then None else view E s x) \<and>
           total_vm (cur_mm t) = total_vm (cur_mm s) - count_vma_pages_range E s newbrk oldbrk)"

definition brk_failed :: "('t, 'a) mm_env_scheme \<Rightarrow> 't mm_state \<Rightarrow> 't mm_state \<Rightarrow> bool" where
  "brk_failed E s t \<longleftrightarrow> view E t = view E s \<and> brk (cur_mm t) = brk (cur_mm s) \<and>
     total_vm (cur_mm t) = total_vm (cur_mm s)"

lemma request_same:
  assumes "is_request_accepted L p r s = (x, t)"
  shows "same_mm t s"
proof -
  have "t = snd (is_request_accepted L p r s)" using assms by simp
  with request_state [of L p r s] show ?thesis by auto
qed

lemma heap_flags_same: "same_mm s t \<Longrightarrow> heap_flags E s f = heap_flags E t f"
  by (simp add: heap_flags_def same_mm_def)

lemma brk_done_same:
  assumes "brk_done E b n old u t" "same_mm u s"
  shows "brk_done E b n old s t"
proof -
  note d = same_mmD [OF assms(2)]
  have v: "view E u = view E s" by (rule view_same [OF assms(2)])
  have "count_vma_pages_range E u x y = count_vma_pages_range E s x y" for x y
    by (simp add: count_vma_pages_range_def d)
  then show ?thesis
    using assms(1) unfolding brk_done_def v seen_view [OF v] heap_flags_same [OF assms(2), of E 0] d by simp
qed

lemma brk_done_after:
  assumes "brk_done E b n old s u" "same_mm t u"
  shows "brk_done E b n old s t"
  using assms(1) view_same [OF assms(2), of E] seen_view [OF view_same [OF assms(2), of E]] same_mmD(2) [OF assms(2)]
  unfolding brk_done_def by simp

lemma view_emit: "view E (emit e s) = view E s"
  by (rule view_same) simp

lemma brk_failed_out:
  assumes "mm_ok E u" "view E u = view E s" "total_vm (cur_mm u) = total_vm (cur_mm s)"
  shows "mm_ok E (emit e (set_brk (brk (cur_mm s)) u)) \<and> brk_failed E s (emit e (set_brk (brk (cur_mm s)) u))"
proof -
  let ?t = "set_brk (brk (cur_mm s)) u"
  have e: "same_mm (emit e ?t) ?t" by simp
  show ?thesis
    using mm_ok_same [OF e, of E] view_same [OF e, of E] same_mmD(2) [OF e] assms
    by (simp add: brk_failed_def set_brk_same)
qed

text \<open>The body with the lock held, and how it ends.\<close>

definition brk_body ::
  "('t, 'a) brk_env_scheme \<Rightarrow> u64 \<Rightarrow> u64 \<Rightarrow> u64 \<Rightarrow> 't mm_state \<Rightarrow> (bool \<times> 't mm_state) option" where
  "brk_body E b newbrk oldbrk s =
     (if oldbrk = newbrk then Some (True, set_brk b s)
      else if b \<le> brk (cur_mm s) then Some (brk_shrink E b newbrk oldbrk s)
      else brk_grow E b newbrk oldbrk s)"

lemma brk_body_spec:
  fixes E :: "('t, 'a) brk_env_scheme"
  assumes E: "brk_env_ok E" and P: "searches_in E P s" and ok: "mm_ok E s"
    and al: "4096 dvd unat newbrk" "4096 dvd unat oldbrk"
    and no: "b \<le> brk (cur_mm s) \<Longrightarrow> newbrk \<le> oldbrk"
  obtains x t where "brk_body E b newbrk oldbrk s = Some (x, t)" "mm_ok E t"
    "x \<Longrightarrow> brk_done E b newbrk oldbrk s t"
    "\<not> x \<Longrightarrow> view E t = view E s \<and> total_vm (cur_mm t) = total_vm (cur_mm s)"
proof -
  consider "oldbrk = newbrk" | "oldbrk \<noteq> newbrk" "b \<le> brk (cur_mm s)" | "oldbrk \<noteq> newbrk" "\<not> b \<le> brk (cur_mm s)"
    by blast
  then show thesis
  proof cases
    case 1
    have v: "view E (set_brk b s) = view E s" by (rule set_brk_same)
    have "brk_done E b newbrk oldbrk s (set_brk b s)"
      using 1 unfolding brk_done_def by (auto simp: set_brk_same seen_view [OF v] fun_eq_iff)
    with 1 ok show thesis by (intro that [of True "set_brk b s"]) (simp_all add: brk_body_def set_brk_same)
  next
    case 2
    then have lt: "newbrk < oldbrk" using no by simp
    obtain x t where x: "brk_shrink E b newbrk oldbrk s = (x, t)" by fastforce
    have u: "unmap_env_ok E" using E by (simp add: brk_env_ok_def)
    note o = brk_shrink_spec [OF u ok al lt x]
    have "\<not> oldbrk \<le> newbrk" using lt by simp
    then show thesis
      by (intro that [of x t]) (use 2 x o in \<open>simp_all add: brk_body_def brk_done_def split: if_splits\<close>)
  next
    case 3
    obtain x t where o: "brk_grow E b newbrk oldbrk s = Some (x, t)" "mm_ok E t"
      "x \<Longrightarrow> oldbrk < newbrk \<and> newbrk \<le> cst E TASK_SIZE \<and> brk (cur_mm t) = b \<and>
        heap_added E oldbrk newbrk (heap_flags E s 0) (set_brk b s) t"
      "\<not> x \<Longrightarrow> same_mm t s"
      using brk_grow_spec [OF E P ok al] 3(1) by metis
    have v: "view E (set_brk b s) = view E s" by (rule set_brk_same)
    show thesis
    proof (rule that [of x t])
      show "brk_body E b newbrk oldbrk s = Some (x, t)" using 3 o(1) by (simp add: brk_body_def)
      show "mm_ok E t" by (rule o(2))
      show "brk_done E b newbrk oldbrk s t" if x
        using o(3) [OF that] unfolding brk_done_def heap_added_def set_brk_same seen_view [OF v]
        by (simp add: less_imp_le)
      show "view E t = view E s \<and> total_vm (cur_mm t) = total_vm (cur_mm s)" if "\<not> x"
        using view_same [OF o(4) [OF that], of E] same_mmD(2) [OF o(4) [OF that]] by simp
    qed
  qed
qed

definition brk_rejects :: "('t, 'a) brk_env_scheme \<Rightarrow> 't mm_state \<Rightarrow> u64 \<Rightarrow> bool" where
  "brk_rejects E s b \<longleftrightarrow> b < min_brk E s \<or>
     check_data_rlimit E (rlimit_data E) b (start_brk (cur_mm s)) (end_data (cur_mm s)) (start_data (cur_mm s))"

text \<open>The call, through its body: the lock, the tests, the admission test, and the end.\<close>

lemma sys_brk_eq:
  fixes E :: "('t, 'a) brk_env_scheme"
  assumes k: "\<not> write_lock_killed E s" and req: "is_request_accepted (limits E) (current_pid E)
      (PAGE_ALIGN E b - PAGE_ALIGN E (brk (cur_mm s))) (emit (Lock Mmap_write_lock) s) = (x, u)"
  shows "\<exists>es. (\<forall>s. same_mm (es s) s) \<and> sys_brk E b s =
     (if brk_rejects E s b \<or> \<not> x
      then Some (brk (cur_mm s), emit (Unlock Mmap_write_lock) (set_brk (brk (cur_mm s))
             (if brk_rejects E s b then emit (Lock Mmap_write_lock) s else u)))
      else (case brk_body E b (PAGE_ALIGN E b) (PAGE_ALIGN E (brk (cur_mm s))) u of
          None \<Rightarrow> None
        | Some (False, t) \<Rightarrow> Some (brk (cur_mm s), emit (Unlock Mmap_write_lock) (set_brk (brk (cur_mm s)) t))
        | Some (True, t) \<Rightarrow> Some (b, es t)))"
proof -
  let ?old = "PAGE_ALIGN E (brk (cur_mm s))" and ?new = "PAGE_ALIGN E b"
  let ?es = "\<lambda>t. if ?old = ?new then emit Uffd_unmap_complete (emit (Unlock Mmap_write_lock) t)
     else if b \<le> brk (cur_mm s) then emit Uffd_unmap_complete t
     else let s = emit Uffd_unmap_complete (emit (Unlock Mmap_write_lock) t) in
       if def_flags (cur_mm t) AND cst E VM_LOCKED \<noteq> 0 then emit (Populate ?old (?new - ?old)) s else s"
  have u: "cur_mm u = cur_mm s" using same_mmD(2) [OF request_same [OF req]] by simp
  have min_brk_emit: "min_brk E (emit e s) = min_brk E s" for e by (simp add: min_brk_def)
  have same: "\<forall>s. same_mm (?es s) s" by (simp add: Let_def)
  have "sys_brk E b s =
     (if brk_rejects E s b \<or> \<not> x
      then Some (brk (cur_mm s), emit (Unlock Mmap_write_lock) (set_brk (brk (cur_mm s))
             (if brk_rejects E s b then emit (Lock Mmap_write_lock) s else u)))
      else (case brk_body E b ?new ?old u of
          None \<Rightarrow> None
        | Some (False, t) \<Rightarrow> Some (brk (cur_mm s), emit (Unlock Mmap_write_lock) (set_brk (brk (cur_mm s)) t))
        | Some (True, t) \<Rightarrow> Some (b, ?es t)))"
  proof (cases "brk_rejects E s b")
    case True
    then show ?thesis using k
      by (cases "b < min_brk E s") (simp_all add: sys_brk_def Let_def brk_rejects_def min_brk_emit)
  next
    case False
    then have n: "\<not> b < min_brk E (emit (Lock Mmap_write_lock) s)"
      "\<not> check_data_rlimit E (rlimit_data E) b (start_brk (cur_mm s)) (end_data (cur_mm s)) (start_data (cur_mm s))"
      by (simp_all add: brk_rejects_def min_brk_emit)
    show ?thesis
    proof (cases x)
      case f: False
      then show ?thesis using k n req False by (simp add: sys_brk_def Let_def)
    next
      case True
      have "sys_brk E b s =
        (if ?old = ?new then
             Some (b, emit Uffd_unmap_complete (emit (Unlock Mmap_write_lock) (set_brk b u)))
         else if b \<le> brk (cur_mm s) then
             (case brk_shrink E b ?new ?old u of
                (False, s') \<Rightarrow> Some (brk (cur_mm s), emit (Unlock Mmap_write_lock) (set_brk (brk (cur_mm s)) s'))
              | (True, s) \<Rightarrow> Some (b, emit Uffd_unmap_complete s))
         else
             (case brk_grow E b ?new ?old u of
                None \<Rightarrow> None
              | Some (False, s') \<Rightarrow> Some (brk (cur_mm s), emit (Unlock Mmap_write_lock) (set_brk (brk (cur_mm s)) s'))
              | Some (True, s) \<Rightarrow> Some (b, es0 s)))" if "es0 = (\<lambda>t. let s = emit Uffd_unmap_complete (emit (Unlock Mmap_write_lock) t) in
           if def_flags (cur_mm t) AND cst E VM_LOCKED \<noteq> 0 then emit (Populate ?old (?new - ?old)) s else s)" for es0
        using k n req True that by (simp add: sys_brk_def Let_def split: option.split bool.split prod.split)
      then show ?thesis using True False u by (simp add: brk_body_def split: option.split bool.split prod.split)
    qed
  qed
  with same show ?thesis by (intro exI [of _ ?es] conjI)
qed

lemma sys_brk_spec:
  fixes E :: "('t, 'a) brk_env_scheme"
  assumes E: "brk_env_ok E" and P: "searches_in E P s" and ok: "mm_ok E s"
    and top: "brk (cur_mm s) \<le> cst E TASK_SIZE"
  obtains r t where "sys_brk E b s = Some (r, t)" "mm_ok E t"
    "r = b \<and> brk_done E b (PAGE_ALIGN E b) (PAGE_ALIGN E (brk (cur_mm s))) s t \<or>
     (r = brk (cur_mm s) \<or> r = err EINTR) \<and> brk_failed E s t"
proof (cases "write_lock_killed E s")
  case True
  then show thesis using ok by (intro that [of "err EINTR" s]) (simp_all add: sys_brk_def brk_failed_def)
next
  case False
  let ?orig = "brk (cur_mm s)"
  let ?new = "PAGE_ALIGN E b" and ?old = "PAGE_ALIGN E ?orig"
  have H: "hdr_ok E" and room: "unat (cst E TASK_SIZE) + 4096 < 2 ^ 64"
    using E by (auto simp: brk_env_ok_def unmap_env_ok_def env_hdr)
  have ob: "unat ?orig + 4095 < 2 ^ 64" using top room by (simp add: word_le_nat_alt)
  have no: "?new \<le> ?old" if "b \<le> ?orig"
  proof -
    have "unat b \<le> unat ?orig" using that by (simp add: word_le_nat_alt)
    moreover from this have bb: "unat b + 4095 < 2 ^ 64" using ob by linarith
    ultimately show ?thesis
      unfolding word_le_nat_alt PAGE_ALIGN_unat [OF H ob] PAGE_ALIGN_unat [OF H bb]
      by (intro mult_le_mono1 div_le_mono) simp
  qed
  obtain x u where req: "is_request_accepted (limits E) (current_pid E) (?new - ?old) (emit (Lock Mmap_write_lock) s) = (x, u)"
    by fastforce
  have us: "same_mm u s" using request_same [OF req] by (simp add: same_mm_def emit_def)
  from sys_brk_eq [OF False req] obtain es where es: "\<forall>s. same_mm (es s) s"
    and eq: "sys_brk E b s = (if brk_rejects E s b \<or> \<not> x
      then Some (?orig, emit (Unlock Mmap_write_lock) (set_brk ?orig
             (if brk_rejects E s b then emit (Lock Mmap_write_lock) s else u)))
      else (case brk_body E b ?new ?old u of
          None \<Rightarrow> None
        | Some (False, t) \<Rightarrow> Some (?orig, emit (Unlock Mmap_write_lock) (set_brk ?orig t))
        | Some (True, t) \<Rightarrow> Some (b, es t)))" by blast
  note give = that
  have out: thesis if "sys_brk E b s = Some (?orig, emit (Unlock Mmap_write_lock) (set_brk ?orig w))"
    "mm_ok E w" "view E w = view E s" "total_vm (cur_mm w) = total_vm (cur_mm s)" for w
    by (rule give [OF that(1)]) (use brk_failed_out [OF that(2-4)] in simp_all)
  show thesis
  proof (cases "brk_rejects E s b \<or> \<not> x")
    case True
    let ?w = "if brk_rejects E s b then emit (Lock Mmap_write_lock) s else u"
    have w: "same_mm ?w s" using us by simp
    show thesis
      by (rule out [of ?w]) (use True eq ok mm_ok_same [OF w, of E] view_same [OF w, of E] same_mmD(2) [OF w] in simp_all)
  next
    case False
    have P': "searches_in E P u" and ok': "mm_ok E u" and no': "b \<le> brk (cur_mm u) \<Longrightarrow> ?new \<le> ?old"
      using P searches_in_same [OF us] ok mm_ok_same [OF us] no same_mmD(2) [OF us] by auto
    obtain y t where y: "brk_body E b ?new ?old u = Some (y, t)" "mm_ok E t"
      "y \<Longrightarrow> brk_done E b ?new ?old u t" "\<not> y \<Longrightarrow> view E t = view E u \<and> total_vm (cur_mm t) = total_vm (cur_mm u)"
      using brk_body_spec [OF E P' ok' PAGE_ALIGN_aligned [OF H] PAGE_ALIGN_aligned [OF H] no'] by blast
    show thesis
    proof (cases y)
      case True
      have e: "same_mm (es t) t" using es by blast
      have "brk_done E b ?new ?old s t" by (rule brk_done_same [OF y(3) [OF True] us])
      then have "brk_done E b ?new ?old s (es t)" by (rule brk_done_after [OF _ e])
      with True False show thesis using eq y(1,2) mm_ok_same [OF e, of E] by (intro that [of b "es t"]) simp_all
    next
      case n: False
      show thesis
        by (rule out [of t])
          (use n False eq y view_same [OF us, of E] same_mmD(2) [OF us] in simp_all)
    qed
  qed
qed

end
