(* ===== verification/Brk_Props.thy ===== *)
theory Brk_Props
  imports Brk_Spec
begin

text \<open>
  The properties of \<open>brk\<close>: it moves the break or changes nothing, growing respects the limit of
  the process, and the admission test can refuse a shrink; with runs on a small process.
\<close>

section \<open>The admission test and the limit of the process\<close>

text \<open>The current process is found by its id, and its address space is the one of the state.\<close>

definition current_task_found :: "('t, 'a) brk_env_scheme \<Rightarrow> 't mm_state \<Rightarrow> bool" where
  "current_task_found E s \<longleftrightarrow> lim_page_shift (limits E) = 12 \<and>
     (case find_task_by_vpid (limits E) s (current_pid E) of None \<Rightarrow> False | Some tsk \<Rightarrow> task_mm tsk = Some (cur_mm s))"

lemma current_usage:
  "current_task_found E s \<Longrightarrow> usage_of (limits E) (current_pid E) s = Some (Some (push_bit 12 (total_vm (cur_mm s))))"
  by (auto simp: current_task_found_def usage_of_def split: option.splits)

lemma limited_request:
  assumes "current_task_found E s" "limits_of s (current_pid E) = Some L"
  shows "fst (is_request_accepted (limits E) (current_pid E) r s) \<longleftrightarrow> push_bit 12 (total_vm (cur_mm s)) + r \<le> L"
  using assms by (simp add: request_eq current_usage)

lemma brk_changed:
  fixes E :: "('t, 'a) brk_env_scheme"
  assumes r: "sys_brk E b s = Some (r, t)" and ch: "brk (cur_mm t) \<noteq> brk (cur_mm s)"
  shows "fst (is_request_accepted (limits E) (current_pid E) (PAGE_ALIGN E b - PAGE_ALIGN E (brk (cur_mm s)))
     (emit (Lock Mmap_write_lock) s))"
proof -
  have k: "\<not> write_lock_killed E s" using r ch by (auto simp: sys_brk_def)
  obtain x u where req: "is_request_accepted (limits E) (current_pid E)
      (PAGE_ALIGN E b - PAGE_ALIGN E (brk (cur_mm s))) (emit (Lock Mmap_write_lock) s) = (x, u)" by fastforce
  show ?thesis
  proof (rule ccontr)
    assume "\<not> ?thesis"
    with req have "\<not> x" by simp
    with sys_brk_eq [OF k req] r have "brk (cur_mm t) = brk (cur_mm s)" by (auto simp: set_brk_def)
    with ch show False ..
  qed
qed

lemma pages_of_aligned:
  fixes d :: u64
  assumes "4096 dvd unat d"
  shows "unat (drop_bit 12 d) * 4096 = unat d"
  using assms by (simp add: drop_bit_eq_div unat_div)

text \<open>
  C33: a system call \<open>brk\<close> always returns: the search for an area ends.  It keeps the invariant of
  the memory manager, and it ends in one of two ways.  It returns the new break, and then the
  break is moved and exactly the pages between the old and the new break, rounded up to pages,
  are mapped as anonymous heap memory (growing) or unmapped (shrinking), with \<open>total_vm\<close>
  following.  Or it returns the old break or \<open>-EINTR\<close>, and then the mapped memory, the break and \<open>total_vm\<close> are
  what they were, also when a shrink fails after the break was already moved.
\<close>

theorem brk_moves_break:
  fixes E :: "('t, 'a) brk_env_scheme"
  assumes "brk_env_ok E" and "searches_in E P s" and "mm_ok E s"
    and "brk (cur_mm s) \<le> cst E TASK_SIZE"
  shows "\<exists>r t. sys_brk E b s = Some (r, t) \<and> mm_ok E t \<and>
    (r = b \<and> brk_done E b (PAGE_ALIGN E b) (PAGE_ALIGN E (brk (cur_mm s))) s t \<or>
     (r = brk (cur_mm s) \<or> r = err EINTR) \<and> brk_failed E s t)"
  by (rule sys_brk_spec [OF assms, of b]) blast

text \<open>
  C34: the admission test does what it is there for: when a limited process moves its break up,
  all the memory it has mapped afterwards, heap and the rest, is within its limit.  (The
  sum of usage and request must not exceed 64 bits.)
\<close>

theorem brk_respects_limit:
  fixes E :: "('t, 'a) brk_env_scheme"
  assumes "brk_env_ok E" and "searches_in E P s" and "mm_ok E s"
    and "brk (cur_mm s) \<le> cst E TASK_SIZE"
    and "current_task_found E (emit (Lock Mmap_write_lock) s)"
    and "limits_of s (current_pid E) = Some L"
    and "unat (total_vm (cur_mm s)) * 4096 + unat (PAGE_ALIGN E b - PAGE_ALIGN E (brk (cur_mm s))) < 2 ^ 64"
    and "sys_brk E b s = Some (r, t)" and "brk (cur_mm t) \<noteq> brk (cur_mm s)"
    and "PAGE_ALIGN E (brk (cur_mm s)) \<le> PAGE_ALIGN E b"
  shows "unat (total_vm (cur_mm t)) * 4096 \<le> unat L"
proof -
  let ?d = "PAGE_ALIGN E b - PAGE_ALIGN E (brk (cur_mm s))" and ?n = "total_vm (cur_mm s)"
  have H: "hdr_ok E" using assms(1) by (simp add: brk_env_ok_def unmap_env_ok_def env_hdr)
  have sub: "unat ?d = unat (PAGE_ALIGN E b) - unat (PAGE_ALIGN E (brk (cur_mm s)))"
    using assms(10) by (simp add: unat_sub)
  have al: "4096 dvd unat ?d"
    unfolding sub by (intro dvd_diff_nat PAGE_ALIGN_aligned [OF H])
  have "fst (is_request_accepted (limits E) (current_pid E) ?d (emit (Lock Mmap_write_lock) s))"
    by (rule brk_changed [OF assms(8,9)])
  moreover have "limits_of (emit (Lock Mmap_write_lock) s) (current_pid E) = Some L" using assms(6) by simp
  ultimately have le: "push_bit 12 ?n + ?d \<le> L" using limited_request [OF assms(5), of L ?d] by simp
  have un: "unat (push_bit 12 ?n) = unat ?n * 4096"
    using assms(7) by (simp add: push_bit_eq_mult unat_word_ariths)
  obtain r' t' where o: "sys_brk E b s = Some (r', t')"
    "r' = b \<and> brk_done E b (PAGE_ALIGN E b) (PAGE_ALIGN E (brk (cur_mm s))) s t' \<or> brk_failed E s t'"
    by (rule sys_brk_spec [OF assms(1-4), of b]) blast
  then have t: "total_vm (cur_mm t) = ?n + drop_bit 12 ?d"
    using assms(8-10) by (auto simp: brk_done_def brk_failed_def)
  have "unat (total_vm (cur_mm t)) * 4096 \<le> (unat ?n + unat (drop_bit 12 ?d)) * 4096"
    unfolding t by (simp add: unat_word_ariths)
  also have "\<dots> = unat (push_bit 12 ?n) + unat ?d"
    using pages_of_aligned [OF al] by (simp add: un add_mult_distrib)
  also have "\<dots> = unat (push_bit 12 ?n + ?d)"
    using assms(7) un by (simp add: unat_add_nowrap)
  also have "\<dots> \<le> unat L" using le by (simp add: word_le_nat_alt)
  finally show ?thesis .
qed

text \<open>
  C35: shrinking is not always allowed, whatever the comment in the code says: the admission test comes
  first and takes the wrapped difference \<open>newbrk - oldbrk\<close>, so a process whose usage would
  still be above its limit after the shrink (its limit was lowered meanwhile) has the
  shrink refused: its break and its mappings stay.
\<close>

theorem brk_shrink_refused:
  fixes E :: "('t, 'a) brk_env_scheme"
  assumes "\<not> write_lock_killed E s"
    and "current_task_found E (emit (Lock Mmap_write_lock) s)"
    and "limits_of s (current_pid E) = Some L"
    and "PAGE_ALIGN E b \<le> PAGE_ALIGN E (brk (cur_mm s))"
    and "PAGE_ALIGN E (brk (cur_mm s)) - PAGE_ALIGN E b \<le> push_bit 12 (total_vm (cur_mm s))"
    and "L < push_bit 12 (total_vm (cur_mm s)) - (PAGE_ALIGN E (brk (cur_mm s)) - PAGE_ALIGN E b)"
  shows "\<exists>t. sys_brk E b s = Some (brk (cur_mm s), t) \<and> brk_failed E s t"
proof -
  let ?d = "PAGE_ALIGN E b - PAGE_ALIGN E (brk (cur_mm s))" and ?n = "total_vm (cur_mm s)"
  obtain x u where req: "is_request_accepted (limits E) (current_pid E) ?d (emit (Lock Mmap_write_lock) s) = (x, u)"
    by fastforce
  have "limits_of (emit (Lock Mmap_write_lock) s) (current_pid E) = Some L" using assms(3) by simp
  then have "x = (push_bit 12 ?n + ?d \<le> L)" using limited_request [OF assms(2), of L ?d] req by simp
  also have "push_bit 12 ?n + ?d = push_bit 12 ?n - (PAGE_ALIGN E (brk (cur_mm s)) - PAGE_ALIGN E b)" by simp
  finally have "\<not> x" using assms(6) by (simp only: not_le)
  moreover have "same_mm u s" using request_same [OF req] by (simp add: same_mm_def)
  ultimately show ?thesis
    using sys_brk_eq [OF assms(1) req] view_same [of u s E] same_mmD(2) [of u s]
    by (auto simp: brk_failed_def set_brk_same view_emit)
qed

section \<open>Concrete runs\<close>

definition x86_limits :: "(wlog mm_state, wlog) limit_env" where
  "x86_limits = \<lparr>find_task_by_vpid = (\<lambda>s p. if p = 7 then Some \<lparr>task_mm = Some (cur_mm s)\<rparr> else None),
     capable_sys_admin = (\<lambda>s. True), kmalloc_entry = (\<lambda>s. True), kmalloc_array_limits = (\<lambda>s n. True),
     copy_limits_to_user = (\<lambda>s u l. 0), put_user_count = (\<lambda>s u c. False), lim_page_shift = 12\<rparr>"

definition x86_brk :: "wlog brk_env" where
  "x86_brk = unmap_env.extend x86_unmap (brk_env.fields x86_limits 7 False False (\<lambda>a b c d e. False) blank_vma)"

lemma x86_brk_sel [simp]:
  "index x86_brk = log_maple" "cst x86_brk = x86_cst" "PAGE_SHIFT x86_brk = 12"
  "PAGE_ALIGN x86_brk = (\<lambda>x. (x + 4095) AND - 4096)" "offset_in_page x86_brk = (\<lambda>x. x AND 4095)"
  "IS_ERR_VALUE x86_brk = (\<lambda>x. - 4095 \<le> x)" "stack_guard_gap x86_brk = 0x100000"
  "vm_start_gap x86_brk = x86_start_gap" "vm_end_gap x86_brk = vm_end" "vma_alloc x86_brk = first_free"
  "vma_pages x86_brk = (\<lambda>v. drop_bit 12 (vm_end v - vm_start v))"
  "write_lock_killed x86_brk = (\<lambda>s. False)" "arch_unmap x86_brk = (\<lambda>a b s. s)" "untagged_addr x86_brk = (\<lambda>a. a)"
  "arch_mmap_check x86_brk = (\<lambda>a n f. 0)" "security_mmap_addr x86_brk = (\<lambda>a. 0)" "mmap_min_addr x86_brk = 0x10000"
  "mm_get_unmapped_area x86_brk = generic_get_unmapped_area_topdown (x86_areas (\<lambda>s f a n p f. None))"
  "shmem_get_unmapped_area x86_brk = generic_get_unmapped_area_topdown (x86_areas (\<lambda>s f a n p f. None))"
  "transparent_hugepage x86_brk = False" "limits x86_brk = x86_limits" "current_pid x86_brk = 7" "fresh_vma x86_brk = blank_vma"
  by (simp_all add: x86_brk_def unmap_env.extend_def brk_env.fields_def)
    (simp_all add: x86_unmap_def area_env.extend_def unmap_env.fields_def x86_areas_def mm_env.extend_def
      area_env.fields_def x86_env_def hdr.extend_def mm_env.fields_def x86_hdr_def)

lemma x86_brk_ok [simp]: "env_ok x86_brk" "unmap_env_ok x86_brk" "brk_env_ok x86_brk"
proof -
  show e: "env_ok x86_brk"
    by (auto simp: env_ok_def hdr_ok_def gaps_ok_def first_free_fresh x86_start_gap_le) (simp add: x86_start_gap_def)
  then show u: "unmap_env_ok x86_brk" by (simp add: unmap_env_ok_def)
  then show "brk_env_ok x86_brk" by (simp add: brk_env_ok_def blank_vma_def)
qed

text \<open>The demonstration process with a limit of \<open>L\<close> bytes; it uses 7 pages.\<close>

definition demo_limited :: "u64 \<Rightarrow> wlog mm_state" where
  "demo_limited L = demo_mms\<lparr>memory_list := [\<lparr>lim_pid = 7, memory_limit = L\<rparr>]\<rparr>"

lemma demo_limited_sel [simp]:
  "cur_mm (demo_limited L) = Mm_Demo.demo_mm" "vmas (demo_limited L) = vmas demo_mms" "trace (demo_limited L) = []"
  "limits_of (demo_limited L) 7 = Some L"
  by (simp_all add: demo_limited_def demo_mms_def limits_of_def)

lemma demo_limited_ok:
  "mm_ok x86_brk (demo_limited L)" "searches_in x86_brk (x86_areas (\<lambda>s f a n p f. None)) (demo_limited L)"
  "current_task_found x86_brk (emit e (demo_limited L))"
  "brk Mm_Demo.demo_mm = 0x603000" "total_vm Mm_Demo.demo_mm = 7"
proof -
  have m: "cur_mm (demo_limited L) = cur_mm demo_mms" "vmas (demo_limited L) = vmas demo_mms"
    by (simp_all add: demo_mms_def)
  have "mm_ok x86_brk Mm_Demo.demo_mms" by simp
  then show "mm_ok x86_brk (demo_limited L)"
    unfolding mm_ok_def mm_wf_def count_ok_def vmas_aligned_def mapped_def vma_at_def m .
  have "area_state (x86_areas (\<lambda>s f a n p f. None)) demo_mms" by simp
  then have "area_state (x86_areas (\<lambda>s f a n p f. None)) (demo_limited L)"
    unfolding area_state_def guards_above_zero_def mm_wf_def mapped_def vma_at_def m .
  then show "searches_in x86_brk (x86_areas (\<lambda>s f a n p f. None)) (demo_limited L)"
    by (simp add: searches_in_def choose_area_def)
  show "current_task_found x86_brk (emit e (demo_limited L))"
    by (simp add: current_task_found_def x86_limits_def)
  show "brk Mm_Demo.demo_mm = 0x603000" "total_vm Mm_Demo.demo_mm = 7" by (simp_all add: Mm_Demo.demo_mm_def)
qed

theorem brk_moves_break_witness:
  "\<exists>r t. sys_brk x86_brk 0x605000 (demo_limited 0x9000) = Some (r, t) \<and> mm_ok x86_brk t \<and>
    (r = 0x605000 \<and> brk_done x86_brk 0x605000 0x605000 0x603000 (demo_limited 0x9000) t \<or>
     (r = 0x603000 \<or> r = err EINTR) \<and> brk_failed x86_brk (demo_limited 0x9000) t)"
  using brk_moves_break [OF x86_brk_ok(3) demo_limited_ok(2,1), of "0x9000" "0x605000"]
  by (simp add: demo_limited_ok(4))

theorem brk_shrink_refused_witness:
  "\<exists>t. sys_brk x86_brk 0x602000 (demo_limited 0x3000) = Some (0x603000, t) \<and> brk_failed x86_brk (demo_limited 0x3000) t"
  using brk_shrink_refused [of x86_brk "demo_limited 0x3000" "0x3000" "0x602000"] demo_limited_ok(3)
  by (simp add: demo_limited_ok(4,5))



lemma demo_grows:
  "map_option (\<lambda>(r, t). (r, brk (cur_mm t))) (sys_brk x86_brk 0x605000 (demo_limited 0x9000)) = Some (0x605000, 0x605000)"
  by code_simp

theorem brk_respects_limit_witness:
  "\<exists>r t. sys_brk x86_brk 0x605000 (demo_limited 0x9000) = Some (r, t) \<and> unat (total_vm (cur_mm t)) * 4096 \<le> 0x9000"
proof -
  obtain r t where r: "sys_brk x86_brk 0x605000 (demo_limited 0x9000) = Some (r, t)" and t: "brk (cur_mm t) = 0x605000"
    using demo_grows by auto
  have "unat (total_vm (cur_mm t)) * 4096 \<le> unat (0x9000 :: u64)"
    by (rule brk_respects_limit [OF x86_brk_ok(3) demo_limited_ok(2,1) _ demo_limited_ok(3) _ _ r])
      (simp_all add: demo_limited_ok(4,5) t)
  with r show ?thesis by auto
qed

end
