(* ===== verification/Stack.thy ===== *)
theory Stack
  imports Munmap_Props
begin

text \<open>
  Growing a stack: \<open>expand_upwards\<close>, \<open>expand_downwards\<close> and the functions that find the stack a fault
  belongs to and grow it.  Which direction a kernel supports is \<open>CONFIG_STACK_GROWSUP\<close>, the
  argument \<open>up\<close>.
\<close>

section \<open>Growing one mapping\<close>

text \<open>\<open>anon_vma_prepare\<close>: on success the mapping has an \<open>anon_vma\<close>, which is the result.\<close>

definition do_anon_vma_prepare ::
  "('t, 'a) mm_env_scheme \<Rightarrow> vptr \<Rightarrow> 't mm_state \<Rightarrow> nat option \<times> 't mm_state" where
  "do_anon_vma_prepare E p s =
     (case anon_vma_prepare E s p of
        None \<Rightarrow> (None, s)
      | Some (av, chain) \<Rightarrow>
          (Some av, emit (Anon_prepare p) (upd_vma p (\<lambda>v. v\<lparr>anon_vma := Some av, anon_vma_chain := chain\<rparr>) s)))"

text \<open>
  The part under the \<open>page_table_lock\<close>: accounting, the new boundary (\<open>move\<close>) and the store of the
  mapping over its new range.
\<close>

definition grow_commit ::
  "('t, 'a) mm_env_scheme \<Rightarrow> vptr \<Rightarrow> u64 \<Rightarrow> (vm_area_struct \<Rightarrow> vm_area_struct) \<Rightarrow> 't mm_state \<Rightarrow> 't mm_state" where
  "grow_commit E vma grow move s =
     (let s = emit (Lock Page_table_lock) s;
          s = (if flag E (vma_at s vma) VM_LOCKED
               then upd_mm (\<lambda>mm. mm\<lparr>locked_vm := locked_vm mm + grow\<rparr>) s else s);
          s = vm_stat_account E (vm_flags (vma_at s vma)) grow s;
          s = anon_vma_interval_tree_pre_update_vma vma s;
          s = upd_vma vma move s;
          s = vma_iter_store E vma s;
          s = anon_vma_interval_tree_post_update_vma vma s
      in emit (Perf_mmap vma) (emit (Unlock Page_table_lock) s))"

text \<open>The part under the lock of the \<open>anon_vma\<close>, in each direction.\<close>

definition grow_up ::
  "('t, 'a) mm_env_scheme \<Rightarrow> vptr \<Rightarrow> u64 \<Rightarrow> 't mm_state \<Rightarrow> (errno + unit) \<times> 't mm_state" where
  "grow_up E vma address s =
     (let v = vma_at s vma in
      if vm_end v < address then
        let sz = address - vm_start v;
            grow = drop_bit (PAGE_SHIFT E) (address - vm_end v)
        in if vm_pgoff v + drop_bit (PAGE_SHIFT E) sz < vm_pgoff v then (Inl ENOMEM, s)
           else
             (case acct_stack_growth E vma sz grow s of
                (Inl e, s) \<Rightarrow> (Inl e, s)
              | (Inr _, s) \<Rightarrow> (Inr (), grow_commit E vma grow (\<lambda>v. v\<lparr>vm_end := address\<rparr>) s))
      else (Inr (), s))"

definition grow_down ::
  "('t, 'a) mm_env_scheme \<Rightarrow> vptr \<Rightarrow> u64 \<Rightarrow> 't mm_state \<Rightarrow> (errno + unit) \<times> 't mm_state" where
  "grow_down E vma address s =
     (let v = vma_at s vma in
      if address < vm_start v then
        let sz = vm_end v - address;
            grow = drop_bit (PAGE_SHIFT E) (vm_start v - address)
        in if vm_pgoff v < grow then (Inl ENOMEM, s)
           else
             (case acct_stack_growth E vma sz grow s of
                (Inl e, s) \<Rightarrow> (Inl e, s)
              | (Inr _, s) \<Rightarrow>
                  (Inr (), grow_commit E vma grow (\<lambda>v. v\<lparr>vm_start := address, vm_pgoff := vm_pgoff v - grow\<rparr>) s))
      else (Inr (), s))"

text \<open>What both directions do once the guard gap is respected; \<open>grow\<close> is \<open>grow_up\<close> or \<open>grow_down\<close>.\<close>

definition grow_stack ::
  "('t, 'a) mm_env_scheme \<Rightarrow> (('t, 'a) mm_env_scheme \<Rightarrow> vptr \<Rightarrow> u64 \<Rightarrow> 't mm_state \<Rightarrow> (errno + unit) \<times> 't mm_state) \<Rightarrow>
     vptr \<Rightarrow> u64 \<Rightarrow> 't mm_state \<Rightarrow> (errno + unit) \<times> 't mm_state" where
  "grow_stack E grow vma address s =
     (if prealloc_fails E s then (Inl ENOMEM, s)
      else
        (case do_anon_vma_prepare E vma s of
           (None, s) \<Rightarrow> (Inl ENOMEM, s)
         | (Some av, s) \<Rightarrow>
             let s = emit (Vma_write vma) s;
                 s = emit (Lock (Anon_vma_lock av)) s;
                 (error, s) = grow E vma address s;
                 s = emit (Unlock (Anon_vma_lock av)) s
             in (error, emit (Khugepaged vma) s)))"

definition expand_upwards ::
  "('t, 'a) mm_env_scheme \<Rightarrow> vptr \<Rightarrow> u64 \<Rightarrow> 't mm_state \<Rightarrow> (errno + unit) \<times> 't mm_state" where
  "expand_upwards E vma address s =
     (if \<not> flag E (vma_at s vma) VM_GROWSUP then (Inl EFAULT, s)
      else
        let address = address AND cst E PAGE_MASK in
        if cst E TASK_SIZE AND cst E PAGE_MASK \<le> address then (Inl ENOMEM, s)
        else
          let address = address + cst E PAGE_SIZE;
              gap_addr = address + stack_guard_gap E;
              gap_addr = (if gap_addr < address \<or> cst E TASK_SIZE < gap_addr then cst E TASK_SIZE else gap_addr)
          in if (case find_vma_intersection E s (vm_end (vma_at s vma)) gap_addr of
                   None \<Rightarrow> False
                 | Some nxt \<Rightarrow> vma_is_accessible E (vma_at s nxt) \<and> \<not> flag E (vma_at s nxt) VM_GROWSUP)
             then (Inl ENOMEM, s)
             else grow_stack E grow_up vma address s)"

definition expand_downwards ::
  "('t, 'a) mm_env_scheme \<Rightarrow> vptr \<Rightarrow> u64 \<Rightarrow> 't mm_state \<Rightarrow> (errno + unit) \<times> 't mm_state" where
  "expand_downwards E vma address s =
     (if \<not> flag E (vma_at s vma) VM_GROWSDOWN then (Inl EFAULT, s)
      else
        let address = address AND cst E PAGE_MASK in
        if address < mmap_min_addr E \<or> address < cst E FIRST_USER_ADDRESS then (Inl EPERM, s)
        else if (case fst (mas_prev (index E) (tree s) (vm_start (vma_at s vma)) 0) of
                   None \<Rightarrow> False
                 | Some prev \<Rightarrow>
                     \<not> flag E (vma_at s prev) VM_GROWSDOWN \<and> vma_is_accessible E (vma_at s prev) \<and>
                     address - vm_end (vma_at s prev) < stack_guard_gap E)
        then (Inl ENOMEM, s)
        else grow_stack E grow_down vma address s)"

section \<open>Finding and growing the stack of an address\<close>

definition expand_stack_locked ::
  "('t, 'a) mm_env_scheme \<Rightarrow> bool \<Rightarrow> vptr \<Rightarrow> u64 \<Rightarrow> 't mm_state \<Rightarrow> (errno + unit) \<times> 't mm_state" where
  "expand_stack_locked E up vma address s =
     (if up then expand_upwards E vma address s else expand_downwards E vma address s)"

definition find_extend_up ::
  "('t, 'a) mm_env_scheme \<Rightarrow> u64 \<Rightarrow> 't mm_state \<Rightarrow> vptr option \<times> 't mm_state" where
  "find_extend_up E addr s =
     (let addr = addr AND cst E PAGE_MASK;
          (vma, prev) = find_vma_prev E s addr
      in case (case vma of None \<Rightarrow> None | Some p \<Rightarrow> if vm_start (vma_at s p) \<le> addr then Some p else None) of
           Some p \<Rightarrow> (Some p, s)
         | None \<Rightarrow>
             (case prev of
                None \<Rightarrow> (None, s)
              | Some q \<Rightarrow>
                  (case expand_stack_locked E True q addr s of
                     (Inl _, s) \<Rightarrow> (None, s)
                   | (Inr _, s) \<Rightarrow>
                       (Some q, if flag E (vma_at s q) VM_LOCKED
                          then emit (Populate addr (vm_end (vma_at s q) - addr)) s else s))))"

definition find_extend_down ::
  "('t, 'a) mm_env_scheme \<Rightarrow> u64 \<Rightarrow> 't mm_state \<Rightarrow> vptr option \<times> 't mm_state" where
  "find_extend_down E addr s =
     (let addr = addr AND cst E PAGE_MASK in
      case find_vma E s addr of
        None \<Rightarrow> (None, s)
      | Some p \<Rightarrow>
          if vm_start (vma_at s p) \<le> addr then (Some p, s)
          else
            let start = vm_start (vma_at s p) in
            (case expand_stack_locked E False p addr s of
               (Inl _, s) \<Rightarrow> (None, s)
             | (Inr _, s) \<Rightarrow>
                 (Some p, if flag E (vma_at s p) VM_LOCKED then emit (Populate addr (start - addr)) s else s)))"

definition find_extend_vma_locked ::
  "('t, 'a) mm_env_scheme \<Rightarrow> bool \<Rightarrow> u64 \<Rightarrow> 't mm_state \<Rightarrow> vptr option \<times> 't mm_state" where
  "find_extend_vma_locked E up addr s = (if up then find_extend_up E addr s else find_extend_down E addr s)"

text \<open>The macros \<open>vma_expand_up\<close> and \<open>vma_expand_down\<close>: the other direction is \<open>-EFAULT\<close>.\<close>

definition vma_expand_up ::
  "('t, 'a) mm_env_scheme \<Rightarrow> bool \<Rightarrow> vptr \<Rightarrow> u64 \<Rightarrow> 't mm_state \<Rightarrow> (errno + unit) \<times> 't mm_state" where
  "vma_expand_up E up vma addr s = (if up then expand_upwards E vma addr s else (Inl EFAULT, s))"

definition vma_expand_down ::
  "('t, 'a) mm_env_scheme \<Rightarrow> bool \<Rightarrow> vptr \<Rightarrow> u64 \<Rightarrow> 't mm_state \<Rightarrow> (errno + unit) \<times> 't mm_state" where
  "vma_expand_down E up vma addr s = (if up then (Inl EFAULT, s) else expand_downwards E vma addr s)"

text \<open>
  Called with the map locked for reading; on success it is again, with \<open>mmap_write_downgrade\<close>,
  otherwise it is not locked.
\<close>

definition expand_stack ::
  "('t, 'a) mm_env_scheme \<Rightarrow> bool \<Rightarrow> u64 \<Rightarrow> 't mm_state \<Rightarrow> vptr option \<times> 't mm_state" where
  "expand_stack E up addr s =
     (let s = emit (Unlock Mmap_read_lock) s in
      if write_lock_killed E s then (None, s)
      else
        let s = emit (Lock Mmap_write_lock) s;
            (vma, prev) = find_vma_prev E s addr
        in if (case vma of None \<Rightarrow> False | Some p \<Rightarrow> vm_start (vma_at s p) \<le> addr)
           then (vma, emit Mmap_downgrade s)
           else
             (case (case prev of None \<Rightarrow> (Inl EFAULT, s) | Some q \<Rightarrow> vma_expand_up E up q addr s) of
                (Inr _, s) \<Rightarrow> (prev, emit Mmap_downgrade s)
              | (Inl _, s) \<Rightarrow>
                  (case (case vma of None \<Rightarrow> (Inl EFAULT, s) | Some p \<Rightarrow> vma_expand_down E up p addr s) of
                     (Inr _, s) \<Rightarrow> (vma, emit Mmap_downgrade s)
                   | (Inl _, s) \<Rightarrow> (None, emit (Unlock Mmap_write_lock) s))))"

end
