(* ===== verification/Stack_Spec.thy ===== *)
theory Stack_Spec
  imports Stack
begin

text \<open>
  What growing a stack does to the address space: \<open>stack_grown\<close> is the change of the one mapping,
  \<open>guarded_below\<close> and \<open>guarded_above\<close> the guard gap that is kept, and \<open>stack_for\<close> what the functions that find
  and grow the stack of an address promise.
\<close>

section \<open>Growing one mapping\<close>

lemma stat_account_mm:
  "vmas (vm_stat_account E f n s) = vmas s" "tree (vm_stat_account E f n s) = tree s"
  "map_count (cur_mm (vm_stat_account E f n s)) = map_count (cur_mm s)"
  "total_vm (cur_mm (vm_stat_account E f n s)) = total_vm (cur_mm s) + n"
  by (simp_all add: vm_stat_account_def Let_def)

lemma grow_commit_spec:
  assumes E: "env_ok E" and p: "p \<in> mapped (index E) s" and lt: "vm_start w < vm_end w"
    and w: "w = move (vma_at s p)"
  shows "stores E p w {} s (grow_commit E p n move s)"
    "total_vm (cur_mm (grow_commit E p n move s)) = total_vm (cur_mm s) + n"
proof -
  define a where "a = anon_vma_interval_tree_pre_update_vma p (vm_stat_account E (vm_flags (vma_at s p)) n
     (if flag E (vma_at s p) VM_LOCKED
      then upd_mm (\<lambda>mm. mm\<lparr>locked_vm := locked_vm mm + n\<rparr>) (emit (Lock Page_table_lock) s) else emit (Lock Page_table_lock) s))"
  define b where "b = vma_iter_store E p (upd_vma p move a)"
  have t: "grow_commit E p n move s =
      emit (Perf_mmap p) (emit (Unlock Page_table_lock) (anon_vma_interval_tree_post_update_vma p b))"
    by (simp add: grow_commit_def Let_def a_def b_def split: if_splits)
  have a: "vmas a = vmas s" "tree a = tree s" "map_count (cur_mm a) = map_count (cur_mm s)"
    "total_vm (cur_mm a) = total_vm (cur_mm s) + n"
    by (simp_all add: a_def anon_vma_interval_tree_pre_update_vma_def stat_account_mm emits_def)
  have "vma_at a p = vma_at s p" by (simp add: vma_at_def a(1))
  then have b: "vmas b = (vmas s)(p \<mapsto> w)" "tree b = mt_store (index E) (tree s) (vm_start w) (vm_end w - 1) (Some p)"
    "map_count (cur_mm b) = map_count (cur_mm s)" "total_vm (cur_mm b) = total_vm (cur_mm s) + n"
    by (simp_all add: b_def vma_iter_store_def upd_vma_def a w)
  have "same_mm (grow_commit E p n move s) b" by (simp add: t)
  note d = same_mmD [OF this]
  show "stores E p w {} s (grow_commit E p n move s)"
    using p lt by (auto simp: stores_def d b maple_store [OF env_maple [OF E]] le_below_end)
  show "total_vm (cur_mm (grow_commit E p n move s)) = total_vm (cur_mm s) + n" by (simp add: d b)
qed

text \<open>
  The mapping \<open>p\<close> of \<open>s\<close> becomes \<open>w\<close>, a longer one that shows the same pages where \<open>p\<close> was, within the
  limit of the stack size; everything else stays.
\<close>

definition stack_grown ::
  "('t, 'a) mm_env_scheme \<Rightarrow> 't mm_state \<Rightarrow> vptr \<Rightarrow> vm_area_struct \<Rightarrow> 't mm_state \<Rightarrow> bool" where
  "stack_grown E s p w t \<longleftrightarrow>
     (let v = vma_at s p in
      vma_at t p = w \<and> vm_start w \<le> vm_start v \<and> vm_end v \<le> vm_end w \<and>
      (\<forall>k. vm_start v \<le> k \<longrightarrow> k < vm_end v \<longrightarrow> content w k = content v k) \<and>
      vm_file w = vm_file v \<and> vm_flags w = vm_flags v \<and> vm_page_prot w = vm_page_prot v \<and>
      view E t = (\<lambda>x. if vm_start w \<le> x \<and> x < vm_end w then Some (content w x) else view E s x) \<and>
      total_vm (cur_mm t) = total_vm (cur_mm s) + drop_bit 12 (vm_end w - vm_start w - (vm_end v - vm_start v)) \<and>
      vm_end w - vm_start w \<le> rlimit_stack E)"

lemma acct_ok:
  assumes "acct_stack_growth E p sz n s = (Inr x, t)"
  shows "sz \<le> rlimit_stack E" "same_mm t s"
  using assms by (auto simp: acct_stack_growth_def Let_def charge_memory_def split: if_splits)

lemma acct_fail:
  assumes "acct_stack_growth E p sz n s = (Inl e, t)"
  shows "t = s"
  using assms by (auto simp: acct_stack_growth_def Let_def charge_memory_def split: if_splits)

lemma grown:
  assumes E: "env_ok E" and ok: "mm_ok E s" and p: "p \<in> mapped (index E) s"
    and a: "acct_stack_growth E p (vm_end w - vm_start w) n s = (Inr x, u)"
    and w: "w = move (vma_at s p)" and t: "t = grow_commit E p n move u"
    and c: "covers E s (vm_start w) (vm_end w) p {}"
    and n: "n = drop_bit 12 (vm_end w - vm_start w - (vm_end (vma_at s p) - vm_start (vma_at s p)))"
    and lo: "vm_start w \<le> vm_start (vma_at s p)" and hi: "vm_end (vma_at s p) \<le> vm_end w"
    and k: "\<And>k. vm_start (vma_at s p) \<le> k \<Longrightarrow> k < vm_end (vma_at s p) \<Longrightarrow> content w k = content (vma_at s p) k"
    and f: "vm_file w = vm_file (vma_at s p)" "vm_flags w = vm_flags (vma_at s p)" "vm_page_prot w = vm_page_prot (vma_at s p)"
  shows "mm_ok E t \<and> stack_grown E s p w t"
proof -
  let ?v = "vma_at s p"
  note us = acct_ok(2) [OF a] and d = same_mmD [OF acct_ok(2) [OF a]]
  have pu: "p \<in> mapped (index E) u" using p by (simp add: mapped_def d)
  have lt: "vm_start w < vm_end w" using c by (simp add: covers_def)
  note o = grow_commit_spec [OF E pu lt, of move n, folded t, unfolded d, OF w]
  have st: "stores E p w {} s t" using stores_from_same [OF o(1) us] .
  note q = stores_ok [OF ok c st]
  have "vma_at t p = w" using st by (simp add: stores_def vma_at_def)
  then show ?thesis
    using q(1,3) lo hi f k o(2) n acct_ok(1) [OF a] unfolding stack_grown_def Let_def by (simp add: fun_eq_iff d)
qed


text \<open>A range next to a mapping, free up to \<open>a\<close>, can be covered by it.\<close>

lemma covers_longer:
  assumes ok: "mm_ok E s" and p: "p \<in> mapped (index E) s"
    and b: "a \<le> vm_start (vma_at s p)" "vm_end (vma_at s p) \<le> b" "4096 dvd unat a" "4096 dvd unat b"
    and free: "\<And>k. a \<le> k \<Longrightarrow> k < vm_start (vma_at s p) \<Longrightarrow> entry_at (index E) s k = None"
      "\<And>k. vm_end (vma_at s p) \<le> k \<Longrightarrow> k < b \<Longrightarrow> entry_at (index E) s k = None"
  shows "covers E s a b p {}"
proof -
  note x = mapped_extent [OF mm_ok_wf [OF ok] p]
  have "a < b" using b(1,2) x(2) by (meson le_less_trans less_le_trans)
  moreover have "q = p" if "a \<le> k" "k < b" "entry_at (index E) s k = Some q" for k q
    using that free [of k] x(3) [of k] by (cases "k < vm_start (vma_at s p)"; cases "k < vm_end (vma_at s p)") auto
  moreover have "a \<le> k \<and> k < b" if "entry_at (index E) s k = Some p" for k
    using that x(3) [of k] b(1,2) by (meson le_less_trans less_le_trans order_trans)
  ultimately show ?thesis unfolding covers_def using b(3,4) by blast
qed

lemma grow_down_spec:
  assumes E: "env_ok E" and ok: "mm_ok E s" and p: "p \<in> mapped (index E) s"
    and al: "4096 dvd unat a" and lt: "a < vm_start (vma_at s p)"
    and free: "\<And>k. a \<le> k \<Longrightarrow> k < vm_start (vma_at s p) \<Longrightarrow> entry_at (index E) s k = None"
    and r: "grow_down E p a s = (r, t)"
  shows "case r of Inl e \<Rightarrow> t = s
    | Inr _ \<Rightarrow> mm_ok E t \<and> stack_grown E s p ((vma_at s p)\<lparr>vm_start := a,
        vm_pgoff := vm_pgoff (vma_at s p) - drop_bit 12 (vm_start (vma_at s p) - a)\<rparr>) t"
proof -
  let ?v = "vma_at s p"
  let ?n = "drop_bit 12 (vm_start ?v - a)"
  let ?w = "?v\<lparr>vm_start := a, vm_pgoff := vm_pgoff ?v - ?n\<rparr>"
  have sh: "PAGE_SHIFT E = 12" using E by (simp add: env_hdr hdr_simps)
  obtain y u where y: "acct_stack_growth E p (vm_end ?v - a) ?n s = (y, u)" by fastforce
  note x = mapped_extent [OF mm_ok_wf [OF ok] p]
  have sal: "4096 dvd unat (vm_start ?v)" "4096 dvd unat (vm_end ?v)"
    using mm_ok_aligned [OF ok] p by (auto simp: vmas_aligned_def)
  show ?thesis
  proof (cases "vm_pgoff ?v < ?n \<or> (\<exists>e. y = Inl e)")
    case True
    then show ?thesis using r y lt acct_fail [of E p _ ?n s _ u]
      by (auto simp: grow_down_def Let_def sh split: if_splits)
  next
    case False
    then obtain z where z: "y = Inr z" by (cases y) auto
    have t: "r = Inr ()" "t = grow_commit E p ?n (\<lambda>v. v\<lparr>vm_start := a, vm_pgoff := vm_pgoff v - ?n\<rparr>) u"
      using r y z lt False by (auto simp: grow_down_def Let_def sh)
    have c: "covers E s a (vm_end ?v) p {}"
      by (rule covers_longer [OF ok p _ _ al sal(2) free]) (use lt in \<open>auto dest: leD\<close>)
    have "mm_ok E t \<and> stack_grown E s p ?w t"
    proof (rule grown [OF E ok p _ _ t(2)])
      show "acct_stack_growth E p (vm_end ?w - vm_start ?w) ?n s = (Inr z, u)" using y z by simp
      show "covers E s (vm_start ?w) (vm_end ?w) p {}" using c by simp
      show "content ?w k = content ?v k" if "vm_start ?v \<le> k" "k < vm_end ?v" for k
        using page_at_extend [of ?w "vm_start ?v" k] lt that sal(1) al by (simp add: content_def page_at_def)
    qed (use lt in simp_all)
    with t(1) show ?thesis by simp
  qed
qed

lemma grow_up_spec:
  assumes E: "env_ok E" and ok: "mm_ok E s" and p: "p \<in> mapped (index E) s"
    and al: "4096 dvd unat a" and lt: "vm_end (vma_at s p) < a"
    and free: "\<And>k. vm_end (vma_at s p) \<le> k \<Longrightarrow> k < a \<Longrightarrow> entry_at (index E) s k = None"
    and r: "grow_up E p a s = (r, t)"
  shows "case r of Inl e \<Rightarrow> t = s
    | Inr _ \<Rightarrow> mm_ok E t \<and> stack_grown E s p ((vma_at s p)\<lparr>vm_end := a\<rparr>) t"
proof -
  let ?v = "vma_at s p"
  let ?n = "drop_bit 12 (a - vm_end ?v)"
  let ?w = "?v\<lparr>vm_end := a\<rparr>"
  have sh: "PAGE_SHIFT E = 12" using E by (simp add: env_hdr hdr_simps)
  obtain y u where y: "acct_stack_growth E p (a - vm_start ?v) ?n s = (y, u)" by fastforce
  note x = mapped_extent [OF mm_ok_wf [OF ok] p]
  have sal: "4096 dvd unat (vm_start ?v)" using mm_ok_aligned [OF ok] p by (auto simp: vmas_aligned_def)
  show ?thesis
  proof (cases "vm_pgoff ?v + drop_bit 12 (a - vm_start ?v) < vm_pgoff ?v \<or> (\<exists>e. y = Inl e)")
    case True
    then show ?thesis using r y lt acct_fail [of E p _ ?n s _ u]
      by (auto simp: grow_up_def Let_def sh split: if_splits)
  next
    case False
    then obtain z where z: "y = Inr z" by (cases y) auto
    have t: "r = Inr ()" "t = grow_commit E p ?n (\<lambda>v. v\<lparr>vm_end := a\<rparr>) u"
      using r y z lt False by (auto simp: grow_up_def Let_def sh)
    have c: "covers E s (vm_start ?v) a p {}"
      by (rule covers_longer [OF ok p _ _ sal al _ free]) (use lt in \<open>auto dest: leD\<close>)
    have "mm_ok E t \<and> stack_grown E s p ?w t"
    proof (rule grown [OF E ok p _ _ t(2)])
      show "acct_stack_growth E p (vm_end ?w - vm_start ?w) ?n s = (Inr z, u)" using y z by simp
      show "covers E s (vm_start ?w) (vm_end ?w) p {}" using c by simp
    qed (use lt in \<open>simp_all add: content_def page_at_def\<close>)
    with t(1) show ?thesis by simp
  qed
qed

lemma stack_grown_anon:
  assumes "stack_grown E u p w t" "anon_upd p s u"
  shows "stack_grown E s p w t"
proof -
  obtain av ch where v: "vma_at u p = (vma_at s p)\<lparr>anon_vma := av, anon_vma_chain := ch\<rparr>"
    and m: "cur_mm u = cur_mm s"
    using assms(2) by (auto simp: anon_upd_def vma_at_def)
  have c: "content (vma_at u p) = content (vma_at s p)" by (simp add: v content_def page_at_def fun_eq_iff)
  show ?thesis
    using assms(1) unfolding stack_grown_def Let_def c m anon_upd_view(2) [OF assms(2), of E] by (simp add: v)
qed

lemma stack_grown_same:
  assumes "stack_grown E s p w u" "same_mm t u"
  shows "stack_grown E s p w t"
  using assms(1) view_same [OF assms(2), of E] same_mmD [OF assms(2)] unfolding stack_grown_def Let_def by simp

lemma anon_prepare_upd:
  assumes "vmas s p = Some v" "do_anon_vma_prepare E p s = (x, u)"
  shows "anon_upd p s u"
  using assms anon_upd_same [OF assms(1), of s] anon_upd_upd_vma
  by (auto simp: do_anon_vma_prepare_def split: option.splits)

lemma anon_upd_bounds:
  assumes "anon_upd p s u"
  shows "vm_start (vma_at u q) = vm_start (vma_at s q)" "vm_end (vma_at u q) = vm_end (vma_at s q)"
    "vm_flags (vma_at u q) = vm_flags (vma_at s q)" "tree u = tree s" "same_counters s u"
proof -
  have "cur_mm u = cur_mm s" using assms by (simp add: anon_upd_def)
  then show "tree u = tree s" "same_counters s u" by simp_all
  show "vm_start (vma_at u q) = vm_start (vma_at s q)" "vm_end (vma_at u q) = vm_end (vma_at s q)"
    "vm_flags (vma_at u q) = vm_flags (vma_at s q)"
    using anon_upd_view(1) [OF assms, of q] by auto
qed

lemma grow_stack_spec:
  assumes ok: "mm_ok E s" and p: "p \<in> mapped (index E) s"
    and g: "\<And>u x t. anon_upd p s u \<Longrightarrow> mm_ok E u \<Longrightarrow> g E p a u = (x, t) \<Longrightarrow>
      (case x of Inl e \<Rightarrow> t = u
       | Inr _ \<Rightarrow> mm_ok E t \<and> (\<exists>w. stack_grown E u p w t \<and> vm_start w = lo \<and> vm_end w = hi))"
    and r: "grow_stack E g p a s = (r, t)"
  shows "case r of Inl e \<Rightarrow> anon_upd p s t
    | Inr _ \<Rightarrow> mm_ok E t \<and> (\<exists>w. stack_grown E s p w t \<and> vm_start w = lo \<and> vm_end w = hi)"
proof (cases "prealloc_fails E s")
  case True
  then show ?thesis using r anon_upd_same [OF mapped_extent(1) [OF mm_ok_wf [OF ok] p], of s]
    by (auto simp: grow_stack_def)
next
  case False
  obtain x u where u: "do_anon_vma_prepare E p s = (x, u)" by fastforce
  note au = anon_prepare_upd [OF mapped_extent(1) [OF mm_ok_wf [OF ok] p] u]
  show ?thesis
  proof (cases x)
    case None
    then have "r = Inl ENOMEM" "u = t" using r u False by (simp_all add: grow_stack_def)
    then show ?thesis using au by simp
  next
    case (Some av)
    let ?u = "emit (Lock (Anon_vma_lock av)) (emit (Vma_write p) u)"
    obtain y w where y: "g E p a ?u = (y, w)" by fastforce
    have t: "r = y" "t = emit (Khugepaged p) (emit (Unlock (Anon_vma_lock av)) w)"
      using r u y Some False by (auto simp: grow_stack_def Let_def)
    have a: "anon_upd p s ?u" using au by simp
    note o = g [OF a anon_upd_ok [OF a ok p] y]
    have tw: "same_mm t w" by (simp add: t)
    show ?thesis
    proof (cases y)
      case (Inl e)
      then show ?thesis using o a t by simp
    next
      case (Inr z)
      then obtain v where v: "mm_ok E w" "stack_grown E ?u p v w" "vm_start v = lo" "vm_end v = hi" using o by auto
      note stack_grown_same [OF stack_grown_anon [OF v(2) a] tw]
      then show ?thesis using v(1,3,4) mm_ok_same [OF tw, of E] t(1) Inr by auto
    qed
  qed
qed

text \<open>The guard gap, towards the neighbour that is accessible and no stack itself.\<close>

definition guarded_below :: "('t, 'a) mm_env_scheme \<Rightarrow> 't mm_state \<Rightarrow> u64 \<Rightarrow> u64 \<Rightarrow> bool" where
  "guarded_below E s start a \<longleftrightarrow>
     mmap_min_addr E \<le> a \<and>
     (\<forall>q. last_before (index E) s start (Some q) \<longrightarrow> vma_is_accessible E (vma_at s q) \<longrightarrow>
        \<not> flag E (vma_at s q) VM_GROWSDOWN \<longrightarrow> stack_guard_gap E \<le> a - vm_end (vma_at s q))"

lemma prev_of_mapping:
  assumes M: "maple_ok M" and wf: "mm_wf M s" and p: "p \<in> mapped M s"
    and q: "last_before M s (vm_start (vma_at s p)) (Some q)"
  shows "fst (mas_prev M (tree s) (vm_start (vma_at s p)) 0) = Some q"
proof -
  let ?a = "vm_start (vma_at s p)"
  note x = mapped_extent [OF wf p]
  have pa: "entry_at M s ?a = Some p" using x by simp
  have np: "entry_at M s k \<noteq> Some p" if "k < ?a" for k using x(3) [of k] that by auto
  obtain i where i: "i < ?a" "entry_at M s i = Some q"
    "\<And>k. i < k \<Longrightarrow> k < ?a \<Longrightarrow> entry_at M s k = None"
    using last_before_last [OF wf q] np unfolding pa by metis
  obtain z j where z: "mas_prev M (tree s) ?a 0 = (z, j)" by fastforce
  show ?thesis
  proof (cases z)
    case None
    then have "entry_at M s i = None \<or> entry_at M s i = Some p"
      using prev_None(2) [OF M z [unfolded None], of i] i(1) pa by simp
    with i np show ?thesis by auto
  next
    case (Some y)
    note v = prev_Some [OF M z [unfolded Some]]
    have "entry_at M s k = None" if "j < k" "k < ?a" for k using v(5) [OF that] np [OF that(2)] pa by auto
    then have "\<not> j < i" "\<not> i < j" using i v(2,3) by force+
    then have "i = j" by simp
    with i(2) v(3) Some z show ?thesis by simp
  qed
qed

lemma expand_downwards_spec:
  fixes address :: u64
  assumes E: "env_ok E" and ok: "mm_ok E s" and p: "p \<in> mapped (index E) s"
    and a: "a = address AND cst E PAGE_MASK" and lt: "a < vm_start (vma_at s p)"
    and free: "\<And>k. a \<le> k \<Longrightarrow> k < vm_start (vma_at s p) \<Longrightarrow> entry_at (index E) s k = None"
    and r: "expand_downwards E p address s = (r, t)"
  shows "case r of Inl e \<Rightarrow> anon_upd p s t
    | Inr _ \<Rightarrow> mm_ok E t \<and> flag E (vma_at s p) VM_GROWSDOWN \<and> guarded_below E s (vm_start (vma_at s p)) a \<and>
        (\<exists>w. stack_grown E s p w t \<and> vm_start w = a \<and> vm_end w = vm_end (vma_at s p))"
proof -
  let ?M = "index E" and ?v = "vma_at s p"
  note wf = mm_ok_wf [OF ok] and M = env_maple [OF E]
  note x = mapped_extent [OF wf p]
  have al: "4096 dvd unat a"
    unfolding a hdr_simps(3) [OF env_hdr [OF E]] unat_and_not_4095 by (rule dvd_minus_mod)
  have g: "case x of Inl e \<Rightarrow> t = u
       | Inr _ \<Rightarrow> mm_ok E t \<and> (\<exists>w. stack_grown E u p w t \<and> vm_start w = a \<and> vm_end w = vm_end ?v)"
    if u: "anon_upd p s u" "mm_ok E u" "grow_down E p a u = (x, t)" for x u t
  proof -
    note b = anon_upd_bounds [OF u(1)] and m = anon_upd_view(3) [OF u(1), of ?M]
    have "p \<in> mapped ?M u" "a < vm_start (vma_at u p)"
      "\<And>k. a \<le> k \<Longrightarrow> k < vm_start (vma_at u p) \<Longrightarrow> entry_at ?M u k = None"
      using p lt free by (simp_all add: m b)
    from grow_down_spec [OF E u(2) this(1) al this(2,3) u(3)] show ?thesis
      using b by (cases x) (auto intro!: exI)
  qed
  define near where "near \<longleftrightarrow> (case fst (mas_prev ?M (tree s) (vm_start ?v) 0) of None \<Rightarrow> False | Some q \<Rightarrow>
     \<not> flag E (vma_at s q) VM_GROWSDOWN \<and> vma_is_accessible E (vma_at s q) \<and>
     a - vm_end (vma_at s q) < stack_guard_gap E)"
  have eq: "expand_downwards E p address s =
     (if \<not> flag E ?v VM_GROWSDOWN then (Inl EFAULT, s)
      else if a < mmap_min_addr E \<or> a < cst E FIRST_USER_ADDRESS then (Inl EPERM, s)
      else if near then (Inl ENOMEM, s)
      else grow_stack E grow_down p address' s)" if "address' = a" for address'
    unfolding expand_downwards_def Let_def a [symmetric] near_def that by (rule refl)
  note eq = eq [OF refl]
  show ?thesis
  proof (cases "flag E ?v VM_GROWSDOWN \<and> \<not> (a < mmap_min_addr E \<or> a < cst E FIRST_USER_ADDRESS) \<and> \<not> near")
    case False
    then have "t = s" "\<exists>e. r = Inl e" using r unfolding eq by (auto split: if_splits)
    then show ?thesis using anon_upd_same [OF x(1), of s] by auto
  next
    case True
    have "grow_stack E grow_down p a s = (r, t)" using r True unfolding eq by simp
    from grow_stack_spec [OF ok p _ this, where lo = a and hi = "vm_end ?v"] g
    have o: "case r of Inl e \<Rightarrow> anon_upd p s t
      | Inr _ \<Rightarrow> mm_ok E t \<and> (\<exists>w. stack_grown E s p w t \<and> vm_start w = a \<and> vm_end w = vm_end ?v)" by blast
    have "stack_guard_gap E \<le> a - vm_end (vma_at s q)"
      if q: "last_before ?M s (vm_start ?v) (Some q)" "vma_is_accessible E (vma_at s q)" "\<not> flag E (vma_at s q) VM_GROWSDOWN" for q
      using True prev_of_mapping [OF M wf p q(1)] q(2,3) by (simp add: near_def not_less)
    then have "guarded_below E s (vm_start ?v) a" using True by (auto simp: guarded_below_def not_less)
    with o True show ?thesis by (cases r) auto
  qed
qed

definition upper_gap :: "('t, 'a) mm_env_scheme \<Rightarrow> u64 \<Rightarrow> u64" where
  "upper_gap E a = (if a + stack_guard_gap E < a \<or> cst E TASK_SIZE < a + stack_guard_gap E
     then cst E TASK_SIZE else a + stack_guard_gap E)"

definition guarded_above :: "('t, 'a) mm_env_scheme \<Rightarrow> 't mm_state \<Rightarrow> u64 \<Rightarrow> u64 \<Rightarrow> bool" where
  "guarded_above E s fin a \<longleftrightarrow>
     a \<le> cst E TASK_SIZE \<and>
     (\<forall>q. at_or_after (index E) s fin (Some q) \<longrightarrow> vma_is_accessible E (vma_at s q) \<longrightarrow>
        \<not> flag E (vma_at s q) VM_GROWSUP \<longrightarrow> upper_gap E a \<le> vm_start (vma_at s q))"

lemma aligned_mask: "4096 dvd unat ((x :: u64) AND - 4096)"
  unfolding unat_and_not_4095 by (rule dvd_minus_mod)

lemma next_page:
  fixes b T :: u64
  assumes "4096 dvd unat b" "4096 dvd unat T" "b < T"
  shows "b < b + 4096" "b + 4096 \<le> T" "4096 dvd unat (b + 4096)"
proof -
  obtain i j where i: "unat b = 4096 * i" and j: "unat T = 4096 * j" using assms(1,2) by (auto elim!: dvdE)
  have "i < j" using assms(3) i j by (simp add: word_less_nat_alt)
  then have le: "unat b + 4096 \<le> unat T" using i j by simp
  then have "unat b + 4096 < 2 ^ 64" using unat_bound64 [of T] by linarith
  then have u: "unat (b + 4096) = unat b + 4096" using unat_add_nowrap [of b 4096] by simp
  show "b < b + 4096" "b + 4096 \<le> T" "4096 dvd unat (b + 4096)"
    using le i unfolding word_less_nat_alt word_le_nat_alt u by auto
qed

lemma expand_upwards_spec:
  fixes address :: u64
  assumes E: "env_ok E" and ok: "mm_ok E s" and p: "p \<in> mapped (index E) s"
    and b: "b = address AND cst E PAGE_MASK" and le: "vm_end (vma_at s p) \<le> b"
    and free: "\<And>k. vm_end (vma_at s p) \<le> k \<Longrightarrow> k < b + 4096 \<Longrightarrow> entry_at (index E) s k = None"
    and r: "expand_upwards E p address s = (r, t)"
  shows "case r of Inl e \<Rightarrow> anon_upd p s t
    | Inr _ \<Rightarrow> mm_ok E t \<and> flag E (vma_at s p) VM_GROWSUP \<and> b < b + 4096 \<and>
        guarded_above E s (vm_end (vma_at s p)) (b + 4096) \<and>
        (\<exists>w. stack_grown E s p w t \<and> vm_start w = vm_start (vma_at s p) \<and> vm_end w = b + 4096)"
proof -
  let ?M = "index E" and ?v = "vma_at s p" and ?T = "cst E TASK_SIZE AND cst E PAGE_MASK"
  note wf = mm_ok_wf [OF ok] and M = env_maple [OF E] and H = hdr_simps [OF env_hdr [OF E]]
  note x = mapped_extent [OF wf p]
  let ?a = "b + cst E PAGE_SIZE"
  have ps: "cst E PAGE_SIZE = 4096" by (rule H)
  define hit where "hit \<longleftrightarrow> (case find_vma_intersection E s (vm_end ?v) (upper_gap E ?a) of
                   None \<Rightarrow> False
                 | Some nxt \<Rightarrow> vma_is_accessible E (vma_at s nxt) \<and> \<not> flag E (vma_at s nxt) VM_GROWSUP)"
  have eq: "expand_upwards E p address s =
     (if \<not> flag E ?v VM_GROWSUP then (Inl EFAULT, s)
      else if ?T \<le> b then (Inl ENOMEM, s)
      else if hit then (Inl ENOMEM, s) else grow_stack E grow_up p ?a s)"
    unfolding expand_upwards_def Let_def b [symmetric] hit_def upper_gap_def by (rule refl)
  show ?thesis
  proof (cases "flag E ?v VM_GROWSUP \<and> \<not> ?T \<le> b \<and> \<not> hit")
    case False
    then have "t = s" "\<exists>e. r = Inl e" using r unfolding eq by (auto split: if_splits)
    then show ?thesis using anon_upd_same [OF x(1), of s] by auto
  next
    case True
    have "4096 dvd unat b" "4096 dvd unat ?T" by (simp_all add: b H aligned_mask)
    from next_page [OF this] True have nx: "b < b + 4096" "b + 4096 \<le> ?T" "4096 dvd unat (b + 4096)"
      by (simp_all add: not_le)
    have lt: "vm_end ?v < b + 4096" using le nx(1) by (rule le_less_trans)
    have top: "b + 4096 \<le> cst E TASK_SIZE"
      using nx(2) by (rule order_trans) (simp add: word_le_nat_alt H unat_and_not_4095)
    have g: "case x of Inl e \<Rightarrow> t = u
       | Inr _ \<Rightarrow> mm_ok E t \<and> (\<exists>w. stack_grown E u p w t \<and> vm_start w = vm_start ?v \<and> vm_end w = ?a)"
      if u: "anon_upd p s u" "mm_ok E u" "grow_up E p ?a u = (x, t)" for x u t
    proof -
      note c = anon_upd_bounds [OF u(1)] and m = anon_upd_view(3) [OF u(1), of ?M]
      have q: "p \<in> mapped ?M u" "4096 dvd unat ?a" "vm_end (vma_at u p) < ?a"
        "\<And>k. vm_end (vma_at u p) \<le> k \<Longrightarrow> k < ?a \<Longrightarrow> entry_at ?M u k = None"
        using p lt nx(3) free by (simp_all add: m c ps)
      from grow_up_spec [OF E u(2) q u(3)] show ?thesis
        using c by (cases x) (auto intro!: exI)
    qed
    have "grow_stack E grow_up p ?a s = (r, t)" using r True unfolding eq by simp
    from grow_stack_spec [OF ok p _ this, where lo = "vm_start ?v" and hi = ?a] g
    have o: "case r of Inl e \<Rightarrow> anon_upd p s t
      | Inr _ \<Rightarrow> mm_ok E t \<and> (\<exists>w. stack_grown E s p w t \<and> vm_start w = vm_start ?v \<and> vm_end w = ?a)" by blast
    have "upper_gap E ?a \<le> vm_start (vma_at s q)"
      if q: "at_or_after ?M s (vm_end ?v) (Some q)" "vma_is_accessible E (vma_at s q)" "\<not> flag E (vma_at s q) VM_GROWSUP" for q
    proof (rule ccontr)
      assume near: "\<not> ?thesis"
      obtain i where i: "vm_end ?v \<le> i" "entry_at ?M s i = Some q"
        "\<And>k. vm_end ?v \<le> k \<Longrightarrow> k < i \<Longrightarrow> entry_at ?M s k = None"
        using at_or_after_first [OF wf q(1)] by blast
      note y = mm_wfD [OF wf i(2)]
      have st: "i \<le> vm_start (vma_at s q) \<or> i = vm_end ?v"
      proof (rule ccontr)
        assume "\<not> ?thesis"
        then have c: "vm_start (vma_at s q) < i" "vm_end ?v < i" using i(1) by auto
        let ?k = "max (vm_end ?v) (vm_start (vma_at s q))"
        have "?k < i" "vm_end ?v \<le> ?k" "vm_start (vma_at s q) \<le> ?k" using c by (auto simp: max_def)
        moreover have "?k < vm_end (vma_at s q)" using \<open>?k < i\<close> y(3) [of i] i(2) by (auto dest: less_trans)
        ultimately show False using i(3) [of ?k] y(3) [of ?k] by simp
      qed
      have iv: "vm_start (vma_at s q) \<le> i" using y(3) [of i] i(2) by simp
      have "vm_end ?v < b + 4096" by (rule lt)
      have gap: "?a \<le> upper_gap E ?a" using top by (auto simp: upper_gap_def ps not_less)
      have ig: "i < upper_gap E ?a"
        using st iv near gap lt unfolding ps by (auto dest: less_le_trans)
      have law: "find_law (entry_at ?M s) (vm_end ?v) (upper_gap E ?a - 1) (find_vma_intersection E s (vm_end ?v) (upper_gap E ?a))"
        by (rule find_vma_intersection_spec [OF E])
      have ig': "i \<le> upper_gap E ?a - 1" using ig le_below_end [OF ig, of i] by simp
      have "find_vma_intersection E s (vm_end ?v) (upper_gap E ?a) = Some q"
      proof (cases "find_vma_intersection E s (vm_end ?v) (upper_gap E ?a)")
        case None
        then show ?thesis using law i(1,2) ig' by (simp add: find_law_def)
      next
        case (Some z)
        then obtain j where j: "vm_end ?v \<le> j" "entry_at ?M s j = Some z"
          "\<And>k. vm_end ?v \<le> k \<Longrightarrow> k < j \<Longrightarrow> entry_at ?M s k = None"
          using law by (auto simp: find_law_def)
        have "\<not> i < j" "\<not> j < i" using i j by force+
        then have "i = j" by simp
        with i(2) j(2) Some show ?thesis by simp
      qed
      with q(2,3) have hit by (simp add: hit_def)
      with True show False by simp
    qed
    then have "guarded_above E s (vm_end ?v) (b + 4096)" using top by (auto simp: guarded_above_def ps)
    with o True nx(1) show ?thesis by (cases r) (auto simp: ps)
  qed
qed


text \<open>
  What growing the stack of an address promises: the mapping \<open>p\<close> that is returned covers the address
  afterwards, and either it did before and nothing changed, or it is the neighbour that
  grows towards the address, guard gap and stack limit respected.
\<close>

definition stack_for ::
  "('t, 'a) mm_env_scheme \<Rightarrow> 't mm_state \<Rightarrow> u64 \<Rightarrow> vptr \<Rightarrow> 't mm_state \<Rightarrow> bool" where
  "stack_for E s addr p t \<longleftrightarrow>
     p \<in> mapped (index E) s \<and>
     (vm_start (vma_at s p) \<le> addr \<and> addr < vm_end (vma_at s p) \<and> view E t = view E s \<and> same_counters s t \<or>
      (\<exists>w. stack_grown E s p w t \<and> vm_start w \<le> addr \<and> addr < vm_end w \<and>
        (let v = vma_at s p; b = addr AND - 4096 in
           flag E v VM_GROWSDOWN \<and> vm_start w = b \<and> vm_end w = vm_end v \<and> guarded_below E s (vm_start v) b \<or>
           flag E v VM_GROWSUP \<and> vm_start w = vm_start v \<and> vm_end w = b + 4096 \<and> guarded_above E s (vm_end v) (b + 4096))))"

lemma unat_plus_page:
  fixes b :: u64
  assumes "b < b + 4096"
  shows "unat (b + 4096) = unat b + 4096"
proof -
  have "unat b + 4096 < 2 ^ 64"
  proof (rule ccontr)
  assume "\<not> ?thesis"
  then have g: "2 ^ 64 \<le> unat b + 4096" by simp
  have "unat (b + 4096) = (unat b + 4096) mod 2 ^ 64" by (simp add: unat_word_ariths)
  also have "\<dots> = (unat b + 4096 - 2 ^ 64) mod 2 ^ 64" by (rule le_mod_geq [OF g])
  also have "\<dots> \<le> unat b + 4096 - 2 ^ 64" by (rule mod_less_eq_dividend)
  also have "\<dots> \<le> unat b" by simp
  finally show False using assms by (simp add: word_less_nat_alt)
  qed
  then show ?thesis using unat_add_nowrap [of b 4096] by simp
qed

lemma page_of:
  fixes x :: u64
  shows "x AND - 4096 \<le> x" "x AND - 4096 < (x AND - 4096) + 4096 \<Longrightarrow> x < (x AND - 4096) + 4096"
proof -
  have u: "unat (x AND - 4096) = unat x - unat x mod 4096" by (rule unat_and_not_4095)
  show "x AND - 4096 \<le> x" by (simp add: word_le_nat_alt u)
  assume "x AND - 4096 < (x AND - 4096) + 4096"
  note v = unat_plus_page [OF this]
  have "unat x mod 4096 < 4096" by simp
  then show "x < (x AND - 4096) + 4096" unfolding word_less_nat_alt v u by linarith
qed

text \<open>A page is mapped as a whole.\<close>

lemma same_page:
  fixes b k :: u64
  assumes "4096 dvd unat b" "b \<le> k" "k < b + 4096"
  shows "k AND - 4096 = b"
proof -
  have "b < b + 4096" using assms(2,3) by (rule le_less_trans)
  note u = unat_plus_page [OF this]
  obtain i where i: "unat b = 4096 * i" using assms(1) by (auto elim!: dvdE)
  have "4096 * i \<le> unat k" "unat k < 4096 * i + 4096"
    using assms(2,3) i u by (simp_all add: word_le_nat_alt word_less_nat_alt)
  then have "unat k div 4096 = i" by linarith
  then have "unat k - unat k mod 4096 = unat b" using i by (simp add: minus_mod_eq_mult_div)
  then show ?thesis by (simp add: word_unat_eq_iff unat_and_not_4095)
qed

lemma whole_page:
  assumes ok: "mm_ok E s" and k: "entry_at (index E) s k = Some q" and x: "x AND - 4096 = k AND - 4096"
  shows "entry_at (index E) s x = Some q"
proof -
  let ?v = "vma_at s q"
  note w = mm_wfD [OF mm_ok_wf [OF ok] k]
  have "q \<in> mapped (index E) s" using k by (auto simp: mapped_def)
  then have al: "4096 dvd unat (vm_start ?v)" "4096 dvd unat (vm_end ?v)"
    using mm_ok_aligned [OF ok] by (simp_all add: vmas_aligned_def)
  have in_q: "vm_start ?v \<le> k" "k < vm_end ?v" using w(3) [of k] k by simp_all
  let ?b = "k AND - 4096"
  have u: "unat ?b = unat k - unat k mod 4096" by (rule unat_and_not_4095)
  obtain i where i: "unat (vm_start ?v) = 4096 * i" using al(1) by (auto elim!: dvdE)
  have "4096 * i \<le> unat k" using in_q(1) i by (simp add: word_le_nat_alt)
  then have "i \<le> unat k div 4096" by linarith
  then have "4096 * i \<le> unat ?b" by (simp add: u minus_mod_eq_mult_div)
  then have "vm_start ?v \<le> ?b" by (simp add: word_le_nat_alt i)
  moreover have "?b < vm_end ?v" using page_of(1) [of k] in_q(2) by (rule le_less_trans)
  note nx = next_page [OF aligned_mask al(2) this]
  have "x < ?b + 4096" using page_of(2) [of x] nx(1) x by simp
  moreover have "?b \<le> x" using page_of(1) [of x] x by simp
  ultimately have "vm_start ?v \<le> x" "x < vm_end ?v" using nx(2) by (auto intro: order_trans less_le_trans)
  with w(3) [of x] show ?thesis by simp
qed

lemma free_page:
  assumes ok: "mm_ok E s" and x: "entry_at (index E) s x = None"
    and k: "x AND - 4096 \<le> k" "k < (x AND - 4096) + 4096"
  shows "entry_at (index E) s k = None"
proof (cases "entry_at (index E) s k")
  case (Some q)
  have "k AND - 4096 = x AND - 4096" by (rule same_page [OF aligned_mask k])
  from whole_page [OF ok Some, of x] this x show ?thesis by simp
qed simp

lemma anon_upd_unchanged:
  assumes "anon_upd p s t" "mm_ok E s" "p \<in> mapped (index E) s"
  shows "mm_ok E t \<and> view E t = view E s \<and> same_counters s t"
  using anon_upd_ok [OF assms] anon_upd_view(2) [OF assms(1), of E] anon_upd_bounds(5) [OF assms(1)] by simp


lemma grows_down_for:
  assumes E: "env_ok E" and ok: "mm_ok E s" and p: "at_or_after (index E) s addr (Some p)"
    and lt: "addr < vm_start (vma_at s p)" and r: "expand_downwards E p addr s = (r, t)"
  shows "case r of Inl e \<Rightarrow> anon_upd p s t | Inr _ \<Rightarrow> mm_ok E t \<and> stack_for E s addr p t"
proof -
  let ?b = "addr AND - 4096"
  have pm: "p \<in> mapped (index E) s" and after: "\<And>k. addr \<le> k \<Longrightarrow> k < vm_start (vma_at s p) \<Longrightarrow> entry_at (index E) s k = None"
    using p by (auto simp: at_or_after_def)
  have al: "4096 dvd unat (vm_start (vma_at s p))" using mm_ok_aligned [OF ok] pm by (simp add: vmas_aligned_def)
  have b: "?b < vm_start (vma_at s p)" using page_of(1) lt by (rule le_less_trans)
  note nx = next_page [OF aligned_mask al b]
  have free: "entry_at (index E) s k = None" if "?b \<le> k" "k < vm_start (vma_at s p)" for k
  proof (cases "addr \<le> k")
    case False
    have "k < ?b + 4096" using False page_of(2) [OF nx(1)] by (simp add: not_le less_trans)
    then show ?thesis using free_page [OF ok after [OF order_refl lt] that(1)] by simp
  qed (use after that(2) in simp)
  have m: "?b = addr AND cst E PAGE_MASK" by (simp add: hdr_simps(3) [OF env_hdr [OF E]])
  note o = expand_downwards_spec [OF E ok pm m b free r]
  show ?thesis
  proof (cases r)
    case (Inr z)
    then obtain w where w: "mm_ok E t" "flag E (vma_at s p) VM_GROWSDOWN" "guarded_below E s (vm_start (vma_at s p)) ?b"
      "stack_grown E s p w t" "vm_start w = ?b" "vm_end w = vm_end (vma_at s p)" using o by auto
    have "addr < vm_end w" using lt mapped_extent(2) [OF mm_ok_wf [OF ok] pm] w(6) by (simp add: less_trans)
    with w pm page_of(1) [of addr] Inr show ?thesis unfolding stack_for_def Let_def by auto
  qed (use o in simp)
qed

lemma grows_up_for:
  assumes E: "env_ok E" and ok: "mm_ok E s" and p: "last_before (index E) s addr (Some p)"
    and none: "entry_at (index E) s addr = None" and r: "expand_upwards E p addr s = (r, t)"
  shows "case r of Inl e \<Rightarrow> anon_upd p s t | Inr _ \<Rightarrow> mm_ok E t \<and> stack_for E s addr p t"
proof -
  let ?b = "addr AND - 4096"
  have pm: "p \<in> mapped (index E) s" and le: "vm_end (vma_at s p) \<le> addr"
    and before: "\<And>k. vm_end (vma_at s p) \<le> k \<Longrightarrow> k < addr \<Longrightarrow> entry_at (index E) s k = None"
    using p none by (auto simp: last_before_def)
  have al: "4096 dvd unat (vm_end (vma_at s p))" using mm_ok_aligned [OF ok] pm by (simp add: vmas_aligned_def)
  have b: "vm_end (vma_at s p) \<le> ?b"
  proof -
    obtain i where i: "unat (vm_end (vma_at s p)) = 4096 * i" using al by (auto elim!: dvdE)
    have "4096 * i \<le> unat addr" using le i by (simp add: word_le_nat_alt)
    then have "i \<le> unat addr div 4096" by linarith
    then show ?thesis by (simp add: word_le_nat_alt i unat_and_not_4095 minus_mod_eq_mult_div)
  qed
  have free: "entry_at (index E) s k = None" if "vm_end (vma_at s p) \<le> k" "k < ?b + 4096" for k
    using free_page [OF ok none _ that(2)] before [OF that(1)] page_of(1) [of addr]
    by (cases "?b \<le> k") (auto simp: not_le dest: less_le_trans)
  have m: "?b = addr AND cst E PAGE_MASK" by (simp add: hdr_simps(3) [OF env_hdr [OF E]])
  note o = expand_upwards_spec [OF E ok pm m b free r]
  show ?thesis
  proof (cases r)
    case (Inr z)
    then obtain w where w: "mm_ok E t" "flag E (vma_at s p) VM_GROWSUP" "?b < ?b + 4096"
      "guarded_above E s (vm_end (vma_at s p)) (?b + 4096)"
      "stack_grown E s p w t" "vm_start w = vm_start (vma_at s p)" "vm_end w = ?b + 4096" using o by auto
    have "vm_start w \<le> addr" using le mapped_extent(2) [OF mm_ok_wf [OF ok] pm] w(6) by (simp add: less_imp_le order_trans)
    moreover have "addr < vm_end w" using page_of(2) [OF w(3)] w(7) by simp
    ultimately show ?thesis using w pm Inr unfolding stack_for_def Let_def by auto
  qed (use o in simp)
qed


section \<open>Finding and growing\<close>

definition grow_result ::
  "('t, 'a) mm_env_scheme \<Rightarrow> 't mm_state \<Rightarrow> u64 \<Rightarrow> vptr option \<Rightarrow> 't mm_state \<Rightarrow> bool" where
  "grow_result E s addr r t \<longleftrightarrow>
     mm_ok E t \<and> (case r of None \<Rightarrow> view E t = view E s \<and> same_counters s t | Some p \<Rightarrow> stack_for E s addr p t)"

lemma stack_for_same:
  assumes "stack_for E s addr p u" "same_mm t u"
  shows "stack_for E s addr p t"
  using assms(1) stack_grown_same [OF _ assms(2), of E s p] view_same [OF assms(2), of E] same_mmD(2) [OF assms(2)]
  unfolding stack_for_def Let_def by auto

lemma stack_for_from:
  assumes "stack_for E u addr p t" "same_mm u s"
  shows "stack_for E s addr p t"
proof -
  note d = same_mmD [OF assms(2)] and v = view_same [OF assms(2), of E]
  have "last_before (index E) u = last_before (index E) s" "at_or_after (index E) u = at_or_after (index E) s"
    by (intro ext, simp only: last_before_def at_or_after_def mapped_def d)+
  then have "guarded_below E u = guarded_below E s" "guarded_above E u = guarded_above E s"
    by (intro ext, simp only: guarded_below_def guarded_above_def d)+
  moreover have "stack_grown E u = stack_grown E s" by (intro ext) (simp only: stack_grown_def d v)
  moreover have "mapped (index E) u = mapped (index E) s" by (simp add: mapped_def d)
  ultimately show ?thesis using assms(1) by (simp only: stack_for_def d v)
qed

lemma grow_result_same:
  assumes "grow_result E u addr r w" "same_mm u s" "same_mm t w"
  shows "grow_result E s addr r t"
  using assms(1) stack_for_same [OF stack_for_from [OF _ assms(2)] assms(3), of E addr]
    mm_ok_same [OF assms(3), of E] view_same [OF assms(2), of E] view_same [OF assms(3), of E] same_mmD(2) [OF assms(2)] same_mmD(2) [OF assms(3)]
  unfolding grow_result_def by (auto split: option.splits)

lemma grow_result_found:
  assumes "mm_ok E s" "at_or_after (index E) s addr (Some p)" "vm_start (vma_at s p) \<le> addr"
  shows "grow_result E s addr (Some p) s"
  using assms by (auto simp: grow_result_def stack_for_def at_or_after_def)

text \<open>The answer of a growing operation, for the address it was asked for.\<close>

lemma grow_result_grown:
  assumes "case r of Inl e \<Rightarrow> anon_upd p s t | Inr _ \<Rightarrow> mm_ok E t \<and> stack_for E s addr p t"
    and "mm_ok E s" "p \<in> mapped (index E) s"
  shows "grow_result E s addr (case r of Inl (e :: errno) \<Rightarrow> None | Inr (_ :: unit) \<Rightarrow> Some p) t"
  using assms anon_upd_unchanged [of p s t E] by (auto simp: grow_result_def split: sum.splits)

lemma at_none:
  assumes ok: "mm_ok E s" and v: "at_or_after (index E) s addr v"
    and no: "\<And>p. v = Some p \<Longrightarrow> addr < vm_start (vma_at s p)"
  shows "entry_at (index E) s addr = None"
  using assms by (cases v) (auto simp: at_or_after_def)

lemma find_extend_spec:
  assumes E: "env_ok E" and ok: "mm_ok E s" and r: "find_extend_vma_locked E up addr s = (r, t)"
  shows "grow_result E s (addr AND - 4096) r t"
proof -
  let ?b = "addr AND - 4096"
  have m: "addr AND cst E PAGE_MASK = ?b" by (simp add: hdr_simps(3) [OF env_hdr [OF E]])
  note wf = mm_ok_wf [OF ok]
  have same: "grow_result E s ?b None s" using ok by (simp add: grow_result_def)
  show ?thesis
  proof (cases up)
    case False
    note f = find_vma_spec [OF E wf, of ?b]
    show ?thesis
    proof (cases "find_vma E s ?b")
      case None
      then show ?thesis using r False same by (simp add: find_extend_vma_locked_def find_extend_down_def Let_def m)
    next
      case (Some p)
      show ?thesis
      proof (cases "vm_start (vma_at s p) \<le> ?b")
        case True
        then show ?thesis using r False Some grow_result_found [OF ok f [unfolded Some]]
          by (simp add: find_extend_vma_locked_def find_extend_down_def Let_def m)
      next
        case lt: False
        obtain y u where y: "expand_downwards E p ?b s = (y, u)" by fastforce
        have pm: "p \<in> mapped (index E) s" using f Some by (simp add: at_or_after_def)
        from grow_result_grown [OF grows_down_for [OF E ok f [unfolded Some] _ y] ok pm] lt
        have g: "grow_result E s ?b (case y of Inl e \<Rightarrow> None | Inr _ \<Rightarrow> Some p) u" by simp
        have "r = (case y of Inl e \<Rightarrow> None | Inr _ \<Rightarrow> Some p)" "same_mm t u"
          using r False Some lt y
          by (auto simp: find_extend_vma_locked_def find_extend_down_def Let_def m expand_stack_locked_def split: sum.splits if_splits)
        with grow_result_same [OF g, of s t] show ?thesis by simp
      qed
    qed
  next
    case True
    obtain v q where v: "find_vma_prev E s ?b = (v, q)" by fastforce
    note f = find_vma_prev_spec [OF E wf, of ?b, unfolded v fst_conv snd_conv]
    show ?thesis
    proof (cases "\<exists>p. v = Some p \<and> vm_start (vma_at s p) \<le> ?b")
      case found: True
      then show ?thesis using r True v grow_result_found [OF ok, of ?b] f(1)
        by (auto simp: find_extend_vma_locked_def find_extend_up_def Let_def m)
    next
      case lt: False
      then have no: "(case v of None \<Rightarrow> None | Some p \<Rightarrow> if vm_start (vma_at s p) \<le> ?b then Some p else None) = None"
        by (auto split: option.splits)
      show ?thesis
      proof (cases q)
        case None
        then show ?thesis using r True v no same by (simp add: find_extend_vma_locked_def find_extend_up_def Let_def m)
      next
        case (Some p)
        obtain y u where y: "expand_upwards E p ?b s = (y, u)" by fastforce
        have none: "entry_at (index E) s ?b = None" using lt by (intro at_none [OF ok f(1)]) (auto simp: not_le)
        have pm: "p \<in> mapped (index E) s" using f(2) Some by (simp add: last_before_def)
        have g: "grow_result E s ?b (case y of Inl e \<Rightarrow> None | Inr _ \<Rightarrow> Some p) u"
          by (rule grow_result_grown [OF grows_up_for [OF E ok f(2) [unfolded Some] none y] ok pm])
        have "r = (case y of Inl e \<Rightarrow> None | Inr _ \<Rightarrow> Some p)" "same_mm t u"
          using r True v no Some y
          by (auto simp: find_extend_vma_locked_def find_extend_up_def Let_def m expand_stack_locked_def split: sum.splits if_splits)
        with grow_result_same [OF g, of s t] show ?thesis by simp
      qed
    qed
  qed
qed

end
