(* ===== verification/Stack_Props.thy ===== *)
theory Stack_Props
  imports Stack_Spec
begin

text \<open>
  The locks of growing a stack, \<open>expand_stack\<close> as one attempt in the direction the kernel supports,
  and the property of the theory with a run on a small process.
\<close>

section \<open>Locks\<close>

text \<open>Only the lock of the memory map is held.\<close>

definition map_locked :: "lock list \<Rightarrow> bool" where
  "map_locked h \<longleftrightarrow> set h \<subseteq> {Mmap_write_lock, Mmap_read_lock}"

lemma map_lockedD: "map_locked h \<Longrightarrow> Page_table_lock \<notin> set h" "map_locked h \<Longrightarrow> Anon_vma_lock av \<notin> set h"
  by (auto simp: map_locked_def)

lemma grow_commit_locks:
  assumes "lock_step h s h' u" "Page_table_lock \<notin> set h'"
  shows "lock_step h s h' (grow_commit E p n move u)"
  using lock_step_emit(2) [OF assms] unfolding grow_commit_def Let_def
  by (auto simp: vm_stat_account_def intro!: lock_step_anon lock_step_emit(1,3) lock_step_same_trace
      intro: lock_step_state)

lemma acct_locks:
  assumes "acct_stack_growth E p sz n u = (r, t)" "lock_step h s h' u"
  shows "lock_step h s h' t"
  using assms by (auto simp: acct_stack_growth_def Let_def charge_memory_def split: if_splits)

lemma grow_locks:
  assumes "lock_step h s h' u" "Page_table_lock \<notin> set h'"
  shows "grow_up E p a u = (r, t) \<Longrightarrow> lock_step h s h' t" "grow_down E p a u = (r, t) \<Longrightarrow> lock_step h s h' t"
  using assms acct_locks [OF _ assms(1)]
  by (auto simp: grow_up_def grow_down_def Let_def intro!: grow_commit_locks split: if_splits sum.splits prod.splits)

lemma grow_stack_locks:
  assumes r: "grow_stack E g p a u = (r, t)" and l: "lock_step h s h' u" "map_locked h'"
    and g: "\<And>u h' r t. lock_step h s h' u \<Longrightarrow> Page_table_lock \<notin> set h' \<Longrightarrow> g E p a u = (r, t) \<Longrightarrow> lock_step h s h' t"
  shows "lock_step h s h' t"
proof (cases "prealloc_fails E u \<or> (\<exists>w. do_anon_vma_prepare E p u = (None, w))")
  case True
  then show ?thesis using r l by (auto simp: grow_stack_def do_anon_vma_prepare_def split: if_splits option.splits)
next
  case False
  then obtain av w where w: "do_anon_vma_prepare E p u = (Some av, w)" by (metis not_Some_eq surj_pair)
  let ?w = "emit (Lock (Anon_vma_lock av)) (emit (Vma_write p) w)"
  obtain y z where y: "g E p a ?w = (y, z)" by fastforce
  have "lock_step h s h' (emit (Vma_write p) w)"
    using w l(1) by (auto simp: do_anon_vma_prepare_def split: option.splits)
  then have "lock_step h s (Anon_vma_lock av # h') ?w" using map_lockedD(2) [OF l(2)] by (rule lock_step_emit(2))
  moreover have "Page_table_lock \<notin> set (Anon_vma_lock av # h')" using map_lockedD(1) [OF l(2)] by simp
  ultimately have "lock_step h s (Anon_vma_lock av # h') z" using y by (rule g)
  then have "lock_step h s h' (emit (Khugepaged p) (emit (Unlock (Anon_vma_lock av)) z))"
    by (intro lock_step_emit(1,3)) simp_all
  moreover have "t = emit (Khugepaged p) (emit (Unlock (Anon_vma_lock av)) z)"
    using r False w y by (auto simp: grow_stack_def Let_def)
  ultimately show ?thesis by simp
qed

lemma expand_locks:
  assumes "lock_step h s h' u" "map_locked h'"
  shows "expand_upwards E p a u = (r, t) \<Longrightarrow> lock_step h s h' t" "expand_downwards E p a u = (r, t) \<Longrightarrow> lock_step h s h' t"
proof -
  have up: "lock_step h s h' t" if "grow_stack E grow_up p a u = (r, t)" for a r t
    using that assms by (rule grow_stack_locks) (rule grow_locks(1))
  have down: "lock_step h s h' t" if "grow_stack E grow_down p a u = (r, t)" for a r t
    using that assms by (rule grow_stack_locks) (rule grow_locks(2))
  show "expand_upwards E p a u = (r, t) \<Longrightarrow> lock_step h s h' t"
    unfolding expand_upwards_def Let_def using up assms(1) by (auto split: if_splits)
  show "expand_downwards E p a u = (r, t) \<Longrightarrow> lock_step h s h' t"
    unfolding expand_downwards_def Let_def using down assms(1) by (auto split: if_splits)
qed

lemma lock_step_downgrade:
  "lock_step h s [Mmap_write_lock] t \<Longrightarrow> lock_step h s [Mmap_read_lock] (emit Mmap_downgrade t)"
  by (auto simp: lock_step_def lock_run_append)

section \<open>\<open>expand_stack\<close>\<close>

text \<open>The two attempts of \<open>expand_stack\<close> come down to one, by the direction of the kernel.\<close>

definition stack_candidate :: "bool \<Rightarrow> vptr option \<times> vptr option \<Rightarrow> vptr option" where
  "stack_candidate up vp = (if up then snd vp else fst vp)"

lemma find_vma_prev_emit: "find_vma_prev E (emit e s) = find_vma_prev E s"
  by (intro ext) (simp only: find_vma_prev_def state_simps)

lemma expand_stack_eq:
  assumes "\<not> write_lock_killed E (emit (Unlock Mmap_read_lock) s)"
    and "u = emit (Lock Mmap_write_lock) (emit (Unlock Mmap_read_lock) s)" and "vp = find_vma_prev E s addr"
  shows "expand_stack E up addr s =
    (if \<exists>p. fst vp = Some p \<and> vm_start (vma_at s p) \<le> addr then (fst vp, emit Mmap_downgrade u)
     else (case stack_candidate up vp of
         None \<Rightarrow> (None, emit (Unlock Mmap_write_lock) u)
       | Some q \<Rightarrow> (case expand_stack_locked E up q addr u of
            (Inr _, t) \<Rightarrow> (Some q, emit Mmap_downgrade t)
          | (Inl _, t) \<Rightarrow> (None, emit (Unlock Mmap_write_lock) t))))"
proof -
  have v: "find_vma_prev E u addr = vp" using assms(2,3) by (simp add: find_vma_prev_emit)
  have "vma_at u = vma_at s" using assms(2) by simp
  note eq = expand_stack_def [of E up addr s] Let_def assms(2) [symmetric] v this
  show ?thesis
    using assms(1) unfolding eq
    by (cases vp; cases "fst vp"; cases "snd vp"; cases up)
      (simp_all add: stack_candidate_def vma_expand_up_def vma_expand_down_def expand_stack_locked_def
        split: sum.split prod.split)
qed

lemma candidate_spec:
  assumes E: "env_ok E" and ok: "mm_ok E s"
    and no: "\<not> (\<exists>p. fst (find_vma_prev E s addr) = Some p \<and> vm_start (vma_at s p) \<le> addr)"
    and q: "stack_candidate up (find_vma_prev E s addr) = Some q"
    and r: "expand_stack_locked E up q addr s = (r, t)"
  shows "grow_result E s addr (case r of Inl e \<Rightarrow> None | Inr _ \<Rightarrow> Some q) t"
proof -
  note f = find_vma_prev_spec [OF E mm_ok_wf [OF ok], of addr]
  have none: "entry_at (index E) s addr = None" by (rule at_none [OF ok f(1)]) (use no in \<open>auto simp: not_le\<close>)
  show ?thesis
  proof (cases up)
    case True
    then have l: "last_before (index E) s addr (Some q)" using f(2) q by (simp add: stack_candidate_def)
    then have "q \<in> mapped (index E) s" by (simp add: last_before_def)
    with grow_result_grown [OF grows_up_for [OF E ok l none]] r True ok show ?thesis
      by (simp add: expand_stack_locked_def)
  next
    case False
    then have l: "at_or_after (index E) s addr (Some q)" using f(1) q by (simp add: stack_candidate_def)
    then have "q \<in> mapped (index E) s" by (simp add: at_or_after_def)
    moreover have "addr < vm_start (vma_at s q)" using no q False by (auto simp: stack_candidate_def not_le)
    ultimately show ?thesis using grow_result_grown [OF grows_down_for [OF E ok l]] r False ok
      by (simp add: expand_stack_locked_def)
  qed
qed

lemma expand_stack_spec:
  assumes E: "env_ok E" and ok: "mm_ok E s" and r: "expand_stack E up addr s = (r, t)"
  shows "grow_result E s addr r t"
    "lock_step [Mmap_read_lock] s (case r of None \<Rightarrow> [] | Some _ \<Rightarrow> [Mmap_read_lock]) t"
proof -
  let ?a = "emit (Unlock Mmap_read_lock) s"
  let ?u = "emit (Lock Mmap_write_lock) ?a"
  let ?vp = "find_vma_prev E s addr"
  have la: "lock_step [Mmap_read_lock] s [] ?a" by (rule lock_step_emit(3)) simp
  have lu: "lock_step [Mmap_read_lock] s [Mmap_write_lock] ?u" by (rule lock_step_emit(2) [OF la]) simp
  have us: "same_mm ?u s" by simp
  have none: "grow_result E s addr None t" if "same_mm t s" for t
    using that ok mm_ok_same [OF that, of E] view_same [OF that, of E] same_mmD(2) [OF that] by (simp add: grow_result_def)
  have "grow_result E s addr r t \<and> lock_step [Mmap_read_lock] s (case r of None \<Rightarrow> [] | Some _ \<Rightarrow> [Mmap_read_lock]) t"
  proof (cases "write_lock_killed E ?a")
    case True
    then show ?thesis using r la none by (auto simp: expand_stack_def)
  next
    case False
    note eq = expand_stack_eq [OF False refl refl, of up addr]
    consider (hit) p where "fst ?vp = Some p" "vm_start (vma_at s p) \<le> addr"
      | (miss) "\<not> (\<exists>p. fst ?vp = Some p \<and> vm_start (vma_at s p) \<le> addr)" "stack_candidate up ?vp = None"
      | (attempt) q where "\<not> (\<exists>p. fst ?vp = Some p \<and> vm_start (vma_at s p) \<le> addr)" "stack_candidate up ?vp = Some q"
      by (cases "stack_candidate up ?vp") auto
    then show ?thesis
    proof cases
      case hit
      then have t: "r = Some p" "t = emit Mmap_downgrade ?u" using r eq by auto
      have "at_or_after (index E) s addr (Some p)" using find_vma_prev_spec(1) [OF E mm_ok_wf [OF ok], of addr] hit(1) by simp
      from grow_result_same [OF grow_result_found [OF ok this hit(2)], of s t] t lock_step_downgrade [OF lu]
      show ?thesis by simp
    next
      case miss
      then have t: "r = None" "t = emit (Unlock Mmap_write_lock) ?u" using r miss unfolding eq by auto
      then show ?thesis using none lock_step_emit(3) [OF lu] by simp
    next
      case attempt
      obtain y w where y: "expand_stack_locked E up q addr ?u = (y, w)" by fastforce
      have e: "r = (case y of Inl e \<Rightarrow> None | Inr _ \<Rightarrow> Some q)"
        "t = (case y of Inl e \<Rightarrow> emit (Unlock Mmap_write_lock) w | Inr _ \<Rightarrow> emit Mmap_downgrade w)"
        using r attempt y unfolding eq by (auto split: sum.splits)
      have v: "find_vma_prev E ?u addr = ?vp" by (simp add: find_vma_prev_emit)
      have oku: "mm_ok E ?u" using ok mm_ok_same [OF us, of E] by simp
      have "grow_result E ?u addr (case y of Inl e \<Rightarrow> None | Inr _ \<Rightarrow> Some q) w"
        by (rule candidate_spec [OF E oku _ _ y]) (use attempt in \<open>simp_all add: v\<close>)
      then have "grow_result E s addr r t"
        unfolding e(1) by (rule grow_result_same [OF _ us]) (simp add: e(2) split: sum.split)
      moreover have "map_locked [Mmap_write_lock]" by (simp add: map_locked_def)
      then have "lock_step [Mmap_read_lock] s [Mmap_write_lock] w"
        using expand_locks [OF lu] y by (auto simp: expand_stack_locked_def split: if_splits)
      ultimately show ?thesis using e lock_step_emit(3) lock_step_downgrade by (auto split: sum.splits)
    qed
  qed
  then show "grow_result E s addr r t" "lock_step [Mmap_read_lock] s (case r of None \<Rightarrow> [] | Some _ \<Rightarrow> [Mmap_read_lock]) t"
    by simp_all
qed

text \<open>
  C38: growing a stack is safe.  \<open>expand_stack\<close> (with the map locked for reading) and \<open>find_extend_vma_locked\<close>
  keep the invariant of the memory manager, in kernels whose stacks grow down and in those
  whose stacks grow up.  If they return a mapping it covers the address; it did already, or
  it is the neighbour that may grow towards the address, and then exactly the missing pages
  were added to it, with the file offsets continued, with the new size within the stack limit, and with the guard gap
  to an accessible neighbour that is no stack.  If they return nothing, the address space
  and the counters are as before.  \<open>expand_stack\<close> returns with the map locked for reading if it found a
  mapping and with no lock held if not, whatever failed.
\<close>

theorem stack_growth_is_safe:
  assumes "env_ok E" and "mm_ok E s"
  shows "(expand_stack E up addr s = (r, t) \<longrightarrow> grow_result E s addr r t \<and>
      lock_step [Mmap_read_lock] s (case r of None \<Rightarrow> [] | Some _ \<Rightarrow> [Mmap_read_lock]) t) \<and>
    (find_extend_vma_locked E up addr s = (r, t) \<longrightarrow> grow_result E s (addr AND - 4096) r t)"
  using expand_stack_spec [OF assms] find_extend_spec [OF assms] by blast

lemma demo_stack_grows: "fst (expand_stack x86_env False 0x7fffffeff800 demo_mms) = Some 3"
  by code_simp

theorem stack_growth_is_safe_witness:
  "\<exists>t. expand_stack x86_env False 0x7fffffeff800 demo_mms = (Some 3, t) \<and>
     stack_for x86_env demo_mms 0x7fffffeff800 3 t \<and> lock_step [Mmap_read_lock] demo_mms [Mmap_read_lock] t"
proof -
  obtain t where t: "expand_stack x86_env False 0x7fffffeff800 demo_mms = (Some 3, t)"
    using demo_stack_grows by (metis prod.collapse)
  have "mm_ok x86_env demo_mms" by simp
  from stack_growth_is_safe [OF x86_env_ok this, of False "0x7fffffeff800" "Some 3" t] t
  show ?thesis by (auto simp: grow_result_def)
qed

end
