(* ===== verification/Merge.thy ===== *)
theory Merge
  imports Vma_Spec Vma_Locks
begin

text \<open>
  Merging a range with the mappings next to it: \<open>vma_merge\<close> with its eight cases, and its
  callers \<open>vma_modify\<close>, \<open>vma_merge_new_vma\<close>, \<open>vma_merge_extend\<close> and \<open>copy_vma\<close>.  A plan is what the
  cases decide: the mapping that stays, its new boundaries, the mapping whose start
  moves, and the mappings that go.
\<close>

section \<open>The plan of a merge\<close>

record merge_plan =
  mp_vma :: vptr
  mp_res :: vptr
  mp_start :: u64
  mp_end :: u64
  mp_pgoff :: u64
  mp_adjust :: "vptr option"
  mp_adj_start :: u64 \<comment> \<open>a \<open>long\<close>\<close>
  mp_remove :: "vptr option"
  mp_remove2 :: "vptr option"

text \<open>
  \<open>dup_anon_vma\<close> with the caller's \<open>anon_dup\<close>: the error, the mapping whose \<open>anon_vma\<close> must be
  unlinked again when the merge fails later, and the state.
\<close>

definition merge_dup ::
  "('t, 'a) mm_env_scheme \<Rightarrow> vptr \<Rightarrow> vptr \<Rightarrow> vptr option \<Rightarrow> 't mm_state \<Rightarrow>
     errno option \<times> vptr option \<times> 't mm_state" where
  "merge_dup E dst src anon_dup s =
     (case dup_anon_vma E dst src s of
        (Inl e, s) \<Rightarrow> (Some e, anon_dup, s)
      | (Inr d, s) \<Rightarrow> (None, if d then Some dst else anon_dup, s))"

text \<open>Cases 1 and 6: both neighbours are merged, and what lies between goes.\<close>

definition plan_both ::
  "('t, 'a) mm_env_scheme \<Rightarrow> vptr \<Rightarrow> vptr \<Rightarrow> vptr option \<Rightarrow> 't mm_state \<Rightarrow>
     merge_plan \<times> errno option \<times> vptr option \<times> 't mm_state" where
  "plan_both E prev nxt cur s =
     (let s = emit (Vma_write nxt) s;
          plan = \<lparr>mp_vma = prev, mp_res = prev, mp_start = vm_start (vma_at s prev),
            mp_end = vm_end (vma_at s nxt), mp_pgoff = vm_pgoff (vma_at s prev),
            mp_adjust = None, mp_adj_start = 0, mp_remove = Some nxt, mp_remove2 = None\<rparr>;
          (er, dup, s) = merge_dup E prev nxt None s
      in case cur of
           None \<Rightarrow> (plan, er, dup, s)
         | Some c \<Rightarrow>
             let s = emit (Vma_write c) s;
                 plan = plan\<lparr>mp_remove := Some c, mp_remove2 := Some nxt\<rparr>
             in if anon_vma (vma_at s nxt) = None
                then (case merge_dup E prev c dup s of (er, dup, s) \<Rightarrow> (plan, er, dup, s))
                else (plan, er, dup, s))"

text \<open>Cases 2, 5 and 7: the predecessor grows over the range.\<close>

definition plan_prev ::
  "('t, 'a) mm_env_scheme \<Rightarrow> vptr \<Rightarrow> vptr option \<Rightarrow> u64 \<Rightarrow> 't mm_state \<Rightarrow>
     merge_plan \<times> errno option \<times> vptr option \<times> 't mm_state" where
  "plan_prev E prev cur fin s =
     (let plan = \<lparr>mp_vma = prev, mp_res = prev, mp_start = vm_start (vma_at s prev), mp_end = fin,
            mp_pgoff = vm_pgoff (vma_at s prev), mp_adjust = None, mp_adj_start = 0,
            mp_remove = None, mp_remove2 = None\<rparr>
      in case cur of
           None \<Rightarrow> (plan, None, None, s)
         | Some c \<Rightarrow>
             let s = emit (Vma_write c) s;
                 v = vma_at s c;
                 (er, plan) = (if fin = vm_end v
                   then (if has_close v then Some EINVAL else None, plan\<lparr>mp_remove := Some c\<rparr>)
                   else (None, plan\<lparr>mp_adjust := Some c, mp_adj_start := fin - vm_start v\<rparr>))
             in if er \<noteq> None then (plan, er, None, s)
                else (case merge_dup E prev c None s of (er, dup, s) \<Rightarrow> (plan, er, dup, s)))"

text \<open>Cases 3, 4 and 8: the successor grows down over the range.\<close>

definition plan_next ::
  "('t, 'a) mm_env_scheme \<Rightarrow> vptr option \<Rightarrow> vptr \<Rightarrow> vptr option \<Rightarrow> u64 \<Rightarrow> u64 \<Rightarrow> 't mm_state \<Rightarrow>
     merge_plan \<times> errno option \<times> vptr option \<times> 't mm_state" where
  "plan_next E prev nxt cur addr pglen s =
     (let s = emit (Vma_write nxt) s;
          inside = (case prev of Some p \<Rightarrow> addr < vm_end (vma_at s p) | None \<Rightarrow> False);
          plan = \<lparr>mp_vma = nxt, mp_res = nxt, mp_start = addr, mp_end = vm_end (vma_at s nxt),
            mp_pgoff = vm_pgoff (vma_at s nxt) - pglen, mp_adjust = None, mp_adj_start = 0,
            mp_remove = None, mp_remove2 = None\<rparr>
      in case (prev, inside) of
           (Some p, True) \<Rightarrow>
             let s = emit (Vma_write p) s;
                 plan = \<lparr>mp_vma = p, mp_res = nxt, mp_start = vm_start (vma_at s p), mp_end = addr,
                   mp_pgoff = vm_pgoff (vma_at s p), mp_adjust = Some nxt,
                   mp_adj_start = - (vm_end (vma_at s p) - addr), mp_remove = None, mp_remove2 = None\<rparr>
             in (case merge_dup E nxt p None s of (er, dup, s) \<Rightarrow> (plan, er, dup, s))
         | _ \<Rightarrow>
             (case cur of
                None \<Rightarrow> (plan, None, None, s)
              | Some c \<Rightarrow>
                  let s = emit (Vma_write c) s;
                      plan = plan\<lparr>mp_pgoff := vm_pgoff (vma_at s c), mp_remove := Some c\<rparr>
                  in (case merge_dup E nxt c None s of (er, dup, s) \<Rightarrow> (plan, er, dup, s))))"

section \<open>Carrying it out\<close>

text \<open>
  The boundaries and the index, between \<open>vma_prepare\<close> and \<open>vma_complete\<close>.  \<open>adj_start\<close> is a signed
  number, and so is the number of pages the offset moves by.
\<close>

definition merge_move ::
  "('t, 'a) mm_env_scheme \<Rightarrow> merge_plan \<Rightarrow> bool \<Rightarrow> 't mm_state \<Rightarrow> 't mm_state" where
  "merge_move E plan expanded s =
     (let s = upd_vma (mp_vma plan)
            (\<lambda>v. v\<lparr>vm_start := mp_start plan, vm_end := mp_end plan, vm_pgoff := mp_pgoff plan\<rparr>) s;
          s = (if expanded then vma_iter_store E (mp_vma plan) s else s)
      in if mp_adj_start plan \<noteq> 0 then
           opt_do (mp_adjust plan) (\<lambda>a s.
             let s = upd_vma a (\<lambda>v. v\<lparr>vm_start := vm_start v + mp_adj_start plan,
                   vm_pgoff := vm_pgoff v + signed_drop_bit (PAGE_SHIFT E) (mp_adj_start plan)\<rparr>) s
             in if sneg (mp_adj_start plan) then vma_iter_store E a s else s) s
         else s)"

definition merge_commit ::
  "('t, 'a) mm_env_scheme \<Rightarrow> merge_plan \<Rightarrow> 't mm_state \<Rightarrow> 't mm_state" where
  "merge_commit E plan s =
     (let vma = mp_vma plan;
          expanded = (mp_start plan < vm_start (vma_at s vma) \<or> vm_end (vma_at s vma) < mp_end plan);
          vp = init_multi_vma_prep E s vma (mp_adjust plan) (mp_remove plan) (mp_remove2 plan);
          s = do_vma_prepare E vp s;
          s = emit (Trans_huge vma (mp_start plan) (mp_end plan) (mp_adj_start plan)) s;
          s = merge_move E plan expanded s;
          s = vma_complete E vp s
      in emit (Khugepaged (mp_res plan)) s)"

section \<open>\<open>vma_merge\<close>\<close>

text \<open>What the tests find: the mapping the range lies in, the successor, and which neighbours fit.\<close>

definition merge_curr ::
  "('t, 'a) mm_env_scheme \<Rightarrow> 't mm_state \<Rightarrow> vptr option \<Rightarrow> u64 \<Rightarrow> vptr option" where
  "merge_curr E s prev fin =
     find_vma_intersection E s (case prev of Some p \<Rightarrow> vm_end (vma_at s p) | None \<Rightarrow> 0) fin"

definition merge_succ ::
  "('t, 'a) mm_env_scheme \<Rightarrow> 't mm_state \<Rightarrow> vptr option \<Rightarrow> u64 \<Rightarrow> vptr option" where
  "merge_succ E s cur fin =
     (if (case cur of None \<Rightarrow> True | Some c \<Rightarrow> fin = vm_end (vma_at s c))
      then mt_load (index E) (tree s) fin else None)"

definition fits_prev ::
  "('t, 'a) mm_env_scheme \<Rightarrow> vm_area_struct \<Rightarrow> u64 \<Rightarrow> u64 \<Rightarrow> nat option \<Rightarrow> fptr option \<Rightarrow> u64 \<Rightarrow>
     nat option \<Rightarrow> nat \<Rightarrow> nat option \<Rightarrow> bool" where
  "fits_prev E v addr flags av file pgoff policy uffd name \<longleftrightarrow>
     addr = vm_end v \<and> mpol_equal E (vm_policy v) policy \<and>
     can_vma_merge_after E v flags av file pgoff uffd name"

definition fits_next ::
  "('t, 'a) mm_env_scheme \<Rightarrow> vm_area_struct \<Rightarrow> u64 \<Rightarrow> nat option \<Rightarrow> fptr option \<Rightarrow> u64 \<Rightarrow>
     nat option \<Rightarrow> nat \<Rightarrow> nat option \<Rightarrow> bool" where
  "fits_next E v flags av file pgoff policy uffd name \<longleftrightarrow>
     mpol_equal E policy (vm_policy v) \<and> can_vma_merge_before E v flags av file pgoff uffd name"

definition merge_choice ::
  "('t, 'a) mm_env_scheme \<Rightarrow> vptr option \<Rightarrow> vptr option \<Rightarrow> vptr option \<Rightarrow> bool \<Rightarrow> bool \<Rightarrow> u64 \<Rightarrow> u64 \<Rightarrow> u64 \<Rightarrow>
     't mm_state \<Rightarrow> (merge_plan \<times> errno option \<times> vptr option \<times> 't mm_state) option" where
  "merge_choice E prev cur nxt mprev mnext addr fin pglen s =
     (case (if mprev then prev else None, if mnext then nxt else None) of
        (Some p, Some n) \<Rightarrow>
          let s = emit (Vma_write p) s
          in if is_mergeable_anon_vma (anon_vma (vma_at s p)) (anon_vma (vma_at s n)) None
             then Some (plan_both E p n cur s) else Some (plan_prev E p cur fin s)
      | (Some p, None) \<Rightarrow> Some (plan_prev E p cur fin (emit (Vma_write p) s))
      | (None, Some n) \<Rightarrow> Some (plan_next E prev n cur addr pglen s)
      | (None, None) \<Rightarrow> None)"

definition vma_merge ::
  "('t, 'a) mm_env_scheme \<Rightarrow> vptr option \<Rightarrow> u64 \<Rightarrow> u64 \<Rightarrow> u64 \<Rightarrow> nat option \<Rightarrow> fptr option \<Rightarrow> u64 \<Rightarrow>
     nat option \<Rightarrow> nat \<Rightarrow> nat option \<Rightarrow> 't mm_state \<Rightarrow> vptr option \<times> 't mm_state" where
  "vma_merge E prev addr fin flags av file pgoff policy uffd name s =
     (let pglen = drop_bit (PAGE_SHIFT E) (fin - addr) in
      if flags AND cst E VM_SPECIAL \<noteq> 0 then (None, s)
      else
        let cur = merge_curr E s prev fin;
            nxt = merge_succ E s cur fin;
            mprev = (case prev of None \<Rightarrow> False
              | Some p \<Rightarrow> fits_prev E (vma_at s p) addr flags av file pgoff policy uffd name);
            mnext = (case nxt of None \<Rightarrow> False
              | Some n \<Rightarrow> fits_next E (vma_at s n) flags av file (pgoff + pglen) policy uffd name)
        in
        (case merge_choice E prev cur nxt mprev mnext addr fin pglen s of
           None \<Rightarrow> (None, s)
         | Some (plan, er, dup, s) \<Rightarrow>
             if er \<noteq> None then (None, s)
             else if prealloc_fails E s then
               (None, opt_do dup (do_unlink_anon_vmas E) s)
             else (Some (mp_res plan), merge_commit E plan s)))"

section \<open>Callers\<close>

text \<open>The result is the mapping, or the error of a split.\<close>

definition vma_modify ::
  "('t, 'a) mm_env_scheme \<Rightarrow> vptr option \<Rightarrow> vptr \<Rightarrow> u64 \<Rightarrow> u64 \<Rightarrow> u64 \<Rightarrow> nat option \<Rightarrow> nat \<Rightarrow> nat option \<Rightarrow>
     't mm_state \<Rightarrow> (errno + vptr) \<times> 't mm_state" where
  "vma_modify E prev vma start fin flags policy uffd name s =
     (let v = vma_at s vma;
          pgoff = vm_pgoff v + drop_bit (PAGE_SHIFT E) (start - vm_start v)
      in case vma_merge E prev start fin flags (anon_vma v) (vm_file v) pgoff policy uffd name s of
           (Some merged, s) \<Rightarrow> (Inr merged, s)
         | (None, s) \<Rightarrow>
             (case (if vm_start (vma_at s vma) < start then split_vma E vma start True s else (Inr (), s)) of
                (Inl e, s) \<Rightarrow> (Inl e, s)
              | (Inr _, s) \<Rightarrow>
                  (case (if fin < vm_end (vma_at s vma) then split_vma E vma fin False s else (Inr (), s)) of
                     (Inl e, s) \<Rightarrow> (Inl e, s)
                   | (Inr _, s) \<Rightarrow> (Inr vma, s))))"

definition vma_merge_new_vma ::
  "('t, 'a) mm_env_scheme \<Rightarrow> vptr option \<Rightarrow> vptr \<Rightarrow> u64 \<Rightarrow> u64 \<Rightarrow> u64 \<Rightarrow> 't mm_state \<Rightarrow> vptr option \<times> 't mm_state" where
  "vma_merge_new_vma E prev vma start fin pgoff s =
     (let v = vma_at s vma
      in vma_merge E prev start fin (vm_flags v) (anon_vma v) (vm_file v) pgoff (vm_policy v)
           (vm_userfaultfd_ctx v) (anon_name v) s)"

definition vma_merge_extend ::
  "('t, 'a) mm_env_scheme \<Rightarrow> vptr \<Rightarrow> u64 \<Rightarrow> 't mm_state \<Rightarrow> vptr option \<times> 't mm_state" where
  "vma_merge_extend E vma delta s =
     (let v = vma_at s vma
      in vma_merge E (Some vma) (vm_end v) (vm_end v + delta) (vm_flags v) (anon_vma v) (vm_file v)
           (vm_pgoff v + vma_pages E v) (vm_policy v) (vm_userfaultfd_ctx v) (anon_name v) s)"

text \<open>
  \<open>copy_vma\<close>.  The new mapping when no merge is possible; each failure undoes what came before.
\<close>

definition copy_vma_new ::
  "('t, 'a) mm_env_scheme \<Rightarrow> vptr \<Rightarrow> u64 \<Rightarrow> u64 \<Rightarrow> u64 \<Rightarrow> 't mm_state \<Rightarrow> vptr option \<times> 't mm_state" where
  "copy_vma_new E vma addr len pgoff s =
     (case vma_alloc E s of
        None \<Rightarrow> (None, s)
      | Some new \<Rightarrow>
          let s = emit (Alloc (Vma_obj new)) (put_vma new
                ((vma_at s vma)\<lparr>vm_start := addr, vm_end := addr + len, vm_pgoff := pgoff\<rparr>) s)
          in (case vma_dup_policy E s vma of
                Inl _ \<Rightarrow> (None, vm_area_free new s)
              | Inr pol \<Rightarrow>
                  let s = upd_vma new (\<lambda>v. v\<lparr>vm_policy := pol\<rparr>) s;
                      (ret, av, chain) = anon_vma_clone E s new vma;
                      s = emit (Anon_clone new vma)
                            (upd_vma new (\<lambda>v. v\<lparr>anon_vma := av, anon_vma_chain := chain\<rparr>) s)
                  in if ret \<noteq> None
                     then (None, vm_area_free new (emit (Put_policy (vm_policy (vma_at s new))) s))
                     else
                       let v = vma_at s new;
                           s = (case vm_file v of Some f \<Rightarrow> emit (Get_file f) s | None \<Rightarrow> s);
                           s = (case vm_ops v of
                                  Some ops \<Rightarrow> if op_open ops then emit (Vma_open new) s else s
                                | None \<Rightarrow> s)
                       in (case vma_link E new s of
                             (Inr _, s) \<Rightarrow> (Some new, s)
                           | (Inl _, s) \<Rightarrow>
                               let v = vma_at s new;
                                   s = (if has_close v then emit (Vma_close new) s else s);
                                   s = (case vm_file v of Some f \<Rightarrow> emit (Put_file f) s | None \<Rightarrow> s);
                                   s = do_unlink_anon_vmas E new s
                               in (None, vm_area_free new (emit (Put_policy (vm_policy (vma_at s new))) s)))))"

text \<open>
  The result: the copy, the source (\<open>*vmap\<close>, which may have been merged away), and whether the
  mover needs the locks of the reverse mapping (\<open>*need_rmap_locks\<close>, \<open>None\<close> where it is not written).
\<close>

definition copy_vma ::
  "('t, 'a) mm_env_scheme \<Rightarrow> vptr \<Rightarrow> u64 \<Rightarrow> u64 \<Rightarrow> u64 \<Rightarrow> 't mm_state \<Rightarrow> (vptr option \<times> vptr \<times> bool option) \<times> 't mm_state" where
  "copy_vma E vma addr len pgoff s =
     (let v = vma_at s vma;
          start = vm_start v;
          pgoff = (if vma_is_anonymous E v \<and> anon_vma v = None then drop_bit (PAGE_SHIFT E) addr else pgoff);
          (nxt, prev) = find_vma_prev E s addr
      in if (case nxt of Some n \<Rightarrow> vm_start (vma_at s n) < addr + len | None \<Rightarrow> False) then ((None, vma, None), s)
         else
           (case vma_merge_new_vma E prev vma addr (addr + len) pgoff s of
              (Some new, s) \<Rightarrow>
                let n = vma_at s new;
                    src = (if vm_start n \<le> start \<and> start < vm_end n then new else vma)
                in ((Some new, src, Some (vm_pgoff n \<le> vm_pgoff (vma_at s src))), s)
            | (None, s) \<Rightarrow>
                (case copy_vma_new E vma addr len pgoff s of (r, s) \<Rightarrow> ((r, vma, if r = None then None else Some False), s))))"

end
