(* ===== verification/Merge_Spec.thy ===== *)
theory Merge_Spec
  imports Merge
begin

text \<open>
  What carrying out a merge plan does to the address space: a mapping grows over a range that
  its neighbours and the mapping in between fill (\<open>merged_by_store\<close>), or the boundary between two
  mappings moves (\<open>boundary_moves\<close>).  \<open>merged\<close> is the abstract result of every case.
\<close>

section \<open>Completing with removals\<close>

definition removed_list :: "vptr option \<Rightarrow> vptr option \<Rightarrow> vptr list" where
  "removed_list a b = (case a of None \<Rightarrow> [] | Some r \<Rightarrow> r # (case b of None \<Rightarrow> [] | Some q \<Rightarrow> [q]))"

lemma vma_complete_removes:
  assumes "vp_insert vp = None" "vp_remove vp = None \<Longrightarrow> vp_remove2 vp = None"
  shows "vmas (vma_complete E vp s) =
      (\<lambda>q. if q \<in> set_option (vp_remove vp) \<union> set_option (vp_remove2 vp) then None else vmas s q)"
    "cur_mm (vma_complete E vp s) = (cur_mm s)\<lparr>map_count := map_count (cur_mm s) -
       int (length (removed_list (vp_remove vp) (vp_remove2 vp)))\<rparr>"
proof -
  have "\<exists>u. same_mm u s \<and> vma_complete E vp s = complete_removes vp u"
    using assms unfolding vma_complete_def Let_def complete_flush_def complete_links_def
      complete_anon_def complete_file_def
    by (auto simp: opt_do_def intro!: opt_do_same' exI split: option.splits)
  then obtain u where u: "same_mm u s" "vma_complete E vp s = complete_removes vp u" by blast
  note d = same_mmD [OF u(1)]
  show "vmas (vma_complete E vp s) =
      (\<lambda>q. if q \<in> set_option (vp_remove vp) \<union> set_option (vp_remove2 vp) then None else vmas s q)"
    using assms(2) unfolding u(2) complete_removes_def
    by (auto simp: opt_do_def complete_remove_state d fun_eq_iff split: option.splits)
  show "cur_mm (vma_complete E vp s) = (cur_mm s)\<lparr>map_count := map_count (cur_mm s) - int (length (removed_list (vp_remove vp) (vp_remove2 vp)))\<rparr>"
    unfolding u(2) complete_removes_def removed_list_def
    by (auto simp: opt_do_def complete_remove_state d split: option.splits)
qed

section \<open>Carrying out a plan\<close>

definition plan_removes :: "merge_plan \<Rightarrow> vptr set" where
  "plan_removes plan = set_option (mp_remove plan) \<union> set_option (mp_remove2 plan)"

definition plan_vma :: "'t mm_state \<Rightarrow> merge_plan \<Rightarrow> vm_area_struct" where
  "plan_vma s plan = (vma_at s (mp_vma plan))
     \<lparr>vm_start := mp_start plan, vm_end := mp_end plan, vm_pgoff := mp_pgoff plan\<rparr>"

text \<open>A mapping grows over the range and what is removed.\<close>

lemma commit_expand:
  assumes E: "env_ok E" and p: "p = mp_vma plan" "p \<in> mapped (index E) s"
    and plan: "mp_adjust plan = None" "mp_adj_start plan = 0" "mp_remove plan = None \<Longrightarrow> mp_remove2 plan = None"
    and rem: "mp_remove plan \<noteq> None \<Longrightarrow> mp_remove plan \<noteq> mp_remove2 plan"
    and ex: "mp_start plan < vm_start (vma_at s p) \<or> vm_end (vma_at s p) < mp_end plan"
    and c: "covers E s (mp_start plan) (mp_end plan) p (plan_removes plan)"
  shows "stores E p (plan_vma s plan) (plan_removes plan) s (merge_commit E plan s)"
    "same_counters s (merge_commit E plan s)"
proof -
  let ?vp = "init_multi_vma_prep E s p None (mp_remove plan) (mp_remove2 plan)"
  define u where "u = emit (Trans_huge p (mp_start plan) (mp_end plan) 0) (do_vma_prepare E ?vp s)"
  define w where "w = vma_iter_store E p (upd_vma p
    (\<lambda>v. v\<lparr>vm_start := mp_start plan, vm_end := mp_end plan, vm_pgoff := mp_pgoff plan\<rparr>) u)"
  have t: "merge_commit E plan s = emit (Khugepaged (mp_res plan)) (vma_complete E ?vp w)"
    using ex by (simp add: merge_commit_def merge_move_def Let_def plan(1,2) u_def w_def p(1) [symmetric])
  have us: "same_mm u s" using do_vma_prepare_same [of E ?vp s] by (simp add: u_def)
  note d = same_mmD [OF us]
  have lt: "mp_start plan < mp_end plan" and pR: "p \<notin> plan_removes plan" using c by (auto simp: covers_def)
  have w: "vmas w = (vmas s)(p \<mapsto> plan_vma s plan)"
    "cur_mm w = (cur_mm s)\<lparr>mm_mt := mt_store (index E) (tree s) (mp_start plan) (mp_end plan - 1) (Some p)\<rparr>"
    by (simp_all add: w_def vma_iter_store_def upd_vma_def plan_vma_def d p(1) [symmetric])
  have cnt: "length (removed_list (mp_remove plan) (mp_remove2 plan)) = card (plan_removes plan)"
    using plan(3) rem by (auto simp: plan_removes_def removed_list_def split: option.splits)
  note x = vma_complete_removes [of ?vp, of E w]
  have "vmas (merge_commit E plan s) = (\<lambda>q. if q \<in> plan_removes plan then None else vmas w q)"
    and m: "cur_mm (merge_commit E plan s) = (cur_mm w)\<lparr>map_count := map_count (cur_mm w) - int (card (plan_removes plan))\<rparr>"
    using x plan(3) cnt unfolding t by (simp_all add: init_multi_vma_prep_def plan_removes_def)
  then show "stores E p (plan_vma s plan) (plan_removes plan) s (merge_commit E plan s)"
    using pR p(2) lt by (auto simp: stores_def w maple_store [OF env_maple [OF E]] le_below_end plan_vma_def)
  show "same_counters s (merge_commit E plan s)" unfolding m w by simp
qed


text \<open>The boundary between two mappings moves: \<open>a\<close> gives up what \<open>p\<close> gets.\<close>

definition plan_adj :: "('t, 'a) mm_env_scheme \<Rightarrow> merge_plan \<Rightarrow> vm_area_struct \<Rightarrow> vm_area_struct" where
  "plan_adj E plan v = v\<lparr>vm_start := vm_start v + mp_adj_start plan,
     vm_pgoff := vm_pgoff v + signed_drop_bit (PAGE_SHIFT E) (mp_adj_start plan)\<rparr>"

lemma commit_adjust:
  assumes p: "p = mp_vma plan" and a: "mp_adjust plan = Some a" "a \<noteq> p" "mp_adj_start plan \<noteq> 0"
    and rem: "mp_remove plan = None" "mp_remove2 plan = None"
    and ex: "ex = (mp_start plan < vm_start (vma_at s p) \<or> vm_end (vma_at s p) < mp_end plan)"
    and w': "w' = plan_adj E plan (vma_at s a)"
  shows "vmas (merge_commit E plan s) = (vmas s)(p \<mapsto> plan_vma s plan, a \<mapsto> w')"
    "cur_mm (merge_commit E plan s) = (cur_mm s)\<lparr>mm_mt :=
       (let t = (if ex then mt_store (index E) (tree s) (mp_start plan) (mp_end plan - 1) (Some p) else tree s)
        in if sneg (mp_adj_start plan) then mt_store (index E) t (vm_start w') (vm_end w' - 1) (Some a) else t)\<rparr>"
proof -
  let ?vp = "init_multi_vma_prep E s p (Some a) None None"
  define u where "u = emit (Trans_huge p (mp_start plan) (mp_end plan) (mp_adj_start plan)) (do_vma_prepare E ?vp s)"
  have t: "merge_commit E plan s = emit (Khugepaged (mp_res plan)) (vma_complete E ?vp (merge_move E plan ex u))"
    by (simp add: merge_commit_def Let_def u_def ex rem a p [symmetric])
  have us: "same_mm u s" using do_vma_prepare_same [of E ?vp s] by (simp add: u_def)
  note d = same_mmD [OF us]
  have m: "vmas (merge_move E plan ex u) = (vmas s)(p \<mapsto> plan_vma s plan, a \<mapsto> w')"
    "cur_mm (merge_move E plan ex u) = (cur_mm s)\<lparr>mm_mt :=
       (let t = (if ex then mt_store (index E) (tree s) (mp_start plan) (mp_end plan - 1) (Some p) else tree s)
        in if sneg (mp_adj_start plan) then mt_store (index E) t (vm_start w') (vm_end w' - 1) (Some a) else t)\<rparr>"
    using a by (simp_all add: merge_move_def opt_do_def vma_iter_store_def upd_vma_def plan_vma_def plan_adj_def Let_def
        w' d p [symmetric])
  have "same_mm (merge_commit E plan s) (merge_move E plan ex u)"
    unfolding t emit_same by (rule vma_complete_plain) (simp_all add: init_multi_vma_prep_def)
  note same_mmD [OF this]
  with m show "vmas (merge_commit E plan s) = (vmas s)(p \<mapsto> plan_vma s plan, a \<mapsto> w')"
    "cur_mm (merge_commit E plan s) = (cur_mm s)\<lparr>mm_mt :=
       (let t = (if ex then mt_store (index E) (tree s) (mp_start plan) (mp_end plan - 1) (Some p) else tree s)
        in if sneg (mp_adj_start plan) then mt_store (index E) t (vm_start w') (vm_end w' - 1) (Some a) else t)\<rparr>"
    by simp_all
qed

lemma boundary_moves:
  assumes E: "env_ok E" and ok: "mm_ok E s" and p: "p \<in> mapped (index E) s" and c: "c \<in> mapped (index E) s" "p \<noteq> c"
    and ab: "a < b"
    and w': "vm_start w' < vm_end w'" "4096 dvd unat (vm_start w')" "4096 dvd unat (vm_end w')"
    and cut: "\<And>k. (vm_start (vma_at s c) \<le> k \<and> k < vm_end (vma_at s c)) =
        ((a \<le> k \<and> k < b) \<or> (vm_start w' \<le> k \<and> k < vm_end w'))"
      "\<And>k. \<not> ((a \<le> k \<and> k < b) \<and> vm_start w' \<le> k \<and> k < vm_end w')"
      "\<And>k. vm_start w' \<le> k \<Longrightarrow> k < vm_end w' \<Longrightarrow> content w' k = content (vma_at s c) k"
    and w: "4096 dvd unat (vm_start w)" "4096 dvd unat (vm_end w)"
    and grow: "\<And>k. (vm_start w \<le> k \<and> k < vm_end w) =
        ((vm_start (vma_at s p) \<le> k \<and> k < vm_end (vma_at s p)) \<or> (a \<le> k \<and> k < b))"
    and t: "vmas t = (vmas s)(p \<mapsto> w, c \<mapsto> w')" "map_count (cur_mm t) = map_count (cur_mm s)"
      "\<And>k. entry_at (index E) t k = (if vm_start w \<le> k \<and> k < vm_end w then Some p else entry_at (index E) s k)"
  shows "mm_ok E t" "mapped (index E) t = mapped (index E) s"
    "view E t k = (if vm_start w \<le> k \<and> k < vm_end w then Some (content w k) else view E s k)"
proof -
  let ?M = "index E"
  define r where "r = upd_mm (\<lambda>mm. mm\<lparr>mm_mt := mt_store ?M (mm_mt mm) a (b - 1) None\<rparr>) (put_vma c w' s)"
  have er: "entry_at ?M r k = (if a \<le> k \<and> k < b then None else entry_at ?M s k)" for k
    by (simp add: r_def maple_store [OF env_maple [OF E]] le_below_end [OF ab])
  have vr: "vmas r = (vmas s)(c \<mapsto> w')" "map_count (cur_mm r) = map_count (cur_mm s)" by (simp_all add: r_def)
  have rc: "vmas r c = Some w'" "\<And>q. q \<in> mapped ?M s \<Longrightarrow> q \<noteq> c \<Longrightarrow> vmas r q = vmas s q" by (simp_all add: vr)
  have R: "mm_ok E r" "mapped ?M r = mapped ?M s" "\<And>k. view E r k = (if a \<le> k \<and> k < b then None else view E s k)"
    using trims_ok [OF ok c(1) er rc(1) w'(1-3) cut(1,2) rc(2) vr(2) cut(3)] by blast+
  have pr: "p \<in> mapped ?M r" using p R(2) by simp
  have vp: "vma_at r p = vma_at s p" using c(2) by (simp add: vma_at_def vr)
  note x = mapped_extent [OF mm_ok_wf [OF ok] p] and y = mapped_extent [OF mm_ok_wf [OF R(1)] pr, unfolded vp]
  have in_w: "vm_start w \<le> k \<and> k < vm_end w" if "entry_at ?M r k = Some p" for k
    using y(3) [of k] that grow [of k] by simp
  have hit: "q = p" if "vm_start w \<le> k" "k < vm_end w" "entry_at ?M r k = Some q" for k q
    using grow [of k] that er [of k] y(3) [of k] by auto
  have "entry_at ?M r (vm_start (vma_at s p)) = Some p" using y(2) y(3) [of "vm_start (vma_at s p)"] by simp
  from in_w [OF this] have "vm_start w < vm_end w" by (rule conjE) (rule le_less_trans)
  then have "covers E r (vm_start w) (vm_end w) p {}"
    using w hit in_w unfolding covers_def by blast
  moreover have "stores E p w {} r t"
    unfolding stores_def using t(3) er grow pr R(2) c(2)
    by (auto simp: t(1,2) vr)
  ultimately have T: "mm_ok E t" "mapped ?M t = insert p (mapped ?M r)"
    "\<And>k. view E t k = (if vm_start w \<le> k \<and> k < vm_end w then Some (content w k) else view E r k)"
    using stores_ok [OF R(1)] by auto
  show "mm_ok E t" by (rule T(1))
  show "mapped ?M t = mapped ?M s" using T(2) R(2) p by auto
  show "view E t k = (if vm_start w \<le> k \<and> k < vm_end w then Some (content w k) else view E s k)"
    using T(3) [of k] R(3) [of k] grow [of k] by auto
qed

section \<open>The range and its neighbours\<close>

text \<open>The neighbours that fit, as the tests on them found.\<close>

definition prev_fits ::
  "('t, 'a) mm_env_scheme \<Rightarrow> 't mm_state \<Rightarrow> vptr \<Rightarrow> u64 \<Rightarrow> u64 \<Rightarrow> fptr option \<Rightarrow> u64 \<Rightarrow> bool" where
  "prev_fits E s p addr flags f pgoff \<longleftrightarrow>
     p \<in> mapped (index E) s \<and> vm_end (vma_at s p) = addr \<and> vm_file (vma_at s p) = f \<and>
     vm_flags (vma_at s p) AND NOT (cst E VM_SOFTDIRTY) = flags AND NOT (cst E VM_SOFTDIRTY) \<and>
     (\<forall>x. addr \<le> x \<longrightarrow> page_at (vma_at s p) x = pgoff + drop_bit 12 (x - addr))"

definition next_fits ::
  "('t, 'a) mm_env_scheme \<Rightarrow> 't mm_state \<Rightarrow> vptr \<Rightarrow> u64 \<Rightarrow> u64 \<Rightarrow> fptr option \<Rightarrow> u64 \<Rightarrow> bool" where
  "next_fits E s n fin flags f pgoff \<longleftrightarrow>
     n \<in> mapped (index E) s \<and> vm_start (vma_at s n) = fin \<and> vm_file (vma_at s n) = f \<and>
     vm_flags (vma_at s n) AND NOT (cst E VM_SOFTDIRTY) = flags AND NOT (cst E VM_SOFTDIRTY) \<and>
     vm_pgoff (vma_at s n) = pgoff"

text \<open>
  The mapping \<open>q\<close> shows the requested contents in the range and the rest is as before; a merge makes no new mapping.
\<close>

definition placed ::
  "('t, 'a) mm_env_scheme \<Rightarrow> 't mm_state \<Rightarrow> vptr \<Rightarrow> u64 \<Rightarrow> u64 \<Rightarrow> u64 \<Rightarrow> fptr option \<Rightarrow> u64 \<Rightarrow> 't mm_state \<Rightarrow> bool" where
  "placed E s q addr fin flags f pgoff t \<longleftrightarrow>
     mm_ok E t \<and> q \<in> mapped (index E) t \<and> vm_start (vma_at t q) \<le> addr \<and> fin \<le> vm_end (vma_at t q) \<and>
     seen E t = (\<lambda>x. if addr \<le> x \<and> x < fin
       then Some (f, pgoff + drop_bit 12 (x - addr), flags AND NOT (cst E VM_SOFTDIRTY)) else seen E s x) \<and>
     same_counters s t"

definition merged ::
  "('t, 'a) mm_env_scheme \<Rightarrow> 't mm_state \<Rightarrow> vptr \<Rightarrow> u64 \<Rightarrow> u64 \<Rightarrow> u64 \<Rightarrow> fptr option \<Rightarrow> u64 \<Rightarrow> 't mm_state \<Rightarrow> bool" where
  "merged E s q addr fin flags f pgoff t \<longleftrightarrow>
     placed E s q addr fin flags f pgoff t \<and> mapped (index E) t \<subseteq> mapped (index E) s"

lemma seen_mapped:
  "entry_at (index E) s x = Some q \<Longrightarrow> seen E s x = Some (vm_file (vma_at s q), page_at (vma_at s q) x,
     vm_flags (vma_at s q) AND NOT (cst E VM_SOFTDIRTY))"
  by (simp add: seen_def view_def content_def)

text \<open>
  The mappings of a range \<open>[A, B)\<close>: the predecessor up to \<open>addr\<close> (if \<open>left\<close>), nothing or one mapping on
  \<open>[addr, fin)\<close>, the successor from \<open>fin\<close> on (if \<open>right\<close>).
\<close>

definition tiling ::
  "('t, 'a) mm_env_scheme \<Rightarrow> 't mm_state \<Rightarrow> bool \<Rightarrow> bool \<Rightarrow> vptr \<Rightarrow> vptr \<Rightarrow> vptr option \<Rightarrow> u64 \<Rightarrow> u64 \<Rightarrow>
     u64 \<Rightarrow> fptr option \<Rightarrow> u64 \<Rightarrow> bool" where
  "tiling E s left right p n cur addr fin flags f pgoff \<longleftrightarrow>
     mm_ok E s \<and> addr < fin \<and> 4096 dvd unat addr \<and> 4096 dvd unat fin \<and>
     (left \<longrightarrow> prev_fits E s p addr flags f pgoff) \<and>
     (right \<longrightarrow> next_fits E s n fin flags f (pgoff + drop_bit 12 (fin - addr))) \<and> (left \<or> right) \<and>
     (\<forall>k. addr \<le> k \<and> k < fin \<longrightarrow> entry_at (index E) s k = cur) \<and>
     (\<forall>c k. cur = Some c \<longrightarrow> entry_at (index E) s k = Some c \<longrightarrow> addr \<le> k \<and> k < fin)"

lemma tilingD:
  assumes "tiling E s left right p n cur addr fin flags f pgoff"
  shows "mm_ok E s" "addr < fin" "4096 dvd unat addr" "4096 dvd unat fin"
    "left \<Longrightarrow> prev_fits E s p addr flags f pgoff"
    "right \<Longrightarrow> next_fits E s n fin flags f (pgoff + drop_bit 12 (fin - addr))" "left \<or> right"
    "\<And>k. addr \<le> k \<Longrightarrow> k < fin \<Longrightarrow> entry_at (index E) s k = cur"
    "\<And>c k. cur = Some c \<Longrightarrow> entry_at (index E) s k = Some c \<Longrightarrow> addr \<le> k \<and> k < fin"
  using assms unfolding tiling_def by blast+

definition tile_lo :: "'t mm_state \<Rightarrow> bool \<Rightarrow> vptr \<Rightarrow> u64 \<Rightarrow> u64" where
  "tile_lo s left p addr = (if left then vm_start (vma_at s p) else addr)"

definition tile_hi :: "'t mm_state \<Rightarrow> bool \<Rightarrow> vptr \<Rightarrow> u64 \<Rightarrow> u64" where
  "tile_hi s right n fin = (if right then vm_end (vma_at s n) else fin)"

lemma left_entry:
  assumes T: "tiling E s left right p n cur addr fin flags f pgoff"
  shows "left \<Longrightarrow> entry_at (index E) s k = Some p \<longleftrightarrow> vm_start (vma_at s p) \<le> k \<and> k < addr"
  "left \<Longrightarrow> vm_start (vma_at s p) < addr"
  using mapped_extent [OF mm_ok_wf [OF tilingD(1) [OF T]], of p] tilingD(5) [OF T] by (auto simp: prev_fits_def)

lemma right_entry:
  assumes T: "tiling E s left right p n cur addr fin flags f pgoff"
  shows "right \<Longrightarrow> entry_at (index E) s k = Some n \<longleftrightarrow> fin \<le> k \<and> k < vm_end (vma_at s n)"
  "right \<Longrightarrow> fin < vm_end (vma_at s n)"
  using mapped_extent [OF mm_ok_wf [OF tilingD(1) [OF T]], of n] tilingD(6) [OF T] by (auto simp: next_fits_def)

lemma tile_bounds:
  assumes T: "tiling E s left right p n cur addr fin flags f pgoff"
  shows "tile_lo s left p addr \<le> addr" "fin \<le> tile_hi s right n fin"
  using left_entry(2) [OF T] right_entry(2) [OF T] by (auto simp: tile_lo_def tile_hi_def less_imp_le)

lemma tile_distinct:
  assumes T: "tiling E s left right p n cur addr fin flags f pgoff"
  shows "left \<Longrightarrow> right \<Longrightarrow> p \<noteq> n" "left \<Longrightarrow> cur \<noteq> Some p" "right \<Longrightarrow> cur \<noteq> Some n"
proof -
  note lt = tilingD(2) [OF T] and mid = tilingD(8) [OF T order_refl tilingD(2) [OF T]]
  show "p \<noteq> n" if left right
    using left_entry(1) [OF T that(1), of "vm_start (vma_at s p)"] left_entry(2) [OF T that(1)]
      right_entry(1) [OF T that(2), of "vm_start (vma_at s p)"] lt by (auto dest: less_trans)
  show "cur \<noteq> Some p" if left
    using left_entry(1) [OF T that, of addr] mid by auto
  show "cur \<noteq> Some n" if right
    using right_entry(1) [OF T that, of addr] mid lt by auto
qed

text \<open>Every address of the range: where it lies and what is there.\<close>

lemma tile_parts:
  assumes T: "tiling E s left right p n cur addr fin flags f pgoff"
    and "tile_lo s left p addr \<le> k" "k < tile_hi s right n fin"
  obtains "left" "k < addr" "entry_at (index E) s k = Some p"
    | "addr \<le> k" "k < fin" "entry_at (index E) s k = cur"
    | "right" "fin \<le> k" "entry_at (index E) s k = Some n"
  using assms(2,3) left_entry(1) [OF T, of k] right_entry(1) [OF T, of k] tilingD(8) [OF T, of k]
  by (cases "k < addr"; cases "k < fin") (auto simp: tile_lo_def tile_hi_def not_less split: if_splits)

lemma tile_covers:
  assumes T: "tiling E s left right p n cur addr fin flags f pgoff"
    and q: "q = (if left then p else n)"
    and R: "R = (if left \<and> right then {n} else {}) \<union> set_option cur"
  shows "covers E s (tile_lo s left p addr) (tile_hi s right n fin) q R"
proof -
  let ?M = "index E" and ?A = "tile_lo s left p addr" and ?B = "tile_hi s right n fin"
  note d = tilingD [OF T] and bounds = tile_bounds [OF T]
  have AB: "?A < ?B" using bounds d(2) by (meson le_less_trans less_le_trans)
  have al: "4096 dvd unat ?A" "4096 dvd unat ?B"
    using d(3-6) mm_ok_aligned [OF d(1)]
    by (auto simp: tile_lo_def tile_hi_def prev_fits_def next_fits_def vmas_aligned_def)
  have "cur = Some c \<Longrightarrow> c \<in> mapped ?M s" for c using d(2) d(8) [of addr] by (auto simp: mapped_def)
  then have sub: "R \<subseteq> mapped ?M s" using d(6) by (auto simp: R next_fits_def split: if_splits)
  have qR: "q \<notin> R" using tile_distinct [OF T] d(7) by (auto simp: q R)
  have hit: "r = q \<or> r \<in> R" if "?A \<le> k" "k < ?B" "entry_at ?M s k = Some r" for k r
    using that(3) by (cases rule: tile_parts [OF T that(1,2)]) (use d(7) in \<open>auto simp: q R split: if_splits\<close>)
  have in_AB: "?A \<le> k \<and> k < ?B" if "entry_at ?M s k = Some r" "r = q \<or> r \<in> R" for k r
  proof -
    note r = that(2)
    consider "left" "r = p" | "right" "r = n" | "cur = Some r"
      using r d(7) by (auto simp: q R split: if_splits)
    then show ?thesis
    proof cases
      case 1
      then have "?A \<le> k" "k < addr" using left_entry(1) [OF T, of k] that(1) by (auto simp: tile_lo_def)
      then show ?thesis using bounds(2) d(2) by (meson less_trans less_le_trans)
    next
      case 2
      then have "fin \<le> k" "k < ?B" using right_entry(1) [OF T, of k] that(1) by (auto simp: tile_hi_def)
      then show ?thesis using bounds(1) d(2) by (meson le_less_trans less_imp_le less_le_trans)
    next
      case 3
      from d(9) [OF this that(1)] show ?thesis using bounds by (meson less_le_trans order_trans)
    qed
  qed
  show ?thesis unfolding covers_def using AB al sub qR hit in_AB by blast
qed

lemma merged_by_store:
  assumes T: "tiling E s left right p n cur addr fin flags f pgoff"
    and q: "q = (if left then p else n)" and R: "R = (if left \<and> right then {n} else {}) \<union> set_option cur"
    and w: "vm_start w = tile_lo s left p addr" "vm_end w = tile_hi s right n fin"
      "vm_pgoff w = (if left then vm_pgoff (vma_at s p) else pgoff)"
      "vm_file w = vm_file (vma_at s q)" "vm_flags w = vm_flags (vma_at s q)"
    and st: "stores E q w R s t" and cn: "same_counters s t"
  shows "merged E s q addr fin flags f pgoff t"
proof -
  let ?M = "index E" and ?sd = "NOT (cst E VM_SOFTDIRTY)"
  have c: "covers E s (vm_start w) (vm_end w) q R" using tile_covers [OF T q R] by (simp add: w)
  note d = tilingD [OF T] and bounds = tile_bounds [OF T]
  note o = stores_ok [OF d(1) c st]
  have wf: "vm_file w = f" "vm_flags w AND ?sd = flags AND ?sd"
    using d(5-7) by (auto simp: w q prev_fits_def next_fits_def)
  have left_page: "page_at w x = page_at (vma_at s p) x" if left for x
    using that by (simp add: page_at_def w tile_lo_def)
  have page: "page_at w x = pgoff + drop_bit 12 (x - addr)" if "addr \<le> x" for x
  proof (cases left)
    case True
    then show ?thesis using left_page [of x] d(5) that by (simp add: prev_fits_def)
  qed (simp add: page_at_def w tile_lo_def)
  have split: "drop_bit 12 (x - addr) = drop_bit 12 (fin - addr) + drop_bit 12 (x - fin)" if "fin \<le> x" for x
    by (rule drop_bit_split [OF less_imp_le [OF d(2)] that dvd_unat_diff [OF less_imp_le [OF d(2)] d(4,3)]])
  have old: "seen E s x = Some (f, page_at w x, flags AND ?sd)"
    if x: "vm_start w \<le> x" "x < vm_end w" "\<not> (addr \<le> x \<and> x < fin)" for x
  proof -
    have "tile_lo s left p addr \<le> x" "x < tile_hi s right n fin" using x w by simp_all
    then show ?thesis
    proof (cases rule: tile_parts [OF T, consumes 2])
      case 1
      from seen_mapped [OF 1(3)] left_page [OF 1(1)] d(5) [OF 1(1)] show ?thesis by (simp add: prev_fits_def)
    next
      case 2
      with x(3) show ?thesis by simp
    next
      case 3
      have "page_at w x = pgoff + drop_bit 12 (fin - addr) + drop_bit 12 (x - fin)"
        using page [of x] split [OF 3(2)] d(2) 3(2) by (simp add: add.assoc)
      with seen_mapped [OF 3(3)] d(6) [OF 3(1)] show ?thesis by (simp add: next_fits_def page_at_def)
    qed
  qed
  have "seen E t x = (if addr \<le> x \<and> x < fin then Some (f, pgoff + drop_bit 12 (x - addr), flags AND ?sd) else seen E s x)" for x
  proof (cases "vm_start w \<le> x \<and> x < vm_end w")
    case True
    then have "seen E t x = Some (f, page_at w x, flags AND ?sd)"
      using wf by (simp add: seen_def o(3) content_def)
    with True old [of x] page [of x] show ?thesis by auto
  next
    case False
    moreover have "\<not> (addr \<le> x \<and> x < fin)" using False bounds w by (auto dest: less_le_trans order_trans)
    moreover have "seen E t x = seen E s x" using False by (simp only: seen_def o(3) if_False)
    ultimately show ?thesis by auto
  qed
  moreover have "vma_at t q = w" using st by (simp add: stores_def vma_at_def)
  moreover have "q \<in> mapped ?M s" using d(5-7) by (auto simp: q prev_fits_def next_fits_def)
  ultimately show ?thesis using o(1,2) bounds cn w by (auto simp: merged_def placed_def fun_eq_iff)
qed

end
