(* ===== verification/Merge_Cases.thy ===== *)
theory Merge_Cases
  imports Merge_Spec
begin

text \<open>
  The cases of \<open>vma_merge\<close>: which plan each choice makes, on states that differ in the \<open>anon_vma\<close> of
  one mapping, and that committing each of the three forms of plan gives \<open>merged\<close>.
\<close>

section \<open>Choosing the case\<close>

lemma anon_upd_fields:
  assumes "anon_upd d s u"
  shows "vm_start (vma_at u q) = vm_start (vma_at s q)" "vm_end (vma_at u q) = vm_end (vma_at s q)"
    "vm_pgoff (vma_at u q) = vm_pgoff (vma_at s q)" "vm_file (vma_at u q) = vm_file (vma_at s q)"
    "vm_flags (vma_at u q) = vm_flags (vma_at s q)" "page_at (vma_at u q) = page_at (vma_at s q)"
    "cur_mm u = cur_mm s"
proof -
  show "vm_start (vma_at u q) = vm_start (vma_at s q)" "vm_end (vma_at u q) = vm_end (vma_at s q)"
    "vm_pgoff (vma_at u q) = vm_pgoff (vma_at s q)" "vm_file (vma_at u q) = vm_file (vma_at s q)"
    "vm_flags (vma_at u q) = vm_flags (vma_at s q)" "page_at (vma_at u q) = page_at (vma_at s q)"
    using anon_upd_view(1) [OF assms, of q] by (auto simp: page_at_def fun_eq_iff)
  show "cur_mm u = cur_mm s" using assms by (simp add: anon_upd_def)
qed

lemma tiling_anon:
  assumes T: "tiling E s left right p n cur addr fin flags f pgoff" and a: "anon_upd d s u" "d \<in> mapped (index E) s"
  shows "tiling E u left right p n cur addr fin flags f pgoff"
  using T anon_upd_ok [OF a(1) tilingD(1) [OF T] a(2)]
  unfolding tiling_def prev_fits_def next_fits_def anon_upd_fields [OF a(1)] anon_upd_view(3) [OF a(1)]
  by blast

lemma merged_anon:
  assumes "merged E u q addr fin flags f pgoff t" "anon_upd d s u"
  shows "merged E s q addr fin flags f pgoff t"
  using assms(1)
  unfolding merged_def placed_def anon_upd_fields [OF assms(2)] anon_upd_view(3) [OF assms(2)]
    seen_view [OF anon_upd_view(2) [OF assms(2)], of E] .

lemma merge_dup_upd:
  assumes "merge_dup E dst src d0 s = (er, dup, t)" "vmas s dst = Some v"
  shows "anon_upd dst s t" "dup = d0 \<or> dup = Some dst"
  using assms(1) dup_anon_vma_upd [OF assms(2), of E src]
  by (auto simp: merge_dup_def split: prod.splits sum.splits if_splits)

text \<open>The plan when a mapping grows over the range, and when a boundary moves.\<close>

definition grow_plan ::
  "'t mm_state \<Rightarrow> bool \<Rightarrow> bool \<Rightarrow> vptr \<Rightarrow> vptr \<Rightarrow> vptr option \<Rightarrow> u64 \<Rightarrow> u64 \<Rightarrow> u64 \<Rightarrow> merge_plan" where
  "grow_plan s left right p n cur addr fin pglen =
     (let q = (if left then p else n);
          nx = (if left \<and> right then Some n else None)
      in \<lparr>mp_vma = q, mp_res = q, mp_start = tile_lo s left p addr, mp_end = tile_hi s right n fin,
        mp_pgoff = (if left then vm_pgoff (vma_at s p) else
          (case cur of None \<Rightarrow> vm_pgoff (vma_at s n) - pglen | Some c \<Rightarrow> vm_pgoff (vma_at s c))),
        mp_adjust = None, mp_adj_start = 0,
        mp_remove = (case cur of None \<Rightarrow> nx | Some c \<Rightarrow> Some c), mp_remove2 = (case cur of None \<Rightarrow> None | Some c \<Rightarrow> nx)\<rparr>)"

definition upto_plan :: "'t mm_state \<Rightarrow> vptr \<Rightarrow> vptr \<Rightarrow> u64 \<Rightarrow> merge_plan" where
  "upto_plan s p c fin = \<lparr>mp_vma = p, mp_res = p, mp_start = vm_start (vma_at s p), mp_end = fin,
     mp_pgoff = vm_pgoff (vma_at s p), mp_adjust = Some c, mp_adj_start = fin - vm_start (vma_at s c),
     mp_remove = None, mp_remove2 = None\<rparr>"

definition downto_plan :: "'t mm_state \<Rightarrow> vptr \<Rightarrow> vptr \<Rightarrow> u64 \<Rightarrow> merge_plan" where
  "downto_plan s p n addr = \<lparr>mp_vma = p, mp_res = n, mp_start = vm_start (vma_at s p), mp_end = addr,
     mp_pgoff = vm_pgoff (vma_at s p), mp_adjust = Some n, mp_adj_start = - (vm_end (vma_at s p) - addr),
     mp_remove = None, mp_remove2 = None\<rparr>"

lemma plan_both_spec:
  assumes r: "plan_both E p n cur s = (plan, er, dup, u)" and p: "vmas s p = Some v"
  shows "plan = grow_plan s True True p n cur addr fin pglen" "anon_upd p s u" "dup = None \<or> dup = Some p"
proof -
  have a: "anon_upd p s t" "d = None \<or> d = Some p" "vmas t p \<noteq> None"
    if "merge_dup E p n None (emit (Vma_write n) s) = (e, d, t)" for e d t
  proof -
    note m = merge_dup_upd [OF that, of v]
    show "anon_upd p s t" using m(1) p anon_upd_from_same [of "emit (Vma_write n) s" s p t] by simp
    then show "vmas t p \<noteq> None" by (auto simp: anon_upd_def)
    show "d = None \<or> d = Some p" using m(2) p by simp
  qed
  have b: "anon_upd p s t'" "d' = None \<or> d' = Some p"
    if "merge_dup E p n None (emit (Vma_write n) s) = (e, d, t)"
      "merge_dup E p c d (emit (Vma_write c) t) = (e', d', t')" for e d t c e' d' t'
  proof -
    note h = that
    obtain w where w: "vmas t p = Some w" using a(3) [OF h(1)] by auto
    note m = merge_dup_upd [OF h(2), of w]
    have "anon_upd p t t'" using m(1) w anon_upd_from_same [of "emit (Vma_write c) t" t p t'] by simp
    then show "anon_upd p s t'" by (rule anon_upd_trans [OF a(1) [OF h(1)]])
    show "d' = None \<or> d' = Some p" using m(2) w a(2) [OF h(1)] by auto
  qed
  show "plan = grow_plan s True True p n cur addr fin pglen"
    using r by (auto simp: plan_both_def Let_def grow_plan_def tile_lo_def tile_hi_def split: prod.splits option.splits if_splits)
  obtain e d t where m: "merge_dup E p n None (emit (Vma_write n) s) = (e, d, t)" by (metis prod_cases3)
  have "anon_upd p s u \<and> (dup = None \<or> dup = Some p)"
  proof (cases cur)
    case None
    then show ?thesis using r a [OF m] by (simp add: plan_both_def m)
  next
    case (Some c)
    obtain e' d' t' where m': "merge_dup E p c d (emit (Vma_write c) t) = (e', d', t')" by (metis prod_cases3)
    have c: "anon_upd p s (emit (Vma_write c) t)" using a(1) [OF m] by simp
    show ?thesis
      using r a(2) [OF m] b [OF m m'] c by (auto simp: plan_both_def m m' Some Let_def split: if_splits)
  qed
  then show "anon_upd p s u" "dup = None \<or> dup = Some p" by blast+
qed

lemma plan_prev_spec:
  assumes r: "plan_prev E p cur fin s = (plan, er, dup, u)" and p: "vmas s p = Some v"
  shows "er = None \<Longrightarrow> plan = (case cur of
       Some c \<Rightarrow> if fin = vm_end (vma_at s c) then grow_plan s True False p n cur addr fin pglen else upto_plan s p c fin
     | None \<Rightarrow> grow_plan s True False p n cur addr fin pglen)"
    "anon_upd p s u" "dup = None \<or> dup = Some p"
proof -
  have a: "anon_upd p s t" "d = None \<or> d = Some p"
    if "merge_dup E p c None (emit (Vma_write c) s) = (e, d, t)" for c e d t
    using merge_dup_upd [OF that, of v] p anon_upd_from_same [of "emit (Vma_write c) s" s p t] by simp_all
  have b: "anon_upd p s (emit (Vma_write c) s)" for c using p by (simp add: anon_upd_same)
  show "er = None \<Longrightarrow> plan = (case cur of
       Some c \<Rightarrow> if fin = vm_end (vma_at s c) then grow_plan s True False p n cur addr fin pglen else upto_plan s p c fin
     | None \<Rightarrow> grow_plan s True False p n cur addr fin pglen)"
    using r by (auto simp: plan_prev_def Let_def grow_plan_def upto_plan_def tile_lo_def tile_hi_def
        split: prod.splits option.splits if_splits)
  show "anon_upd p s u" "dup = None \<or> dup = Some p"
    using r b anon_upd_same [OF p, of s] by (auto simp: plan_prev_def Let_def split: prod.splits option.splits if_splits dest: a)
qed

lemma plan_next_spec:
  assumes r: "plan_next E prev n cur addr pglen s = (plan, er, dup, u)" and n: "vmas s n = Some v"
  shows "plan = (case prev of
       Some p \<Rightarrow> if addr < vm_end (vma_at s p) then downto_plan s p n addr else grow_plan s False True p' n cur addr fin pglen
     | None \<Rightarrow> grow_plan s False True p' n cur addr fin pglen)"
    "anon_upd n s u" "dup = None \<or> dup = Some n"
proof -
  have a: "anon_upd n s t" "d = None \<or> d = Some n"
    if "merge_dup E n c None (emit (Vma_write c) (emit (Vma_write n) s)) = (e, d, t)" for c e d t
    using merge_dup_upd [OF that, of v] n anon_upd_from_same [of "emit (Vma_write c) (emit (Vma_write n) s)" s n t]
    by simp_all
  have b: "anon_upd n s (emit (Vma_write n) s)" using n by (simp add: anon_upd_same)
  show "plan = (case prev of
       Some p \<Rightarrow> if addr < vm_end (vma_at s p) then downto_plan s p n addr else grow_plan s False True p' n cur addr fin pglen
     | None \<Rightarrow> grow_plan s False True p' n cur addr fin pglen)"
    using r by (auto simp: plan_next_def Let_def grow_plan_def downto_plan_def tile_lo_def tile_hi_def
        split: prod.splits option.splits if_splits bool.splits)
  show "anon_upd n s u" "dup = None \<or> dup = Some n"
    using r b by (auto simp: plan_next_def Let_def split: prod.splits option.splits if_splits bool.splits dest: a)
qed

section \<open>Signed shifts\<close>

lemma signed_drop_bit_int: "sint x = i \<Longrightarrow> signed_drop_bit n x = (of_int (drop_bit n i) :: u64)"
proof -
  assume h: "sint x = i"
  have "word_of_int (sint (signed_drop_bit n x)) = signed_drop_bit n x"
    by (simp only: of_int_sint scast_id id_def)
  then show ?thesis unfolding sint_signed_drop_bit_eq h by (rule sym)
qed

lemma sint_of_int_small: "- (2 ^ 63) \<le> i \<Longrightarrow> i < 2 ^ 63 \<Longrightarrow> sint (of_int i :: u64) = i"
  by (simp add: signed_of_int signed_take_bit_int_eq_self)

lemma signed_drop_bit_pos:
  fixes x :: u64
  assumes "unat x < 2 ^ 63"
  shows "signed_drop_bit 12 x = drop_bit 12 x" "\<not> sneg x"
proof -
  have lt: "int (unat x) < 2 ^ 63" using assms by (metis of_nat_less_iff of_nat_numeral of_nat_power)
  have "sint (of_int (int (unat x)) :: u64) = int (unat x)"
    by (rule sint_of_int_small [OF _ lt]) (rule order_trans [of _ 0], simp_all)
  then have s: "sint x = int (unat x)" by simp
  then show "\<not> sneg x" by simp
  have d: "int (unat (drop_bit 12 x)) = drop_bit 12 (int (unat x))"
    by (simp add: drop_bit_eq_div unat_div zdiv_int)
  have "of_int (drop_bit 12 (int (unat x))) = drop_bit 12 x" 
    unfolding d [symmetric] by simp
  then show "signed_drop_bit 12 x = drop_bit 12 x" by (simp only: signed_drop_bit_int [OF s])
qed

lemma signed_drop_bit_neg:
  fixes x :: u64
  assumes "unat x < 2 ^ 63" "4096 dvd unat x" "x \<noteq> 0"
  shows "signed_drop_bit 12 (- x) = - drop_bit 12 x" "sneg (- x)"
proof -
  have lt: "int (unat x) < 2 ^ 63" using assms(1) by (metis of_nat_less_iff of_nat_numeral of_nat_power)
  have "sint (of_int (- int (unat x)) :: u64) = - int (unat x)"
    by (rule sint_of_int_small) (use lt in linarith)+
  then have s: "sint (- x) = - int (unat x)" by simp
  then show "sneg (- x)" using assms(3) unat_eq_zero [of x] by linarith
  obtain j where j: "unat x = 4096 * j" using assms(2) by auto
  have "drop_bit 12 (- int (unat x)) = - int j" by (simp add: j drop_bit_eq_div)
  moreover have "drop_bit 12 x = of_nat j"
  proof -
    have "unat (drop_bit 12 x) = j" by (simp add: drop_bit_eq_div unat_div j)
    then show ?thesis by auto
  qed
  ultimately show "signed_drop_bit 12 (- x) = - drop_bit 12 x"
    unfolding signed_drop_bit_int [OF s] by simp
qed

section \<open>What each case achieves\<close>

text \<open>The fields a plan is made of are those of the state before the choice.\<close>

lemma plans_anon:
  assumes "anon_upd d s u"
  shows "grow_plan u = grow_plan s" "upto_plan u = upto_plan s" "downto_plan u = downto_plan s"
  by (intro ext, simp add: grow_plan_def upto_plan_def downto_plan_def tile_lo_def tile_hi_def
      anon_upd_fields [OF assms] cong: if_cong option.case_cong)+

lemma grow_merged:
  assumes E: "env_ok E" and T: "tiling E s left right p n cur addr fin flags f pgoff"
    and pg: "\<And>c. cur = Some c \<Longrightarrow> vm_pgoff (vma_at s c) = pgoff"
  shows "merged E s (if left then p else n) addr fin flags f pgoff
    (merge_commit E (grow_plan s left right p n cur addr fin (drop_bit 12 (fin - addr))) s)"
proof -
  let ?M = "index E" and ?plan = "grow_plan s left right p n cur addr fin (drop_bit 12 (fin - addr))"
  let ?q = "if left then p else n"
  let ?R = "(if left \<and> right then {n} else {}) \<union> set_option cur"
  note d = tilingD [OF T] and b = tile_bounds [OF T]
  have q: "mp_vma ?plan = ?q" by (simp add: grow_plan_def Let_def)
  have R: "plan_removes ?plan = ?R"
    by (auto simp: plan_removes_def grow_plan_def Let_def split: option.splits)
  have se: "mp_start ?plan = tile_lo s left p addr" "mp_end ?plan = tile_hi s right n fin"
    by (simp_all add: grow_plan_def Let_def)
  have pgoff: "mp_pgoff ?plan = (if left then vm_pgoff (vma_at s p) else pgoff)"
    using d(6,7) pg by (auto simp: grow_plan_def Let_def next_fits_def split: option.splits)
  have qm: "?q \<in> mapped ?M s" using d(5-7) by (auto simp: prev_fits_def next_fits_def)
  have adj: "mp_adjust ?plan = None" "mp_adj_start ?plan = 0"
    "mp_remove ?plan = None \<Longrightarrow> mp_remove2 ?plan = None"
    by (auto simp: grow_plan_def Let_def split: option.splits if_splits)
  have rm: "mp_remove ?plan \<noteq> None \<Longrightarrow> mp_remove ?plan \<noteq> mp_remove2 ?plan"
    using tile_distinct(3) [OF T] by (auto simp: grow_plan_def Let_def split: option.splits if_splits)
  have ex: "mp_start ?plan < vm_start (vma_at s ?q) \<or> vm_end (vma_at s ?q) < mp_end ?plan"
    unfolding se using d(2,5-7) b by (cases left) (auto simp: tile_lo_def prev_fits_def next_fits_def intro: less_le_trans)
  have cv: "covers E s (mp_start ?plan) (mp_end ?plan) ?q (plan_removes ?plan)"
    unfolding R se by (rule tile_covers [OF T refl refl])
  note c = commit_expand [OF E q [symmetric] qm adj rm ex cv, unfolded R]
  show ?thesis
    by (rule merged_by_store [OF T refl refl _ _ _ _ _ c]) (simp_all add: plan_vma_def q se pgoff)
qed

text \<open>The new view, when a boundary moves: \<open>w\<close> takes over \<open>[addr, fin)\<close>.\<close>

lemma merged_by_view:
  assumes ok: "mm_ok E t" and q: "q \<in> mapped (index E) t" "vma_at t q = w"
    and sub: "mapped (index E) t = mapped (index E) s"
    and v: "\<And>k. view E t k = (if vm_start w \<le> k \<and> k < vm_end w then Some (content w k) else view E s k)"
    and w: "vm_start w \<le> addr" "fin \<le> vm_end w" "vm_file w = f"
      "vm_flags w AND NOT (cst E VM_SOFTDIRTY) = flags AND NOT (cst E VM_SOFTDIRTY)"
    and new: "\<And>k. addr \<le> k \<Longrightarrow> k < fin \<Longrightarrow> page_at w k = pgoff + drop_bit 12 (k - addr)"
    and old: "\<And>k. vm_start w \<le> k \<Longrightarrow> k < vm_end w \<Longrightarrow> \<not> (addr \<le> k \<and> k < fin) \<Longrightarrow>
      seen E s k = Some (f, page_at w k, flags AND NOT (cst E VM_SOFTDIRTY))"
    and c: "same_counters s t"
  shows "merged E s q addr fin flags f pgoff t"
proof -
  have "seen E t k = (if addr \<le> k \<and> k < fin then Some (f, pgoff + drop_bit 12 (k - addr),
      flags AND NOT (cst E VM_SOFTDIRTY)) else seen E s k)" for k
  proof (cases "vm_start w \<le> k \<and> k < vm_end w")
    case True
    then have "seen E t k = Some (f, page_at w k, flags AND NOT (cst E VM_SOFTDIRTY))"
      using w by (simp add: seen_def v content_def)
    with True old [of k] new [of k] show ?thesis by auto
  next
    case False
    moreover have "\<not> (addr \<le> k \<and> k < fin)" using False w(1,2) by (auto dest: less_le_trans order_trans)
    moreover have "seen E t k = seen E s k" using False by (simp only: seen_def v if_False)
    ultimately show ?thesis by auto
  qed
  then show ?thesis using ok q w(1,2) c sub by (simp add: merged_def placed_def fun_eq_iff)
qed

text \<open>Case 5: the predecessor takes over the lower part of a mapping.\<close>

lemma upto_merged:
  assumes E: "env_ok E" and ok: "mm_ok E s" and p: "prev_fits E s p addr flags f pgoff"
    and c: "c \<in> mapped (index E) s" "vm_start (vma_at s c) = addr" "fin < vm_end (vma_at s c)"
    and r: "addr < fin" "4096 dvd unat fin" "unat fin < 2 ^ 63"
  shows "merged E s p addr fin flags f pgoff (merge_commit E (upto_plan s p c fin) s)"
proof -
  let ?M = "index E" and ?v = "vma_at s p" and ?c = "vma_at s c"
  let ?plan = "upto_plan s p c fin"
  define w where "w = plan_vma s ?plan"
  define w' where "w' = plan_adj E ?plan ?c"
  have pm: "p \<in> mapped ?M s" "vm_end ?v = addr" using p by (simp_all add: prev_fits_def)
  note x = mapped_extent [OF mm_ok_wf [OF ok] pm(1)] and y = mapped_extent [OF mm_ok_wf [OF ok] c(1)]
  have al: "4096 dvd unat addr" "4096 dvd unat (vm_start ?v)" "4096 dvd unat (vm_end ?c)"
    using mm_ok_aligned [OF ok] pm c by (auto simp: vmas_aligned_def)
  have pc: "p \<noteq> c" using x(2) y(2) pm(2) c(2) by (metis order_less_irrefl order_less_trans)
  have "unat (fin - addr) < 2 ^ 63" using r by (simp add: unat_sub less_imp_le)
  note sd = signed_drop_bit_pos [OF this]
  have W: "vm_start w = vm_start ?v" "vm_end w = fin" "vm_file w = vm_file ?v" "vm_flags w = vm_flags ?v"
      "page_at w = page_at ?v"
    and W': "vm_start w' = fin" "vm_end w' = vm_end ?c" "vm_pgoff w' = vm_pgoff ?c + drop_bit 12 (fin - addr)"
      "vm_file w' = vm_file ?c" "vm_flags w' = vm_flags ?c" "vm_page_prot w' = vm_page_prot ?c"
    by (simp_all add: w_def w'_def plan_vma_def plan_adj_def upto_plan_def page_at_def fun_eq_iff c sd hdr_simps [OF env_hdr [OF E]])
  have ne: "mp_adj_start ?plan \<noteq> 0" using r(1) c(2) by (simp add: upto_plan_def)
  let ?t = "merge_commit E ?plan s"
  have t: "vmas ?t = (vmas s)(p \<mapsto> w, c \<mapsto> w')" "cur_mm ?t = (cur_mm s)\<lparr>mm_mt :=
       mt_store ?M (tree s) (vm_start w) (vm_end w - 1) (Some p)\<rparr>"
    using commit_adjust [of p ?plan c True s w' E] ne pc pm r(1) sd c(2)
    by (simp_all add: w_def w'_def upto_plan_def plan_vma_def)
  have lt: "vm_start w < vm_end w" using x(2) pm(2) r(1) by (simp add: W)
  have e: "entry_at ?M ?t k = (if vm_start w \<le> k \<and> k < vm_end w then Some p else entry_at ?M s k)" for k
    by (simp add: t(2) maple_store [OF env_maple [OF E]] le_below_end [OF lt])
  have pg: "content w' k = content ?c k" if "vm_start w' \<le> k" for k
    using drop_bit_split [of addr fin k] that r al dvd_unat_diff [of addr fin]
    by (simp add: content_def page_at_def W' c(2) add.assoc)
  have o: "mm_ok E ?t" "mapped ?M ?t = mapped ?M s"
     "\<And>k. view E ?t k = (if vm_start w \<le> k \<and> k < vm_end w then Some (content w k) else view E s k)"
  proof -
    note bm = boundary_moves [OF E ok pm(1) c(1) pc, of addr fin w' w ?t]
    show "mm_ok E ?t" "mapped ?M ?t = mapped ?M s"
     "\<And>k. view E ?t k = (if vm_start w \<le> k \<and> k < vm_end w then Some (content w k) else view E s k)"
      by (rule bm; use r al c x(2) pm(2) pg e t in \<open>auto simp: W W'\<close>)+
  qed
  show ?thesis
  proof (rule merged_by_view [OF o(1) _ _ o(2,3)])
    show "p \<in> mapped ?M ?t" using o(2) pm by simp
    show "vma_at ?t p = w" using pc by (simp add: vma_at_def t(1))
    show "seen E s k = Some (f, page_at w k, flags AND NOT (cst E VM_SOFTDIRTY))"
      if "vm_start w \<le> k" "k < vm_end w" "\<not> (addr \<le> k \<and> k < fin)" for k
      using seen_mapped [of E s k p] x(3) [of k] that p pm by (auto simp: W prev_fits_def)
  qed (use p r x(2) in \<open>auto simp: W prev_fits_def t(2)\<close>)
qed

text \<open>Case 4: the successor takes over the upper part of a mapping.\<close>

lemma downto_merged:
  assumes E: "env_ok E" and ok: "mm_ok E s" and n: "next_fits E s n fin flags f (pgoff + drop_bit 12 (fin - addr))"
    and p: "p \<in> mapped (index E) s" "vm_start (vma_at s p) < addr" "vm_end (vma_at s p) = fin"
    and r: "addr < fin" "4096 dvd unat addr" "unat fin < 2 ^ 63"
  shows "merged E s n addr fin flags f pgoff (merge_commit E (downto_plan s p n addr) s)"
proof -
  let ?M = "index E" and ?v = "vma_at s n" and ?c = "vma_at s p"
  let ?plan = "downto_plan s p n addr"
  define w where "w = plan_adj E ?plan ?v"
  define w' where "w' = plan_vma s ?plan"
  have nm: "n \<in> mapped ?M s" "vm_start ?v = fin" "vm_pgoff ?v = pgoff + drop_bit 12 (fin - addr)"
    using n by (simp_all add: next_fits_def)
  note x = mapped_extent [OF mm_ok_wf [OF ok] nm(1)] and y = mapped_extent [OF mm_ok_wf [OF ok] p(1)]
  have al: "4096 dvd unat fin" "4096 dvd unat (vm_start ?c)" "4096 dvd unat (vm_end ?v)"
    using mm_ok_aligned [OF ok] nm p by (auto simp: vmas_aligned_def)
  have pn: "n \<noteq> p" using x(2) y(2) nm(2) p(3) by (metis order_less_irrefl order_less_trans)
  have "unat (fin - addr) < 2 ^ 63" "4096 dvd unat (fin - addr)" "fin - addr \<noteq> 0"
    using r al by (simp_all add: unat_sub less_imp_le dvd_diff_nat)
  note sd = signed_drop_bit_neg [OF this]
  have W: "vm_start w = addr" "vm_end w = vm_end ?v" "vm_file w = vm_file ?v" "vm_flags w = vm_flags ?v"
      "vm_pgoff w = pgoff"
    and W': "vm_start w' = vm_start ?c" "vm_end w' = addr" "content w' = content ?c"
    using nm sd by (simp_all add: w_def w'_def plan_vma_def plan_adj_def downto_plan_def content_def page_at_def fun_eq_iff p
        hdr_simps [OF env_hdr [OF E]])
  have ne: "mp_adj_start ?plan \<noteq> 0" using r(1) p(3) by (simp add: downto_plan_def)
  let ?t = "merge_commit E ?plan s"
  have ex: "False = (mp_start ?plan < vm_start ?c \<or> vm_end ?c < mp_end ?plan)"
    using r(1) p(3) by (simp add: downto_plan_def not_less less_imp_le)
  have t: "vmas ?t = (vmas s)(n \<mapsto> w, p \<mapsto> w')" "cur_mm ?t = (cur_mm s)\<lparr>mm_mt :=
       mt_store ?M (tree s) (vm_start w) (vm_end w - 1) (Some n)\<rparr>"
    using commit_adjust [of p ?plan n False s w E, OF _ _ pn ne _ _ ex w_def] sd(2) p(3) pn
    by (simp_all add: w'_def downto_plan_def plan_vma_def fun_upd_twist)
  have lt: "vm_start w < vm_end w" using x(2) nm(2) r(1) by (auto simp: W intro: less_trans)
  have e: "entry_at ?M ?t k = (if vm_start w \<le> k \<and> k < vm_end w then Some n else entry_at ?M s k)" for k
    by (simp add: t(2) maple_store [OF env_maple [OF E]] le_below_end [OF lt])
  have o: "mm_ok E ?t" "mapped ?M ?t = mapped ?M s"
     "\<And>k. view E ?t k = (if vm_start w \<le> k \<and> k < vm_end w then Some (content w k) else view E s k)"
  proof -
    note bm = boundary_moves [OF E ok nm(1) p(1) pn, of addr fin w' w ?t]
    show "mm_ok E ?t" "mapped ?M ?t = mapped ?M s"
     "\<And>k. view E ?t k = (if vm_start w \<le> k \<and> k < vm_end w then Some (content w k) else view E s k)"
      by (rule bm; use r al p x(2) nm(2) e t in \<open>auto simp: W W'\<close>)+
  qed
  have new: "page_at w k = pgoff + drop_bit 12 (k - addr)" for k by (simp add: page_at_def W)
  show ?thesis
  proof (rule merged_by_view [OF o(1) _ _ o(2,3)])
    show "n \<in> mapped ?M ?t" using o(2) nm by simp
    show "vma_at ?t n = w" using pn by (simp add: vma_at_def t(1))
    show "seen E s k = Some (f, page_at w k, flags AND NOT (cst E VM_SOFTDIRTY))"
      if k: "vm_start w \<le> k" "k < vm_end w" "\<not> (addr \<le> k \<and> k < fin)" for k
    proof -
      have "fin \<le> k" using k by (auto simp: W)
      then have "page_at w k = page_at ?v k"
        using drop_bit_split [of addr fin k] r(1,2) al(1) dvd_unat_diff [of addr fin]
        by (simp add: new) (simp add: page_at_def nm add.assoc)
      then show ?thesis using seen_mapped [of E s k n] x(3) [of k] k \<open>fin \<le> k\<close> n nm(2) by (auto simp: W next_fits_def)
    qed
  qed (use n r x(2) nm(2) new in \<open>auto simp: W next_fits_def t(2)\<close>)
qed

end
