(* ===== verification/Merge_Props.thy ===== *)
theory Merge_Props
  imports Merge_Cases
begin

text \<open>
  The refinement of \<open>vma_merge\<close> and \<open>vma_modify\<close>: what the tests on the neighbours find, that every choice
  keeps its promise, and the claims \<open>vma_merge_refines\<close> and \<open>vma_modify_isolates\<close>.
\<close>

section \<open>The range and what the tests find\<close>

definition merge_range ::
  "('t, 'a) mm_env_scheme \<Rightarrow> 't mm_state \<Rightarrow> vptr option \<Rightarrow> u64 \<Rightarrow> u64 \<Rightarrow> fptr option \<Rightarrow> u64 \<Rightarrow> bool" where
  "merge_range E s prev addr fin f pgoff \<longleftrightarrow>
     addr < fin \<and> 4096 dvd unat addr \<and> 4096 dvd unat fin \<and> unat fin < 2 ^ 63 \<and>
     ((\<forall>k. addr \<le> k \<and> k < fin \<longrightarrow> entry_at (index E) s k = None) \<and> last_before (index E) s addr prev \<or>
      (\<exists>c \<in> mapped (index E) s. vm_start (vma_at s c) \<le> addr \<and> fin \<le> vm_end (vma_at s c) \<and>
         vm_file (vma_at s c) = f \<and> page_at (vma_at s c) addr = pgoff \<and>
         (if vm_start (vma_at s c) < addr then prev = Some c else last_before (index E) s addr prev)))"

lemma unat_pred: "(a :: u64) < b \<Longrightarrow> a \<le> b - 1 \<and> b - 1 < b"
  using le_below_end [of a b a] le_below_end [of a b "b - 1"] by simp

text \<open>Where the range lies: it is free, at the start of a mapping, or inside one.\<close>

lemma merge_range_cases:
  assumes E: "env_ok E" and ok: "mm_ok E s" and r: "merge_range E s prev addr fin f pgoff"
  obtains
    (free) "merge_curr E s prev fin = None" "\<And>k. addr \<le> k \<Longrightarrow> k < fin \<Longrightarrow> entry_at (index E) s k = None"
      "\<And>p. prev = Some p \<Longrightarrow> p \<in> mapped (index E) s \<and> vm_end (vma_at s p) \<le> addr"
  | (start) c where "merge_curr E s prev fin = Some c" "c \<in> mapped (index E) s" "vm_start (vma_at s c) = addr"
      "fin \<le> vm_end (vma_at s c)" "vm_pgoff (vma_at s c) = pgoff"
      "\<And>p. prev = Some p \<Longrightarrow> p \<in> mapped (index E) s \<and> vm_end (vma_at s p) \<le> addr"
  | (inner) c where "merge_curr E s prev fin = None" "prev = Some c" "c \<in> mapped (index E) s"
      "vm_start (vma_at s c) < addr" "fin \<le> vm_end (vma_at s c)"
proof -
  let ?M = "index E" and ?a = "case prev of Some p \<Rightarrow> vm_end (vma_at s p) | None \<Rightarrow> 0"
  have lt: "addr < fin" using r by (simp add: merge_range_def)
  note fi = find_vma_intersection_spec [OF E, of s ?a fin, folded merge_curr_def]
  have lo: "?a \<le> addr" "\<And>k. ?a \<le> k \<Longrightarrow> k < addr \<Longrightarrow> entry_at ?M s k = None \<or> entry_at ?M s k = entry_at ?M s addr"
    "\<And>p. prev = Some p \<Longrightarrow> p \<in> mapped ?M s \<and> vm_end (vma_at s p) \<le> addr"
    if "last_before ?M s addr prev"
    using that by (auto simp: last_before_def split: option.splits)
  from r consider "\<forall>k. addr \<le> k \<and> k < fin \<longrightarrow> entry_at ?M s k = None" "last_before ?M s addr prev"
    | c where "c \<in> mapped ?M s" "vm_start (vma_at s c) < addr" "fin \<le> vm_end (vma_at s c)" "prev = Some c"
    | c where "c \<in> mapped ?M s" "vm_start (vma_at s c) = addr" "fin \<le> vm_end (vma_at s c)"
        "page_at (vma_at s c) addr = pgoff" "last_before ?M s addr prev"
    unfolding merge_range_def by (metis order_le_less)
  then show thesis
  proof cases
    case 1
    have "entry_at ?M s k = None" if "?a \<le> k" "k \<le> fin - 1" for k
      using 1(1) lo(2) [OF 1(2) that(1)] that(2) lt le_below_end [OF lt, of k] by (metis not_less order_refl)
    then have "merge_curr E s prev fin = None"
      using fi by (auto simp: find_law_def split: option.splits)
    then show ?thesis using 1(1) lo(3) [OF 1(2)] by (intro free) blast+
  next
    case 2
    have "\<not> (vm_end (vma_at s c) \<le> i \<and> i \<le> fin - 1)" for i
      using 2(3) le_below_end [OF lt, of i] by (meson less_le_trans not_le)
    then have "merge_curr E s prev fin = None"
      using fi 2(4) by (auto simp: find_law_def split: option.splits)
    then show ?thesis using 2 by (intro inner)
  next
    case 3
    note x = mapped_extent [OF mm_ok_wf [OF ok] 3(1)]
    have ca: "entry_at ?M s addr = Some c" using x(2) x(3) [of addr] 3(2) by simp
    have "merge_curr E s prev fin = Some c"
    proof (cases "merge_curr E s prev fin")
      case None
      then show ?thesis using fi lo(1) [OF 3(5)] unat_pred [OF lt] ca by (auto simp: find_law_def)
    next
      case (Some q)
      then obtain i where i: "?a \<le> i" "i \<le> fin - 1" "entry_at ?M s i = Some q"
          "\<And>k. ?a \<le> k \<Longrightarrow> k < i \<Longrightarrow> entry_at ?M s k = None"
        using fi by (auto simp: find_law_def)
      have "\<not> addr < i" using i(4) [of addr] lo(1) [OF 3(5)] ca by auto
      moreover have "\<not> i < addr"
        using lo(2) [OF 3(5) i(1)] i(3) ca x(3) [of i] 3(2) by auto
      ultimately have "i = addr" by simp
      with i(3) ca Some show ?thesis by simp
    qed
    then show ?thesis
      using 3 lo(3) [OF 3(5)] by (intro start) (auto simp: page_at_def)
  qed
qed

text \<open>The neighbours that fit.\<close>

lemma prev_after:
  assumes E: "env_ok E" and ok: "mm_ok E s" and p: "p \<in> mapped (index E) s" and a: "addr = vm_end (vma_at s p)"
    and m: "can_vma_merge_after E (vma_at s p) flags av f pgoff uffd name"
  shows "prev_fits E s p addr flags f pgoff"
proof -
  let ?v = "vma_at s p"
  note x = mapped_extent [OF mm_ok_wf [OF ok] p]
  have e: "vm_file ?v = f" "(vm_flags ?v XOR flags) AND NOT (cst E VM_SOFTDIRTY) = 0"
      "vm_pgoff ?v + drop_bit 12 (addr - vm_start ?v) = pgoff"
    using m env_pages [OF E, of ?v]
    by (auto simp: can_vma_merge_after_def is_mergeable_vma_def Let_def a split: if_splits)
  have "page_at ?v x = pgoff + drop_bit 12 (x - addr)" if "addr \<le> x" for x
    using page_at_extend [of ?v addr x] that e(3) x(2) a mm_ok_aligned [OF ok] p
    by (auto simp: vmas_aligned_def)
  with e a p and_not_eq [OF e(2)] show ?thesis by (simp add: prev_fits_def)
qed

lemma prev_found:
  assumes "env_ok E" "mm_ok E s" "p \<in> mapped (index E) s"
    and "fits_prev E (vma_at s p) addr flags av f pgoff policy uffd name"
  shows "prev_fits E s p addr flags f pgoff"
  using prev_after [OF assms(1-3), of addr flags av f pgoff uffd name] assms(4) by (simp add: fits_prev_def)

lemma next_before:
  assumes "n \<in> mapped (index E) s" "vm_start (vma_at s n) = fin"
    and m: "can_vma_merge_before E (vma_at s n) flags av f pgoff uffd name"
  shows "next_fits E s n fin flags f pgoff"
  using assms and_not_eq [of "vm_flags (vma_at s n)" flags "cst E VM_SOFTDIRTY"]
  by (auto simp: next_fits_def can_vma_merge_before_def is_mergeable_vma_def split: if_splits)

lemma next_found:
  assumes E: "env_ok E" and ok: "mm_ok E s" and r: "merge_range E s prev addr fin f pgoff"
    and n: "entry_at (index E) s fin = Some n"
    and fits: "fits_next E (vma_at s n) flags av f (pgoff + drop_bit 12 (fin - addr)) policy uffd name"
  shows "next_fits E s n fin flags f (pgoff + drop_bit 12 (fin - addr))"
proof -
  let ?M = "index E" and ?v = "vma_at s n"
  have nm: "n \<in> mapped ?M s" using n by (auto simp: mapped_def)
  note x = mapped_extent [OF mm_ok_wf [OF ok] nm]
  have rr: "addr < fin" "4096 dvd unat addr" "4096 dvd unat fin" using r by (simp_all add: merge_range_def)
  have e: "vm_file ?v = f" "(vm_flags ?v XOR flags) AND NOT (cst E VM_SOFTDIRTY) = 0"
      "vm_pgoff ?v = pgoff + drop_bit 12 (fin - addr)"
    using fits by (auto simp: fits_next_def can_vma_merge_before_def is_mergeable_vma_def split: if_splits)
  have "vm_start ?v = fin"
  proof (rule ccontr)
    assume "vm_start ?v \<noteq> fin"
    then have st: "vm_start ?v < fin" using n x(3) [of fin] by (simp add: order_le_less)
    have "entry_at ?M s (fin - 1) = Some n"
      using unat_pred [OF st] n x(3) [of fin] x(3) [of "fin - 1"] by (meson less_trans)
    then obtain c where c: "c = n" "vm_start (vma_at s c) \<le> addr" "page_at (vma_at s c) addr = pgoff"
      using r unat_pred [OF rr(1)] mapped_extent(3) [OF mm_ok_wf [OF ok], of _ "fin - 1"]
      unfolding merge_range_def by (metis (no_types, lifting) less_le_trans option.distinct(1) option.inject order_trans)
    have al: "4096 dvd unat (vm_start ?v)" using mm_ok_aligned [OF ok] nm by (auto simp: vmas_aligned_def)
    have d: "4096 dvd unat (fin - vm_start ?v)" using dvd_unat_diff [OF less_imp_le [OF st] rr(3) al] .
    have "page_at ?v fin = pgoff + drop_bit 12 (fin - addr)"
      using c dvd_unat_diff [of "vm_start ?v" addr] rr al page_at_extend [of ?v addr fin]
      by (simp add: page_at_def less_imp_le)
    then have z: "drop_bit 12 (fin - vm_start ?v) = 0" using e(3) by (simp add: page_at_def)
    have "unat (drop_bit 12 y) = unat y div 4096" for y :: u64 by (simp add: drop_bit_eq_div unat_div)
    from this [of "fin - vm_start ?v"] z have "unat (fin - vm_start ?v) div 4096 = 0" by simp
    moreover have "unat (fin - vm_start ?v) \<noteq> 0" using st by (simp add: unat_eq_zero)
    ultimately show False using d by (auto elim: dvdE)
  qed
  with e nm and_not_eq [OF e(2)] show ?thesis by (simp add: next_fits_def)
qed

lemma tilingI:
  assumes "mm_ok E s" "merge_range E s prev addr fin f pgoff"
    and "left \<Longrightarrow> prev_fits E s p addr flags f pgoff"
    and "right \<Longrightarrow> next_fits E s n fin flags f (pgoff + drop_bit 12 (fin - addr))" "left \<or> right"
    and none: "cur = None \<Longrightarrow> \<forall>k. addr \<le> k \<and> k < fin \<longrightarrow> entry_at (index E) s k = None"
    and some: "\<And>c. cur = Some c \<Longrightarrow> c \<in> mapped (index E) s \<and> vm_start (vma_at s c) = addr \<and> vm_end (vma_at s c) = fin"
  shows "tiling E s left right p n cur addr fin flags f pgoff"
proof -
  have "entry_at (index E) s k = Some c \<longleftrightarrow> addr \<le> k \<and> k < fin" if "cur = Some c" for c k
    using mapped_extent(3) [OF mm_ok_wf [OF assms(1)], of c k] some [OF that] by simp
  then show ?thesis using assms(1-5) none unfolding tiling_def merge_range_def
    by (cases cur) auto
qed

section \<open>The merge\<close>

text \<open>The committed plan: whatever the choice, the state it is carried out on shows the same.\<close>

definition merge_done ::
  "('t, 'a) mm_env_scheme \<Rightarrow> 't mm_state \<Rightarrow> u64 \<Rightarrow> u64 \<Rightarrow> u64 \<Rightarrow> fptr option \<Rightarrow> u64 \<Rightarrow> merge_plan \<Rightarrow> 't mm_state \<Rightarrow> bool" where
  "merge_done E s addr fin flags f pgoff plan u \<longleftrightarrow>
     merged E s (mp_res plan) addr fin flags f pgoff (merge_commit E plan u)"

lemma grow_done:
  assumes E: "env_ok E" and T: "tiling E s left right p n cur addr fin flags f pgoff"
    and pg: "\<And>c. cur = Some c \<Longrightarrow> vm_pgoff (vma_at s c) = pgoff"
    and a: "anon_upd d s u" "d \<in> mapped (index E) s"
  shows "merge_done E s addr fin flags f pgoff (grow_plan s left right p n cur addr fin (drop_bit 12 (fin - addr))) u"
  using merged_anon [OF grow_merged [OF E tiling_anon [OF T a]] a(1)] pg
  by (simp add: merge_done_def plans_anon [OF a(1)] anon_upd_fields [OF a(1)])
    (simp add: grow_plan_def Let_def)

lemma upto_done:
  assumes E: "env_ok E" and ok: "mm_ok E s" and p: "prev_fits E s p addr flags f pgoff"
    and c: "c \<in> mapped (index E) s" "vm_start (vma_at s c) = addr" "fin < vm_end (vma_at s c)"
    and r: "addr < fin" "4096 dvd unat fin" "unat fin < 2 ^ 63"
    and a: "anon_upd d s u" "d \<in> mapped (index E) s"
  shows "merge_done E s addr fin flags f pgoff (upto_plan s p c fin) u"
proof -
  have "prev_fits E u p addr flags f pgoff"
    using p by (simp add: prev_fits_def anon_upd_fields [OF a(1)] anon_upd_view(3) [OF a(1)])
  from merged_anon [OF upto_merged [OF E anon_upd_ok [OF a(1) ok a(2)] this _ _ _ r] a(1)] c
  show ?thesis
    by (simp add: merge_done_def plans_anon [OF a(1)] anon_upd_fields [OF a(1)] anon_upd_view(3) [OF a(1)])
      (simp add: upto_plan_def)
qed

lemma downto_done:
  assumes E: "env_ok E" and ok: "mm_ok E s" and n: "next_fits E s n fin flags f (pgoff + drop_bit 12 (fin - addr))"
    and p: "p \<in> mapped (index E) s" "vm_start (vma_at s p) < addr" "vm_end (vma_at s p) = fin"
    and r: "addr < fin" "4096 dvd unat addr" "unat fin < 2 ^ 63"
    and a: "anon_upd d s u" "d \<in> mapped (index E) s"
  shows "merge_done E s addr fin flags f pgoff (downto_plan s p n addr) u"
proof -
  have "next_fits E u n fin flags f (pgoff + drop_bit 12 (fin - addr))"
    using n by (simp add: next_fits_def anon_upd_fields [OF a(1)] anon_upd_view(3) [OF a(1)])
  from merged_anon [OF downto_merged [OF E anon_upd_ok [OF a(1) ok a(2)] this _ _ _ r] a(1)] p
  show ?thesis
    by (simp add: merge_done_def plans_anon [OF a(1)] anon_upd_fields [OF a(1)] anon_upd_view(3) [OF a(1)])
      (simp add: downto_plan_def)
qed

lemma plans_same:
  assumes "same_mm s' s"
  shows "grow_plan s' = grow_plan s" "upto_plan s' = upto_plan s" "vma_at s' = vma_at s"
proof -
  show v: "vma_at s' = vma_at s" by (rule same_mmD [OF assms])
  show "grow_plan s' = grow_plan s" "upto_plan s' = upto_plan s"
    by (intro ext, simp only: grow_plan_def upto_plan_def tile_lo_def tile_hi_def v)+
qed

text \<open>What a choice promises.\<close>

definition choice_ok ::
  "('t, 'a) mm_env_scheme \<Rightarrow> 't mm_state \<Rightarrow> u64 \<Rightarrow> u64 \<Rightarrow> u64 \<Rightarrow> fptr option \<Rightarrow> u64 \<Rightarrow>
     merge_plan \<times> errno option \<times> vptr option \<times> 't mm_state \<Rightarrow> bool" where
  "choice_ok E s addr fin flags f pgoff = (\<lambda>(plan, er, dup, u).
     \<exists>d \<in> mapped (index E) s. anon_upd d s u \<and> (dup = None \<or> dup = Some d) \<and>
       (er = None \<longrightarrow> merge_done E s addr fin flags f pgoff plan u))"

lemma plan_both_ok:
  assumes E: "env_ok E" and ok: "mm_ok E s" and T: "tiling E s True True p n cur addr fin flags f pgoff"
    and pg: "\<And>c. cur = Some c \<Longrightarrow> vm_pgoff (vma_at s c) = pgoff" and s': "same_mm s' s"
  shows "choice_ok E s addr fin flags f pgoff (plan_both E p n cur s')"
proof -
  obtain plan er dup u where r: "plan_both E p n cur s' = (plan, er, dup, u)" by (metis prod_cases4)
  have p: "p \<in> mapped (index E) s" using tilingD(5) [OF T] by (simp add: prev_fits_def)
  then have "vmas s' p = Some (vma_at s p)" using mapped_extent(1) [OF mm_ok_wf [OF ok]] same_mmD [OF s'] by simp
  note b = plan_both_spec(1) [OF r this, where addr = addr and fin = fin and pglen = "drop_bit 12 (fin - addr)"]
    plan_both_spec(2,3) [OF r this]
  have a: "anon_upd p s u" using anon_upd_from_same [OF s' b(2)] .
  with b plans_same [OF s'] grow_done [OF E T pg a p] p a show ?thesis by (auto simp: choice_ok_def r)
qed

lemma plan_prev_ok:
  assumes E: "env_ok E" and ok: "mm_ok E s" and p: "prev_fits E s p addr flags f pgoff"
    and r: "addr < fin" "4096 dvd unat fin" "unat fin < 2 ^ 63"
    and none: "cur = None \<Longrightarrow> tiling E s True False p p None addr fin flags f pgoff"
    and some: "\<And>c. cur = Some c \<Longrightarrow> c \<in> mapped (index E) s \<and> vm_start (vma_at s c) = addr \<and> fin \<le> vm_end (vma_at s c) \<and>
      vm_pgoff (vma_at s c) = pgoff \<and>
      (fin = vm_end (vma_at s c) \<longrightarrow> tiling E s True False p p (Some c) addr fin flags f pgoff)"
    and s': "same_mm s' s"
  shows "choice_ok E s addr fin flags f pgoff (plan_prev E p cur fin s')"
proof -
  obtain plan er dup u where pl: "plan_prev E p cur fin s' = (plan, er, dup, u)" by (metis prod_cases4)
  have pm: "p \<in> mapped (index E) s" using p by (simp add: prev_fits_def)
  then have "vmas s' p = Some (vma_at s p)" using mapped_extent(1) [OF mm_ok_wf [OF ok]] same_mmD [OF s'] by simp
  note b = plan_prev_spec(1) [OF pl this, where n = p and addr = addr and pglen = "drop_bit 12 (fin - addr)"]
    plan_prev_spec(2,3) [OF pl this]
  have a: "anon_upd p s u" using anon_upd_from_same [OF s' b(2)] .
  note g = plans_same [OF s']
  have "merge_done E s addr fin flags f pgoff plan u" if er: "er = None"
  proof (cases cur)
    case None
    then show ?thesis using b(1) [OF er] grow_done [OF E none [OF None] _ a pm] by (simp add: g)
  next
    case (Some c)
    note c = some [OF Some]
    show ?thesis
    proof (cases "fin = vm_end (vma_at s c)")
      case True
      then show ?thesis using b(1) [OF er] Some c grow_done [OF E _ _ a pm, of True False p p "Some c"] by (simp add: g)
    next
      case False
      then show ?thesis using b(1) [OF er] Some c upto_done [OF E ok p _ _ _ r a pm, of c]
        by (simp add: g order_le_less)
    qed
  qed
  with b(3) a pm show ?thesis by (auto simp: choice_ok_def pl)
qed

lemma plan_next_ok:
  assumes E: "env_ok E" and ok: "mm_ok E s" and n: "next_fits E s n fin flags f (pgoff + drop_bit 12 (fin - addr))"
    and r: "addr < fin" "4096 dvd unat addr" "unat fin < 2 ^ 63"
    and inside: "\<And>p. prev = Some p \<Longrightarrow> addr < vm_end (vma_at s p) \<Longrightarrow>
      p \<in> mapped (index E) s \<and> vm_start (vma_at s p) < addr \<and> vm_end (vma_at s p) = fin"
    and outside: "\<not> (\<exists>p. prev = Some p \<and> addr < vm_end (vma_at s p)) \<Longrightarrow>
      tiling E s False True n n cur addr fin flags f pgoff"
    and pg: "\<And>c. cur = Some c \<Longrightarrow> vm_pgoff (vma_at s c) = pgoff"
  shows "choice_ok E s addr fin flags f pgoff (plan_next E prev n cur addr (drop_bit 12 (fin - addr)) s)"
proof -
  obtain plan er dup u where pl: "plan_next E prev n cur addr (drop_bit 12 (fin - addr)) s = (plan, er, dup, u)"
    by (metis prod_cases4)
  have nm: "n \<in> mapped (index E) s" using n by (simp add: next_fits_def)
  note b = plan_next_spec(1) [OF pl mapped_extent(1) [OF mm_ok_wf [OF ok] nm], where p' = n and fin = fin]
    plan_next_spec(2,3) [OF pl mapped_extent(1) [OF mm_ok_wf [OF ok] nm]]
  have "merge_done E s addr fin flags f pgoff plan u"
  proof (cases "\<exists>p. prev = Some p \<and> addr < vm_end (vma_at s p)")
    case True
    then obtain p where p: "prev = Some p" "addr < vm_end (vma_at s p)" by blast
    show ?thesis using b(1) p downto_done [OF E ok n _ _ _ r b(2) nm, of p] inside [OF p] by simp
  next
    case False
    then have "plan = grow_plan s False True n n cur addr fin (drop_bit 12 (fin - addr))"
      using b(1) by (auto split: option.splits)
    then show ?thesis using grow_done [OF E outside [OF False] pg b(2) nm] by simp
  qed
  with b(2,3) nm show ?thesis by (auto simp: choice_ok_def pl)
qed

lemma merge_choice_ok:
  assumes E: "env_ok E" and ok: "mm_ok E s" and mr: "merge_range E s prev addr fin f pgoff"
    and cur: "cur = merge_curr E s prev fin" and nxt: "nxt = merge_succ E s cur fin"
    and mprev: "mprev = (case prev of None \<Rightarrow> False
        | Some p \<Rightarrow> fits_prev E (vma_at s p) addr flags av f pgoff policy uffd name)"
    and mnext: "mnext = (case nxt of None \<Rightarrow> False
        | Some n \<Rightarrow> fits_next E (vma_at s n) flags av f (pgoff + drop_bit 12 (fin - addr)) policy uffd name)"
    and r: "merge_choice E prev cur nxt mprev mnext addr fin (drop_bit 12 (fin - addr)) s = Some x"
  shows "choice_ok E s addr fin flags f pgoff x"
proof -
  let ?M = "index E"
  have rr: "addr < fin" "4096 dvd unat addr" "4096 dvd unat fin" "unat fin < 2 ^ 63"
    using mr by (simp_all add: merge_range_def)
  have P: "prev_fits E s p addr flags f pgoff" if "mprev" "prev = Some p" for p
  proof -
    have "p \<in> mapped ?M s" by (rule merge_range_cases [OF E ok mr]) (use that in auto)
    then show ?thesis using prev_found [OF E ok] that mprev by simp
  qed
  have ld: "nxt = Some n \<Longrightarrow> entry_at ?M s fin = Some n" for n
    using nxt by (simp add: merge_succ_def split: if_splits)
  have N: "next_fits E s n fin flags f (pgoff + drop_bit 12 (fin - addr))" if "mnext" "nxt = Some n" for n
    using next_found [OF E ok mr ld [OF that(2)]] that mnext by simp
  have out: "prev = Some p \<Longrightarrow> mprev \<Longrightarrow> vm_end (vma_at s p) = addr" for p using P by (simp add: prev_fits_def)
  have c: "c \<in> mapped ?M s \<and> vm_start (vma_at s c) = addr \<and> fin \<le> vm_end (vma_at s c) \<and> vm_pgoff (vma_at s c) = pgoff"
    if "cur = Some c" for c
    by (rule merge_range_cases [OF E ok mr]) (use that cur in auto)
  have free: "\<forall>k. addr \<le> k \<and> k < fin \<longrightarrow> entry_at ?M s k = None"
    if "cur = None" "\<And>p. prev = Some p \<Longrightarrow> vm_end (vma_at s p) \<le> addr"
  proof (rule merge_range_cases [OF E ok mr])
    fix q assume "prev = Some q" "fin \<le> vm_end (vma_at s q)"
    with that(2) [of q] rr(1) show ?thesis by auto
  qed (use that cur in auto)
  have tl: "tiling E s left right p n cur addr fin flags f pgoff"
    if "left \<Longrightarrow> prev_fits E s p addr flags f pgoff"
      "right \<Longrightarrow> next_fits E s n fin flags f (pgoff + drop_bit 12 (fin - addr))" "left \<or> right"
      "\<And>p. prev = Some p \<Longrightarrow> vm_end (vma_at s p) \<le> addr"
      "\<And>c. cur = Some c \<Longrightarrow> vm_end (vma_at s c) = fin" for left right p n
    by (rule tilingI [OF ok mr that(1-3)]) (use free that(4,5) c in auto)
  have cn: "vm_end (vma_at s c) = fin" if "cur = Some c" "nxt = Some n" for c n
    using that nxt by (simp add: merge_succ_def split: if_splits)
  from r consider (both) p n where "x = plan_both E p n cur (emit (Vma_write p) s)" "mprev" "mnext" "prev = Some p" "nxt = Some n"
    | (prev) p where "x = plan_prev E p cur fin (emit (Vma_write p) s)" "mprev" "prev = Some p"
    | (nxt) n where "x = plan_next E prev n cur addr (drop_bit 12 (fin - addr)) s" "\<not> (mprev \<and> prev \<noteq> None)" "mnext" "nxt = Some n"
    by (auto simp: merge_choice_def Let_def split: option.splits if_splits)
  then show ?thesis
  proof cases
    case both
    have "tiling E s True True p n cur addr fin flags f pgoff"
      by (rule tl) (use both P N out cn in auto)
    then show ?thesis unfolding both(1) using c by (intro plan_both_ok [OF E ok]) auto
  next
    case prev
    show ?thesis unfolding prev(1)
    proof (rule plan_prev_ok [OF E ok P [OF prev(2,3)] rr(1,3,4)])
      show "tiling E s True False p p None addr fin flags f pgoff" if "cur = None"
        using tl [of True p False p] P [OF prev(2,3)] out that prev by simp
      show "c \<in> mapped ?M s \<and> vm_start (vma_at s c) = addr \<and> fin \<le> vm_end (vma_at s c) \<and> vm_pgoff (vma_at s c) = pgoff \<and>
          (fin = vm_end (vma_at s c) \<longrightarrow> tiling E s True False p p (Some c) addr fin flags f pgoff)" if "cur = Some c" for c
        using tl [of True p False p] P [OF prev(2,3)] out that prev c [OF that] by auto
    qed simp
  next
    case nxt
    show ?thesis unfolding nxt(1)
    proof (rule plan_next_ok [OF E ok N [OF nxt(3,4)] rr(1,2,4)])
      show "p \<in> mapped ?M s \<and> vm_start (vma_at s p) < addr \<and> vm_end (vma_at s p) = fin"
        if p: "prev = Some p" "addr < vm_end (vma_at s p)" for p
      proof (rule merge_range_cases [OF E ok mr])
        fix q assume q: "prev = Some q" "q \<in> mapped ?M s" "vm_start (vma_at s q) < addr" "fin \<le> vm_end (vma_at s q)"
        have "vm_start (vma_at s n) = fin" using N [OF nxt(3,4)] by (simp add: next_fits_def)
        then have "q \<noteq> n" using q(3) rr(1) by auto
        then have "\<not> fin < vm_end (vma_at s q)"
          using ld [OF nxt(4)] mapped_extent(3) [OF mm_ok_wf [OF ok] q(2), of fin] q(3) rr(1)
          by (auto dest: less_trans)
        with p q show ?thesis by auto
      qed (use p in auto)
      show "tiling E s False True n n cur addr fin flags f pgoff"
        if "\<not> (\<exists>p. prev = Some p \<and> addr < vm_end (vma_at s p))"
        using tl [of False n True n] N [OF nxt(3,4)] that cn nxt(4) by (auto simp: not_less)
    qed (use c in auto)
  qed
qed

lemma vma_merge_spec:
  assumes E: "env_ok E" and ok: "mm_ok E s" and mr: "merge_range E s prev addr fin f pgoff"
    and r: "vma_merge E prev addr fin flags av f pgoff policy uffd name s = (res, t)"
  shows "case res of
      None \<Rightarrow> t = s \<or> (\<exists>d \<in> mapped (index E) s. anon_upd d s t)
    | Some q \<Rightarrow> merged E s q addr fin flags f pgoff t"
proof -
  let ?cur = "merge_curr E s prev fin" let ?nxt = "merge_succ E s ?cur fin"
  let ?mprev = "case prev of None \<Rightarrow> False | Some p \<Rightarrow> fits_prev E (vma_at s p) addr flags av f pgoff policy uffd name"
  let ?mnext = "case ?nxt of None \<Rightarrow> False
        | Some n \<Rightarrow> fits_next E (vma_at s n) flags av f (pgoff + drop_bit 12 (fin - addr)) policy uffd name"
  let ?ch = "merge_choice E prev ?cur ?nxt ?mprev ?mnext addr fin (drop_bit 12 (fin - addr)) s"
  note eq = r [unfolded vma_merge_def Let_def hdr_simps(1) [OF env_hdr [OF E]]]
  show ?thesis
  proof (cases "flags AND cst E VM_SPECIAL \<noteq> 0 \<or> ?ch = None")
    case True
    then have "res = None \<and> t = s" using eq by (auto split: if_splits)
    then show ?thesis by simp
  next
    case False
    then obtain plan er dup u where ch: "?ch = Some (plan, er, dup, u)" by (metis not_None_eq prod_cases4)
    from merge_choice_ok [OF E ok mr refl refl refl refl ch, unfolded choice_ok_def prod.case]
    obtain d where d: "d \<in> mapped (index E) s" "anon_upd d s u" "dup = None \<or> dup = Some d"
      "er = None \<longrightarrow> merge_done E s addr fin flags f pgoff plan u" by blast
    have undo: "anon_upd d s (opt_do dup (do_unlink_anon_vmas E) u)"
      using d(2,3) anon_upd_trans [OF d(2) do_unlink_upd] by (auto simp: opt_do_def)
    have "res = None \<and> anon_upd d s t \<or> res = Some (mp_res plan) \<and> t = merge_commit E plan u \<and> er = None"
      using eq False d(2) undo by (auto simp: ch split: if_splits)
    then show ?thesis
      using d(1,4) by (auto simp: merge_done_def)
  qed
qed

section \<open>Changing a part of a mapping\<close>

lemma split_either_ok:
  assumes E: "env_ok E" and ok: "mm_ok E s" and p: "p \<in> mapped (index E) s"
    and c: "c \<longleftrightarrow> vm_start (vma_at s p) < a \<and> a < vm_end (vma_at s p)" and al: "4096 dvd unat a"
    and r: "(if c then split_vma E p a nb s else (Inr (), s)) = (res, t)"
  shows "mm_ok E t \<and> view E t = view E s \<and> same_counters s t \<and>
    (res = Inr () \<longrightarrow> p \<in> mapped (index E) t \<and> (if c then vma_at t p = split_rest (vma_at s p) a nb else t = s))"
proof (cases c)
  case True
  note at = True [unfolded c]
  have r: "split_vma E p a nb s = (res, t)" using r True by simp
  show ?thesis
  proof (cases "sysctl_max_map_count E \<le> map_count (cur_mm s)")
    case False
    with r have 2: "split_vma_nocheck E p a nb s = (res, t)" by (simp only: split_vma_def if_False)
    show ?thesis
    proof (cases res)
      case (Inl e)
      have "same_mm t s" by (rule split_nocheck_fail [OF E 2 [unfolded Inl]])
      then show ?thesis using ok Inl mm_ok_same [of t s E] view_same [of t s E] same_mmD [of t s] by simp
    next
      case (Inr x)
      note o = split_nocheck_ok [OF E ok p _ _ al, of nb t]
      show ?thesis using o 2 at p by (auto simp: Inr True)
    qed
  qed (use ok r in \<open>auto simp: split_vma_def\<close>)
qed (use ok p r in auto)

lemma vma_modify_spec:
  assumes E: "env_ok E" and ok: "mm_ok E s" and p: "p \<in> mapped (index E) s"
    and b: "vm_start (vma_at s p) \<le> start" "start < fin" "fin \<le> vm_end (vma_at s p)"
    and al: "4096 dvd unat start" "4096 dvd unat fin" "unat fin < 2 ^ 63"
    and prev: "if vm_start (vma_at s p) < start then prev = Some p else last_before (index E) s start prev"
    and r: "vma_modify E prev p start fin flags policy uffd name s = (res, t)"
  shows "case res of
      Inl e \<Rightarrow> mm_ok E t \<and> view E t = view E s \<and> same_counters s t
    | Inr q \<Rightarrow> placed E s q start fin flags (vm_file (vma_at s p)) (page_at (vma_at s p) start) t \<or>
        q = p \<and> mm_ok E t \<and> view E t = view E s \<and> same_counters s t \<and> p \<in> mapped (index E) t \<and>
          vm_start (vma_at t p) = start \<and> vm_end (vma_at t p) = fin"
proof -
  let ?v = "vma_at s p"
  have pg: "vm_pgoff ?v + drop_bit (PAGE_SHIFT E) (start - vm_start ?v) = page_at ?v start"
    by (simp add: page_at_def hdr_simps [OF env_hdr [OF E]])
  have mr: "merge_range E s prev start fin (vm_file ?v) (page_at ?v start)"
    unfolding merge_range_def using p b al prev by blast
  obtain m u where mu: "vma_merge E prev start fin flags (anon_vma ?v) (vm_file ?v) (page_at ?v start) policy uffd name s = (m, u)"
    by fastforce
  note ms = vma_merge_spec [OF E ok mr mu]
  show ?thesis
  proof (cases m)
    case (Some q)
    then show ?thesis using ms r mu by (auto simp: vma_modify_def Let_def pg merged_def)
  next
    case None
    have u: "mm_ok E u \<and> view E u = view E s \<and> cur_mm u = cur_mm s \<and> p \<in> mapped (index E) u \<and>
        vm_start (vma_at u p) = vm_start ?v \<and> vm_end (vma_at u p) = vm_end ?v"
    proof (cases "u = s")
      case False
      then obtain d where d: "d \<in> mapped (index E) s" "anon_upd d s u" using ms None by auto
      show ?thesis using anon_upd_ok [OF d(2) ok d(1)] anon_upd_view(2,3) [OF d(2)] anon_upd_fields [OF d(2)] p by simp
    qed (use ok p in simp)
    let ?c = "vm_start (vma_at u p) < start"
    obtain x w where x: "(if ?c then split_vma E p start True u else (Inr (), u)) = (x, w)" by fastforce
    have "?c \<longleftrightarrow> ?c \<and> start < vm_end (vma_at u p)" using u b by (auto dest: less_le_trans)
    note o = split_either_ok [OF E _ _ this al(1) x]
    have ow: "mm_ok E w" "view E w = view E s" "same_counters s w"
      "x = Inr () \<Longrightarrow> p \<in> mapped (index E) w \<and> vm_start (vma_at w p) = start \<and> vm_end (vma_at w p) = vm_end ?v"
      using o u b by (auto simp: split_rest_def split: if_splits)
    note eq = r [unfolded vma_modify_def Let_def pg mu None prod.case option.case x]
    show ?thesis
    proof (cases x)
      case (Inl e)
      then show ?thesis using eq ow by auto
    next
      case (Inr y)
      let ?d = "fin < vm_end (vma_at w p)"
      obtain z w' where z: "(if ?d then split_vma E p fin False w else (Inr (), w)) = (z, w')" by fastforce
      have "?d \<longleftrightarrow> vm_start (vma_at w p) < fin \<and> ?d" using ow(4) Inr b by auto
      note o' = split_either_ok [OF E ow(1) _ this al(2) z]
      note eq' = eq [unfolded Inr sum.case z prod.case]
      show ?thesis using o' ow Inr eq' b by (cases z) (auto simp: split_rest_def split: if_splits)
    qed
  qed
qed

section \<open>Claims\<close>

text \<open>
  C36: a merge shows what was asked for and nothing else changes.  \<open>merge_range\<close> is the contract of the
  callers: the page-aligned range is free and \<open>prev\<close> is the mapping before it, or it lies in one mapping, of
  whose file and pages the request speaks, and \<open>prev\<close> is that mapping unless the range is at its start.
  Whichever of its eight cases \<open>vma_merge\<close> takes, the mapping it returns covers the range; every
  address of the range shows the requested file, page and flags (but for \<open>VM_SOFTDIRTY\<close>), every other
  address what it showed; the invariant, the number of mappings included, holds, and the counters are
  kept.  When it returns no mapping, the address space is as before.
\<close>

theorem vma_merge_refines:
  assumes "env_ok E" "mm_ok E s" "merge_range E s prev addr fin f pgoff"
    and "vma_merge E prev addr fin flags av f pgoff policy uffd name s = (res, t)"
  shows "case res of
      None \<Rightarrow> mm_ok E t \<and> view E t = view E s \<and> cur_mm t = cur_mm s
    | Some q \<Rightarrow> mm_ok E t \<and> q \<in> mapped (index E) t \<and> vm_start (vma_at t q) \<le> addr \<and> fin \<le> vm_end (vma_at t q) \<and>
        seen E t = (\<lambda>x. if addr \<le> x \<and> x < fin
          then Some (f, pgoff + drop_bit 12 (x - addr), flags AND NOT (cst E VM_SOFTDIRTY)) else seen E s x) \<and>
        same_counters s t"
  using vma_merge_spec [OF assms] assms(2) anon_upd_ok [OF _ assms(2)] anon_upd_view(2) anon_upd_fields(7)
  by (auto simp: merged_def placed_def split: option.splits)

theorem vma_merge_refines_witness:
  "fst (vma_merge x86_env (Some 2) 0x603000 0x604000 0x100073 None None 0x603 None 0 None demo_mms) = Some 2 \<and>
   seen x86_env (snd (vma_merge x86_env (Some 2) 0x603000 0x604000 0x100073 None None 0x603 None 0 None demo_mms))
     0x603000 = Some (None, 0x603, 0x100073 AND NOT (cst x86_env VM_SOFTDIRTY))"
proof -
  let ?m = "vma_merge x86_env (Some 2) 0x603000 0x604000 0x100073 None None 0x603 None 0 None demo_mms"
  have free: "entry_at log_maple demo_mms k = None" if "0x603000 \<le> k" "k < 0x604000" for k
    using that by (simp add: demo_load word_le_nat_alt word_less_nat_alt)
  have "last_before log_maple demo_mms 0x603000 (Some 2)"
    by (auto simp: last_before_def demo_mapped) (simp add: demo_heap_def blank_vma_def)+
  then have "merge_range x86_env demo_mms (Some 2) 0x603000 0x604000 None 0x603"
    unfolding merge_range_def using free by simp
  moreover have r: "fst ?m = Some 2" by code_simp
  then have "?m = (Some 2, snd ?m)" by (metis prod.collapse)
  moreover have "mm_ok x86_env demo_mms" by (simp add: mm_ok_def)
  ultimately have "seen x86_env (snd ?m) = (\<lambda>x. if 0x603000 \<le> x \<and> x < 0x604000
      then Some (None, 0x603 + drop_bit 12 (x - 0x603000), 0x100073 AND NOT (cst x86_env VM_SOFTDIRTY))
      else seen x86_env demo_mms x)"
    using vma_merge_refines [of x86_env demo_mms "Some 2" "0x603000" "0x604000" None "0x603"] by fastforce
  with r show ?thesis by simp
qed

text \<open>
  C37: \<open>vma_modify\<close> isolates the range it is to change.  For a page-aligned range inside one mapping, it returns
  either a mapping that has been merged over the range with the new flags, everything else unchanged, or the mapping
  itself, cut to exactly the range by at most two splits, with every address showing what it showed, so
  that the caller changes the flags of the range and of nothing else.  On an error (a
  split that failed) every address still shows what it showed, even if the first split was made.
\<close>

theorem vma_modify_isolates:
  assumes "env_ok E" "mm_ok E s" "p \<in> mapped (index E) s"
    and "vm_start (vma_at s p) \<le> start" "start < fin" "fin \<le> vm_end (vma_at s p)"
    and "4096 dvd unat start" "4096 dvd unat fin" "unat fin < 2 ^ 63"
    and "if vm_start (vma_at s p) < start then prev = Some p else last_before (index E) s start prev"
    and "vma_modify E prev p start fin flags policy uffd name s = (res, t)"
  shows "case res of
      Inl e \<Rightarrow> mm_ok E t \<and> view E t = view E s \<and> same_counters s t
    | Inr q \<Rightarrow> placed E s q start fin flags (vm_file (vma_at s p)) (page_at (vma_at s p) start) t \<or>
        q = p \<and> mm_ok E t \<and> view E t = view E s \<and> same_counters s t \<and> p \<in> mapped (index E) t \<and>
          vm_start (vma_at t p) = start \<and> vm_end (vma_at t p) = fin"
  by (rule vma_modify_spec [OF assms])

theorem vma_modify_isolates_witness:
  "\<exists>t. vma_modify x86_env (Some 2) 2 0x601000 0x602000 0x100071 None 0 None demo_mms = (Inr 2, t) \<and>
     view x86_env t = view x86_env demo_mms \<and> vm_start (vma_at t 2) = 0x601000 \<and> vm_end (vma_at t 2) = 0x602000"
proof -
  let ?m = "vma_modify x86_env (Some 2) 2 0x601000 0x602000 0x100071 None 0 None demo_mms"
  have h: "vm_start demo_heap = 0x600000" "vm_end demo_heap = 0x603000" "vm_file demo_heap = None"
    by (simp_all add: demo_heap_def blank_vma_def)
  have r: "fst ?m = Inr 2" "vm_start (vma_at (snd ?m) 2) = 0x601000" by code_simp+
  have e: "?m = (Inr 2, snd ?m)" using r by (metis prod.collapse)
  have "mm_ok x86_env demo_mms" by (simp add: mm_ok_def)
  with e have "placed x86_env demo_mms 2 0x601000 0x602000 0x100071 None (page_at demo_heap 0x601000) (snd ?m) \<or>
      view x86_env (snd ?m) = view x86_env demo_mms \<and> vm_end (vma_at (snd ?m) 2) = 0x602000"
    using vma_modify_isolates [of x86_env demo_mms 2 "0x601000" "0x602000" "Some 2" "0x100071" None 0 None "Inr 2" "snd ?m"]
    by (auto simp: h demo_mapped)
  moreover have "seen x86_env (snd ?m) 0x601000 = Some (None, 0x601, 0x100073)" by code_simp
  ultimately have "view x86_env (snd ?m) = view x86_env demo_mms \<and> vm_end (vma_at (snd ?m) 2) = 0x602000"
    by (auto simp: merged_def placed_def)
  with e r(2) show ?thesis by blast
qed

end
