(* ===== verification/Spec2Isabelle.thy ===== *)
theory Spec2Isabelle
  imports Limits_Spec Usac_Syscalls Sys_Entry Mm_Account Vma_Merge Vma_Props Vma_Locks Munmap_Props Brk_Props Stack_Props Merge_Props
begin

text \<open>
  A verification development of the C sources of this repository, a modified part of the
  Linux kernel: six system calls of its own (\<open>kernel/usac\<close>), the system-call entry code that
  feeds one of them (\<open>arch/x86/entry/common.c\<close>) and the memory manager that asks another for
  leave to grow a process (\<open>mm/mmap.c\<close>).

  \<^bold>\<open>Foundations.\<close>  \<open>Prelude\<close> has the C integers as machine words, error numbers and word
  lemmas; \<open>Kernel_Types\<close> the constants of the headers (\<open>hdr\<close>), the events and the lock
  discipline.  A call that returns an error number gives \<open>errno + 'a\<close>; a call that may
  dereference NULL, reach \<open>BUG\<close> or \<open>panic\<close> gives an \<open>outcome\<close>.  What is not modelled state (locks,
  reference counts, reverse-map trees, page tables, commit accounting) is an event of the
  \<open>trace\<close>, in program order.  Kernel functions outside the repository are fields of environment
  records, arguments of every definition that calls them; what the code relies on is
  collected in \<open>hdr_ok\<close>, \<open>env_ok\<close> and \<open>maple_ok\<close>, which \<open>x86_hdr\<close>, \<open>x86_env\<close> and \<open>log_maple\<close>
  satisfy.

  \<^bold>\<open>The repository's own calls.\<close>
  \<^item> \<open>Mem_Limits\<close> (\<open>project3/main.c\<close>): the list of memory limits with its mutex, the admission
    test \<open>is_request_accepted\<close> and the add, get, update and remove calls.  \<open>Limits_Spec\<close>: the
    list refines a partial map, the invariant of all reachable states, what the test decides,
    and where its sum overflows.  Abstract map and list meet in the locale \<open>limit_table\<close>.
  \<^item> \<open>Usac_Syscalls\<close> (\<open>project1\<close>, \<open>project2\<close>, \<open>examples\<close>): counters of selected system calls,
    memory snapshot, I/O statistics, time, lazily populated memory; what is counted, and that
    the I/O statistics can hand out an uninitialised field.

  \<^bold>\<open>System-call entry.\<close>  \<open>Sys_Entry\<close> (\<open>arch/x86/entry/common.c\<close>): 64-bit and 32-bit entry with
  the dispatch tables, the tests before SYSRET and SYSEXIT, and the call of \<open>track_syscall\<close>.
  Lemmas: no table is entered out of bounds, a call is counted once and after its handler, fast
  returns are only asked for with safe registers, and what tracers see of a 32-bit call.

  \<^bold>\<open>The memory manager.\<close>  \<open>Vma_Types\<close> has mappings (\<open>vm_area_struct\<close>, found by pointer in a store)
  and the maple tree as an abstract index; \<open>Maple_Log\<close> is one such index, for runs; \<open>Mm_Env\<close>
  is the environment and \<open>Mm_Demo\<close> the small address spaces of the witnesses.
  \<^item> \<open>Vma_Lookup\<close>: \<open>find_vma\<close> and its relatives, the walk over a range, the counting of pages.
  \<^item> \<open>Mm_Account\<close>: the limits, the counters of an address space, bounds of file offsets, the
    reserves.  \<open>Vma_Merge\<close>: the predicates on neighbours and on write notification.
  \<^item> \<open>Vma_Ops\<close>: linking, \<open>vma_prepare\<close>, \<open>vma_complete\<close>, expand, shrink, split, insert.
    \<open>Vma_Spec\<close> has the abstract address space (\<open>view\<close>: what each address shows) and the
    invariant \<open>mm_ok\<close>; \<open>Vma_Props\<close> the effect of each operation on it, \<open>Vma_Locks\<close> the locks.
  \<^item> \<open>Merge\<close>, \<open>Merge_Spec\<close>, \<open>Merge_Cases\<close>, \<open>Merge_Props\<close>: \<open>vma_merge\<close> as a plan that is then
    committed, its eight cases, and \<open>vma_modify\<close>, which isolates a range.
  \<^item> \<open>Unmapped\<close>, \<open>Unmapped_Props\<close>: the searches for a free range; the locale \<open>area_provider\<close> is
    the contract of a search, interpreted on both generic searches.
  \<^item> \<open>Munmap\<close>, \<open>Munmap_Props\<close>: unmapping a range with all its error paths and lock hand-overs.
  \<^item> \<open>Brk\<close>, \<open>Brk_Spec\<close>, \<open>Brk_Props\<close>: the data segment, with the admission test of \<open>Mem_Limits\<close>.
  \<^item> \<open>Stack\<close>, \<open>Stack_Spec\<close>, \<open>Stack_Props\<close>: growing a stack in either direction.

  \<^bold>\<open>Loops.\<close>  List and tree walks are structural or have a measure (\<open>tracked_index_from\<close>,
  \<open>walk_after\<close>, \<open>detach_loop\<close>).  The \<open>retry\<close> loops of the searches may not end, so they are
  partial functions into \<open>option\<close>, and \<open>vm_unmapped_area_returns\<close> shows when they return;
  functions that call them are optional too.  No fuel is used.

  \<^bold>\<open>Not modelled.\<close>  Of \<open>mm/mmap.c\<close>: \<open>mmap\<close> itself with \<open>remap_file_pages\<close>, special mappings, \<open>exit_mmap\<close>,
  taking all locks of an address space, the debug checks and the sysctl tables; of
  \<open>common.c\<close>: the Xen event upcall, stack randomisation and instrumentation.  Log messages,
  the position of an iterator after an operation and concurrency between processes (other
  than the order of lock events) are left out.  The build files and the user programs under
  \<open>usac_tests\<close> hold no kernel logic.
\<close>

end
